(* ===== verification/JS_Prelude.thy ===== *)
theory JS_Prelude
  imports Main "HOL-Library.AList" "HOL-Library.Multiset"
begin

text \<open>
  Shared vocabulary of the development: the result type of code that may throw, loops whose
  body may throw, and the parts of the JavaScript library the modelled code uses, namely
  insertion-ordered \<open>Map\<close> and \<open>Set\<close> objects, array methods, and the decimal
  rendering of array indexes in template literals.  The locales at the end state what the
  components rely on: the laws of a keyed store, and the contract of a depth-first traversal
  that collects what it visits.
\<close>

named_theorems js_simps \<open>unfolding rules for the JavaScript library operations\<close>

section \<open>Results and loops that may throw\<close>

text \<open>A thrown error is a value: a failed \<open>assert.ok\<close>, a \<open>TypeError\<close> raised by
  the runtime (reading a property of \<open>undefined\<close>), or an error class of the application.\<close>

datatype js_error = AssertionError | TypeError | AppError string

type_synonym 'a result = "js_error + 'a"

fun rbind :: "'e + 'a \<Rightarrow> ('a \<Rightarrow> 'e + 'b) \<Rightarrow> 'e + 'b" where
  "rbind (Inl e) f = Inl e"
| "rbind (Inr x) f = f x"

lemma rbind_cong [fundef_cong]:
  "x = y \<Longrightarrow> (\<And>a. y = Inr a \<Longrightarrow> f a = g a) \<Longrightarrow> rbind x f = rbind y g"
  by (cases y) auto

lemma rbind_eq_Inr: "rbind r f = Inr y \<longleftrightarrow> (\<exists>x. r = Inr x \<and> f x = Inr y)"
  by (cases r) auto

lemma rbind_eq_Inl: "rbind r f = Inl e \<longleftrightarrow> r = Inl e \<or> (\<exists>x. r = Inr x \<and> f x = Inl e)"
  by (cases r) auto

lemma rbind_assoc: "rbind (rbind r f) g = rbind r (\<lambda>x. rbind (f x) g)"
  by (cases r) auto

text \<open>\<open>assert.ok(b)\<close> followed by the rest of the body.\<close>

definition assert_ok :: "bool \<Rightarrow> 'a result \<Rightarrow> 'a result" where
  "assert_ok b k = (if b then k else Inl AssertionError)"

lemma assert_ok_simps [simp]:
  "assert_ok True k = k"
  "assert_ok False k = Inl AssertionError"
  by (simp_all add: assert_ok_def)

lemma assert_ok_Inr: "assert_ok b k = Inr x \<longleftrightarrow> b \<and> k = Inr x"
  by (simp add: assert_ok_def)

lemma assert_ok_cong [fundef_cong]:
  "b = c \<Longrightarrow> (c \<Longrightarrow> k = l) \<Longrightarrow> assert_ok b k = assert_ok c l"
  by (simp add: assert_ok_def)

text \<open>A \<open>for (const x of xs)\<close> loop that updates the state \<open>s\<close> and stops at the first throw.\<close>

fun rfold :: "('a \<Rightarrow> 's \<Rightarrow> 'e + 's) \<Rightarrow> 'a list \<Rightarrow> 's \<Rightarrow> 'e + 's" where
  "rfold f [] s = Inr s"
| "rfold f (x # xs) s = rbind (f x s) (rfold f xs)"

lemma rfold_cong [fundef_cong]:
  assumes "xs = ys" and "s = t" and "\<And>x u. x \<in> set ys \<Longrightarrow> f x u = g x u"
  shows "rfold f xs s = rfold g ys t"
proof -
  have "rfold f ys t = rfold g ys t"
    using assms(3) by (induction ys arbitrary: t) (auto intro!: rbind_cong)
  with assms(1,2) show ?thesis by simp
qed

lemma rfold_append: "rfold f (xs @ ys) s = rbind (rfold f xs s) (rfold f ys)"
  by (induction xs arbitrary: s) (auto simp: rbind_assoc intro!: rbind_cong)

lemma rfold_invariant:
  assumes "rfold f xs s = Inr t" and "P s"
    and "\<And>x u v. x \<in> set xs \<Longrightarrow> P u \<Longrightarrow> f x u = Inr v \<Longrightarrow> P v"
  shows "P t"
  using assms by (induction xs arbitrary: s) (auto simp: rbind_eq_Inr)

lemma rfold_total:
  assumes "P s" and "\<And>x u. x \<in> set xs \<Longrightarrow> P u \<Longrightarrow> \<exists>v. f x u = Inr v \<and> P v"
  shows "\<exists>t. rfold f xs s = Inr t \<and> P t"
  using assms
proof (induction xs arbitrary: s)
  case Nil
  then show ?case by simp
next
  case (Cons x xs)
  from Cons.prems(1) Cons.prems(2)[of x s] obtain v where v: "f x s = Inr v" "P v" by auto
  from Cons.IH[OF v(2)] Cons.prems(2) obtain t where "rfold f xs v = Inr t" "P t" by auto
  with v show ?case by simp
qed

lemma rfold_pure: "(\<And>x s. x \<in> set xs \<Longrightarrow> f x s = Inr (g x s)) \<Longrightarrow> rfold f xs s = Inr (fold g xs s)"
  by (induction xs arbitrary: s) auto

section \<open>Arrays\<close>

fun findIndex :: "('a \<Rightarrow> bool) \<Rightarrow> 'a list \<Rightarrow> nat option" where
  "findIndex P [] = None"
| "findIndex P (x # xs) = (if P x then Some 0 else map_option Suc (findIndex P xs))"

lemma findIndex_None: "findIndex P xs = None \<longleftrightarrow> (\<forall>x\<in>set xs. \<not> P x)"
  by (induction xs) auto

lemma findIndex_Some:
  "findIndex P xs = Some i \<Longrightarrow>
     i < length xs \<and> P (xs ! i) \<and> (\<forall>j<i. \<not> P (xs ! j))"
proof (induction xs arbitrary: i)
  case Nil
  then show ?case by simp
next
  case (Cons x xs)
  show ?case
  proof (cases "P x")
    case True
    with Cons.prems show ?thesis by auto
  next
    case False
    with Cons.prems obtain k where k: "findIndex P xs = Some k" "i = Suc k" by auto
    from Cons.IH[OF k(1)] False show ?thesis
      by (auto simp: k(2) less_Suc_eq_0_disj)
  qed
qed

text \<open>\<open>xs.splice(i, 1)\<close>.\<close>

definition removeAt :: "nat \<Rightarrow> 'a list \<Rightarrow> 'a list" where
  "removeAt i xs = take i xs @ drop (Suc i) xs"

lemma removeAt_simps [simp]:
  "removeAt i [] = []"
  "removeAt 0 (x # xs) = xs"
  "removeAt (Suc i) (x # xs) = x # removeAt i xs"
  by (simp_all add: removeAt_def)

lemma set_removeAt: "set (removeAt i xs) \<subseteq> set xs"
  by (auto simp: removeAt_def dest: in_set_takeD in_set_dropD)

lemma length_removeAt [simp]: "i < length xs \<Longrightarrow> length (removeAt i xs) = length xs - 1"
  by (simp add: removeAt_def)

lemma distinct_removeAt: "distinct xs \<Longrightarrow> distinct (removeAt i xs)"
proof -
  assume "distinct xs"
  then have "set (take i xs) \<inter> set (drop (Suc i) xs) = {}"
    by (simp add: set_take_disj_set_drop_if_distinct)
  with \<open>distinct xs\<close> show ?thesis by (simp add: removeAt_def)
qed

text \<open>\<open>xs.at(i)\<close>: a negative index counts from the end, out of range is \<open>undefined\<close>.\<close>

definition js_at :: "'a list \<Rightarrow> int \<Rightarrow> 'a option" where
  "js_at xs i =
     (let k = (if i < 0 then int (length xs) + i else i)
      in if 0 \<le> k \<and> k < int (length xs) then Some (xs ! nat k) else None)"

text \<open>\<open>xs[i] = v\<close>: writing past the end extends the array, the gap holding \<open>hole\<close>.\<close>

definition js_array_set :: "'a \<Rightarrow> 'a list \<Rightarrow> nat \<Rightarrow> 'a \<Rightarrow> 'a list" where
  "js_array_set hole xs i v =
     (if i < length xs then xs[i := v] else xs @ replicate (i - length xs) hole @ [v])"

lemma js_array_set_nth [simp]: "js_array_set h xs i v ! i = v"
  by (simp add: js_array_set_def nth_append)

lemma js_array_set_other: "j < length xs \<Longrightarrow> j \<noteq> i \<Longrightarrow> js_array_set h xs i v ! j = xs ! j"
  by (simp add: js_array_set_def nth_append)

lemma length_js_array_set: "length (js_array_set h xs i v) = max (length xs) (Suc i)"
  by (auto simp: js_array_set_def)

text \<open>\<open>xs.sort(cmp)\<close> is stable: of two elements that compare equal, the earlier one stays first.
  For a consistent comparator there is one stable sorted order, which insertion computes; like the
  engine's sort, it only asks whether a later element compares as less than an earlier one.\<close>

fun js_insert :: "('a \<Rightarrow> 'a \<Rightarrow> int) \<Rightarrow> 'a \<Rightarrow> 'a list \<Rightarrow> 'a list" where
  "js_insert cmp x [] = [x]"
| "js_insert cmp x (y # ys) = (if cmp y x < 0 then y # js_insert cmp x ys else x # y # ys)"

definition js_sort :: "('a \<Rightarrow> 'a \<Rightarrow> int) \<Rightarrow> 'a list \<Rightarrow> 'a list" where
  "js_sort cmp xs = foldr (js_insert cmp) xs []"

lemma mset_js_insert [simp]: "mset (js_insert cmp x xs) = add_mset x (mset xs)"
  by (induction xs) auto

lemma mset_js_sort [simp]: "mset (js_sort cmp xs) = mset xs"
  by (induction xs) (auto simp: js_sort_def)

lemma set_js_sort [simp]: "set (js_sort cmp xs) = set xs"
  by (metis mset_js_sort set_mset_mset)

lemma mset_removeAt: "i < length xs \<Longrightarrow> add_mset (xs ! i) (mset (removeAt i xs)) = mset xs"
proof -
  assume "i < length xs"
  then have "xs = take i xs @ xs ! i # drop (Suc i) xs" by (rule id_take_nth_drop)
  then have "mset xs = mset (take i xs @ xs ! i # drop (Suc i) xs)" by (rule arg_cong)
  then show ?thesis by (simp add: removeAt_def)
qed

section \<open>Sets in insertion order\<close>

type_synonym 'a js_set = "'a list"

definition set_add :: "'a \<Rightarrow> 'a js_set \<Rightarrow> 'a js_set" where
  "set_add x xs = (if x \<in> set xs then xs else xs @ [x])"

abbreviation (input) set_has :: "'a js_set \<Rightarrow> 'a \<Rightarrow> bool" where
  "set_has xs x \<equiv> x \<in> set xs"

definition set_delete :: "'a \<Rightarrow> 'a js_set \<Rightarrow> 'a js_set" where
  "set_delete x xs = filter (\<lambda>y. y \<noteq> x) xs"

definition set_of_array :: "'a list \<Rightarrow> 'a js_set" where
  "set_of_array xs = fold set_add xs []"

lemma set_set_add [simp]: "set (set_add x xs) = insert x (set xs)"
  by (auto simp: set_add_def)

lemma distinct_set_add [simp]: "distinct xs \<Longrightarrow> distinct (set_add x xs)"
  by (auto simp: set_add_def)

lemma set_set_delete [simp]: "set (set_delete x xs) = set xs - {x}"
  by (auto simp: set_delete_def)

lemma distinct_set_delete [simp]: "distinct xs \<Longrightarrow> distinct (set_delete x xs)"
  by (simp add: set_delete_def)

lemma set_fold_set_add: "set (fold set_add xs acc) = set acc \<union> set xs"
  by (induction xs arbitrary: acc) auto

lemma distinct_fold_set_add: "distinct acc \<Longrightarrow> distinct (fold set_add xs acc)"
  by (induction xs arbitrary: acc) auto

lemma set_set_of_array [simp]: "set (set_of_array xs) = set xs"
  by (simp add: set_of_array_def set_fold_set_add)

lemma distinct_set_of_array [simp]: "distinct (set_of_array xs)"
  by (simp add: set_of_array_def distinct_fold_set_add)

section \<open>Maps in insertion order\<close>

text \<open>A \<open>Map\<close>, and an object used as a dictionary, is the list of its entries in
  enumeration order.  Setting an existing key keeps its position, a new key goes to the end,
  deletion drops the entry: these are the association-list operations of the library.\<close>

type_synonym ('k, 'v) js_map = "('k \<times> 'v) list"

abbreviation (input) map_get :: "('k, 'v) js_map \<Rightarrow> 'k \<Rightarrow> 'v option" where
  "map_get \<equiv> map_of"

abbreviation (input) map_set :: "'k \<Rightarrow> 'v \<Rightarrow> ('k, 'v) js_map \<Rightarrow> ('k, 'v) js_map" where
  "map_set \<equiv> AList.update"

abbreviation (input) map_delete :: "'k \<Rightarrow> ('k, 'v) js_map \<Rightarrow> ('k, 'v) js_map" where
  "map_delete \<equiv> AList.delete"

abbreviation (input) map_keys :: "('k, 'v) js_map \<Rightarrow> 'k list" where
  "map_keys \<equiv> map fst"

abbreviation (input) map_values :: "('k, 'v) js_map \<Rightarrow> 'v list" where
  "map_values \<equiv> map snd"

abbreviation (input) map_wf :: "('k, 'v) js_map \<Rightarrow> bool" where
  "map_wf m \<equiv> distinct (map fst m)"

lemma map_get_set [simp]: "map_get (map_set k v m) k' = (if k' = k then Some v else map_get m k')"
  by (simp add: update_conv')

lemma map_get_delete [simp]: "map_get (map_delete k m) k' = (if k' = k then None else map_get m k')"
  by (simp add: delete_conv')

lemma map_wf_set [simp]: "map_wf m \<Longrightarrow> map_wf (map_set k v m)"
  by (rule distinct_update)

lemma map_wf_delete [simp]: "map_wf m \<Longrightarrow> map_wf (map_delete k m)"
  by (rule distinct_delete)

lemma map_wf_filter [simp]: "map_wf m \<Longrightarrow> map_wf (filter P m)"
  by (rule distinct_map_filter)

lemma set_map_set_new: "map_get m k = None \<Longrightarrow> map_set k v m = m @ [(k, v)]"
  by (induction m) auto

lemma map_set_notin: "k \<notin> fst ` set m \<Longrightarrow> {p \<in> set m. fst p \<noteq> k} = set m"
  by force

lemma set_map_set:
  "map_wf m \<Longrightarrow> set (map_set k v m) = insert (k, v) {p \<in> set m. fst p \<noteq> k}"
proof (induction m)
  case Nil
  then show ?case by simp
next
  case (Cons p m)
  show ?case
  proof (cases "fst p = k")
    case True
    with Cons.prems have "k \<notin> fst ` set m" by auto
    then have "{q \<in> set m. fst q \<noteq> k} = set m" by (rule map_set_notin)
    with True show ?thesis by auto
  next
    case False
    with Cons show ?thesis by auto
  qed
qed

lemma set_map_delete: "set (map_delete k m) = {p \<in> set m. fst p \<noteq> k}"
  by (auto simp: AList.delete_eq)

lemma map_values_set_subset: "snd ` set (map_set k v m) \<subseteq> insert v (snd ` set m)"
  by (induction m) auto

text \<open>Rebuilding a map entry by entry gives it back.\<close>

lemma fold_map_set_id:
  "map_wf (acc @ m) \<Longrightarrow> fold (\<lambda>(k, v). map_set k v) m acc = acc @ m"
proof (induction m arbitrary: acc)
  case Nil
  then show ?case by simp
next
  case (Cons p m)
  obtain k v where p: "p = (k, v)" by (cases p)
  from Cons.prems have "map_get acc k = None" by (auto simp: p map_of_eq_None_iff)
  then have "map_set k v acc = acc @ [(k, v)]" by (rule set_map_set_new)
  with Cons.IH[of "acc @ [(k, v)]"] Cons.prems show ?case by (simp add: p)
qed

section \<open>Decimal rendering of array indexes\<close>

definition digit_char :: "nat \<Rightarrow> char" where
  "digit_char d = char_of (48 + d)"

fun nat_to_string :: "nat \<Rightarrow> string" where
  "nat_to_string n =
     (if n < 10 then [digit_char n] else nat_to_string (n div 10) @ [digit_char (n mod 10)])"

declare nat_to_string.simps [simp del]

definition digit_val :: "char \<Rightarrow> nat" where
  "digit_val c = of_char c - 48"

definition string_to_nat :: "string \<Rightarrow> nat" where
  "string_to_nat s = foldl (\<lambda>n c. 10 * n + digit_val c) 0 s"

lemma of_digit_char: "d < 10 \<Longrightarrow> (of_char (digit_char d) :: nat) = 48 + d"
  by (simp add: digit_char_def)

lemma digit_val_char: "d < 10 \<Longrightarrow> digit_val (digit_char d) = d"
  by (simp add: digit_val_def of_digit_char)

lemma string_to_nat_inverse: "string_to_nat (nat_to_string n) = n"
proof (induction n rule: nat_to_string.induct)
  case (1 n)
  show ?case
  proof (cases "n < 10")
    case True
    then show ?thesis
      by (subst nat_to_string.simps) (simp add: string_to_nat_def digit_val_char)
  next
    case False
    with "1.IH" show ?thesis
      by (subst nat_to_string.simps) (simp add: string_to_nat_def digit_val_char)
  qed
qed

lemma nat_to_string_inject [simp]: "nat_to_string m = nat_to_string n \<longleftrightarrow> m = n"
  by (metis string_to_nat_inverse)

lemma nat_to_string_digits: "c \<in> set (nat_to_string n) \<Longrightarrow> 48 \<le> (of_char c :: nat) \<and> (of_char c :: nat) < 58"
proof (induction n rule: nat_to_string.induct)
  case (1 n)
  show ?case
  proof (cases "n < 10")
    case True
    with "1.prems" show ?thesis
      by (subst (asm) nat_to_string.simps) (simp add: of_digit_char)
  next
    case False
    with "1.prems" have "c \<in> set (nat_to_string (n div 10)) \<or> c = digit_char (n mod 10)"
      by (subst (asm) nat_to_string.simps) auto
    with False "1.IH" show ?thesis by (auto simp: of_digit_char)
  qed
qed

section \<open>Interfaces\<close>

subsection \<open>A keyed store\<close>

text \<open>What the components rely on of a \<open>Map\<close>: reading back a write, the absence of a deleted
  key, and distinct keys.\<close>

locale keyed_store =
  fixes get :: "'m \<Rightarrow> 'k \<Rightarrow> 'v option"
    and put :: "'k \<Rightarrow> 'v \<Rightarrow> 'm \<Rightarrow> 'm"
    and del :: "'k \<Rightarrow> 'm \<Rightarrow> 'm"
    and inv :: "'m \<Rightarrow> bool"
  assumes get_put: "get (put k v m) k' = (if k' = k then Some v else get m k')"
    and get_del: "get (del k m) k' = (if k' = k then None else get m k')"
    and inv_put: "inv m \<Longrightarrow> inv (put k v m)"
    and inv_del: "inv m \<Longrightarrow> inv (del k m)"
begin

lemma get_put_many:
  "get (fold (\<lambda>x. put (key x) x) xs m) k =
     (case find (\<lambda>x. key x = k) (rev xs) of Some x \<Rightarrow> Some x | None \<Rightarrow> get m k)"
proof (induction xs arbitrary: m rule: rev_induct)
  case Nil
  then show ?case by simp
next
  case (snoc x xs)
  then show ?case by (auto simp: get_put)
qed

lemma get_put_many_in:
  "get (fold (\<lambda>x. put (key x) x) xs m) k = Some v \<Longrightarrow> v \<in> set xs \<and> key v = k \<or> get m k = Some v"
  by (auto simp: get_put_many find_Some_iff nth_mem split: option.splits)
    (metis length_rev nth_mem set_rev)

lemma inv_put_many: "inv m \<Longrightarrow> inv (fold (\<lambda>x. put (key x) x) xs m)"
  by (induction xs arbitrary: m) (auto simp: inv_put)

lemma get_del_many:
  "get (fold del ks m) k = (if k \<in> set ks then None else get m k)"
  by (induction ks arbitrary: m) (auto simp: get_del)

end

interpretation js_map: keyed_store map_of AList.update AList.delete "\<lambda>m. distinct (map fst m)"
  by unfold_locales (auto simp: distinct_update distinct_delete)

subsection \<open>A depth-first traversal that collects what it visits\<close>

text \<open>
  Several functions of the program walk a graph the same way: for every edge \<open>e\<close> of a list,
  skip it when its target \<open>key e\<close> was collected, otherwise collect the target and recurse on
  the edges \<open>expand (key e)\<close> that leave it, threading the collection through the loop.
  The laws below are that loop.  \<open>universe\<close> bounds the targets that can be met.
\<close>

locale collecting_traversal =
  fixes key :: "'c \<Rightarrow> 'n"
    and expand :: "'n \<Rightarrow> 'e + 'c list"
    and visit :: "'c list \<Rightarrow> 'n list \<Rightarrow> 'e + 'n list"
    and universe :: "'n set"
  assumes visit_Nil: "visit [] acc = Inr acc"
    and visit_Cons: "visit (c # cs) acc =
          (if key c \<in> set acc then visit cs acc
           else rbind (expand (key c)) (\<lambda>ds. rbind (visit ds (acc @ [key c])) (visit cs)))"
    and finite_universe: "finite universe"
    and expand_universe: "expand n = Inr ds \<Longrightarrow> key ` set ds \<subseteq> universe"
begin

definition succs :: "('n \<times> 'n) set" where
  "succs = {(m, n). \<exists>ds. expand m = Inr ds \<and> n \<in> key ` set ds}"

definition work :: "'c list \<Rightarrow> 'n list \<Rightarrow> nat" where
  "work cs acc = card ((universe \<union> key ` set cs) - set acc)"

lemma work_less:
  assumes "key c \<in> universe \<union> key ` set (c # cs)" and "key c \<notin> set acc" and "key c \<in> set acc'"
    and "set acc \<subseteq> set acc'" and "key ` set ds \<subseteq> universe \<union> key ` set (c # cs)"
  shows "work ds acc' < work (c # cs) acc"
  unfolding work_def using assms finite_universe by (intro psubset_card_mono) auto

lemma work_tail: "work cs acc \<le> work (c # cs) acc"
  unfolding work_def using finite_universe by (intro card_mono) auto

lemma visit_induct_aux:
  assumes Nil: "\<And>acc. P [] acc"
    and skip: "\<And>c cs acc. key c \<in> set acc \<Longrightarrow> P cs acc \<Longrightarrow> P (c # cs) acc"
    and step: "\<And>c cs acc. key c \<notin> set acc \<Longrightarrow>
        (\<And>ds. expand (key c) = Inr ds \<Longrightarrow> P ds (acc @ [key c])) \<Longrightarrow>
        (\<And>acc'. insert (key c) (set acc) \<subseteq> set acc' \<Longrightarrow> P cs acc') \<Longrightarrow> P (c # cs) acc"
  shows "P cs acc"
proof (induction "(cs, acc)" arbitrary: cs acc
    rule: wf_induct_rule[OF wf_measures[of "[\<lambda>(cs, acc). work cs acc, \<lambda>(cs, acc). length cs]"]])
  case (1 cs acc)
  show ?case
  proof (cases cs)
    case Nil
    then show ?thesis by (simp add: assms(1))
  next
    case (Cons c cs')
    show ?thesis
    proof (cases "key c \<in> set acc")
      case True
      have "P cs' acc"
        by (rule 1) (use Cons work_tail[of cs' acc c] in auto)
      with True Cons skip show ?thesis by blast
    next
      case False
      have A: "P ds (acc @ [key c])" if "expand (key c) = Inr ds" for ds
        using False Cons expand_universe[OF that] by (intro 1) (auto intro!: work_less)
      have B: "P cs' acc'" if "insert (key c) (set acc) \<subseteq> set acc'" for acc'
        using False Cons that by (intro 1) (auto intro!: work_less)
      from step[OF False A B] Cons show ?thesis by blast
    qed
  qed
qed

lemma visit_extends: "visit cs acc = Inr acc' \<Longrightarrow> \<exists>zs. acc' = acc @ zs"
proof (induction cs acc arbitrary: acc' rule: visit_induct_aux)
  case (1 acc)
  then show ?case by (simp add: visit_Nil)
next
  case (2 c cs acc)
  then show ?case by (simp add: visit_Cons)
next
  case (3 c cs acc)
  from 3(1,4) obtain ds acc1 where e: "expand (key c) = Inr ds"
    and v: "visit ds (acc @ [key c]) = Inr acc1" and w: "visit cs acc1 = Inr acc'"
    by (auto simp: visit_Cons rbind_eq_Inr)
  from 3(2)[OF e v] obtain zs where zs: "acc1 = (acc @ [key c]) @ zs" by blast
  have "\<exists>ys. acc' = acc1 @ ys" by (rule 3(3)[OF _ w]) (use zs in auto)
  with zs show ?case by auto
qed

lemma visit_mono: "visit cs acc = Inr acc' \<Longrightarrow> set acc \<subseteq> set acc'"
  using visit_extends by fastforce

lemma visit_step:
  assumes "visit (c # cs) acc = Inr acc'" and "key c \<notin> set acc"
  obtains ds acc1 where "expand (key c) = Inr ds" and "visit ds (acc @ [key c]) = Inr acc1"
    and "visit cs acc1 = Inr acc'" and "insert (key c) (set acc) \<subseteq> set acc1"
    and "set acc1 \<subseteq> set acc'"
proof -
  from assms obtain ds acc1 where e: "expand (key c) = Inr ds"
    and v: "visit ds (acc @ [key c]) = Inr acc1" and w: "visit cs acc1 = Inr acc'"
    by (auto simp: visit_Cons rbind_eq_Inr)
  from visit_mono[OF v] visit_mono[OF w] e v w show ?thesis by (intro that) auto
qed

lemma visit_complete: "visit cs acc = Inr acc' \<Longrightarrow> key ` set cs \<subseteq> set acc'"
proof (induction cs acc arbitrary: acc' rule: visit_induct_aux)
  case (1 acc)
  then show ?case by simp
next
  case (2 c cs acc)
  then have "visit cs acc = Inr acc'" by (simp add: visit_Cons)
  with 2 visit_mono show ?case by fastforce
next
  case (3 c cs acc)
  from 3(4,1) obtain acc1 where w: "visit cs acc1 = Inr acc'"
    and s: "insert (key c) (set acc) \<subseteq> set acc1" "set acc1 \<subseteq> set acc'"
    by (elim visit_step)
  from 3(3)[OF s(1) w] s show ?case by auto
qed

lemma visit_closed:
  "visit cs acc = Inr acc' \<Longrightarrow> m \<in> set acc' \<Longrightarrow> m \<notin> set acc \<Longrightarrow> (m, n) \<in> succs \<Longrightarrow> n \<in> set acc'"
proof (induction cs acc arbitrary: acc' rule: visit_induct_aux)
  case (1 acc)
  then show ?case by (simp add: visit_Nil)
next
  case (2 c cs acc)
  then show ?case by (simp add: visit_Cons)
next
  case (3 c cs acc)
  from 3(4,1) obtain ds acc1 where e: "expand (key c) = Inr ds"
    and v: "visit ds (acc @ [key c]) = Inr acc1" and w: "visit cs acc1 = Inr acc'"
    and s: "insert (key c) (set acc) \<subseteq> set acc1" "set acc1 \<subseteq> set acc'"
    by (elim visit_step)
  consider "m = key c" | "m \<in> set acc1" "m \<noteq> key c" | "m \<notin> set acc1" by blast
  then show ?case
  proof cases
    case 1
    with 3(7) e have "n \<in> key ` set ds" by (auto simp: succs_def)
    with visit_complete[OF v] s show ?thesis by blast
  next
    case 2
    from 3(2)[OF e v] 2 3(6,7) s show ?thesis by auto
  next
    case 3
    from "3.IH"(2)[OF s(1) w \<open>m \<in> set acc'\<close> 3 \<open>(m, n) \<in> succs\<close>] show ?thesis .
  qed
qed

lemma visit_sound:
  "visit cs acc = Inr acc' \<Longrightarrow> set acc' \<subseteq> set acc \<union> succs\<^sup>* `` (key ` set cs)"
proof (induction cs acc arbitrary: acc' rule: visit_induct_aux)
  case (1 acc)
  then show ?case by (simp add: visit_Nil)
next
  case (2 c cs acc)
  then have "visit cs acc = Inr acc'" by (simp add: visit_Cons)
  with 2(2) show ?case by fastforce
next
  case (3 c cs acc)
  from 3(4,1) obtain ds acc1 where e: "expand (key c) = Inr ds"
    and v: "visit ds (acc @ [key c]) = Inr acc1" and w: "visit cs acc1 = Inr acc'"
    and s: "insert (key c) (set acc) \<subseteq> set acc1"
    by (elim visit_step)
  have "succs\<^sup>* `` (key ` set ds) \<subseteq> succs\<^sup>* `` {key c}"
  proof
    fix n assume "n \<in> succs\<^sup>* `` (key ` set ds)"
    then obtain d where d: "d \<in> set ds" "(key d, n) \<in> succs\<^sup>*" by auto
    with e have "(key c, key d) \<in> succs" by (auto simp: succs_def)
    with d show "n \<in> succs\<^sup>* `` {key c}" by (auto intro: converse_rtrancl_into_rtrancl)
  qed
  moreover have "set acc1 \<subseteq> set (acc @ [key c]) \<union> succs\<^sup>* `` (key ` set ds)" by (rule 3(2)[OF e v])
  ultimately have "set acc1 \<subseteq> set (acc @ [key c]) \<union> succs\<^sup>* `` {key c}" by blast
  then have "set acc1 \<subseteq> set acc \<union> succs\<^sup>* `` {key c}" by auto
  moreover have "set acc' \<subseteq> set acc1 \<union> succs\<^sup>* `` (key ` set cs)" by (rule 3(3)[OF s w])
  moreover have "succs\<^sup>* `` (key ` set (c # cs)) = succs\<^sup>* `` {key c} \<union> succs\<^sup>* `` (key ` set cs)"
    by auto
  ultimately show ?case by blast
qed

text \<open>Started with nothing collected, the traversal returns exactly what is reachable.\<close>

theorem visit_reachable:
  assumes "visit cs [] = Inr acc"
  shows "set acc = succs\<^sup>* `` (key ` set cs)"
proof
  show "set acc \<subseteq> succs\<^sup>* `` (key ` set cs)" using visit_sound[OF assms] by simp
  have "n \<in> set acc" if "(m, n) \<in> succs\<^sup>*" "m \<in> set acc" for m n
    using that by (induction rule: rtrancl_induct) (auto intro: visit_closed[OF assms])
  with visit_complete[OF assms] show "succs\<^sup>* `` (key ` set cs) \<subseteq> set acc" by blast
qed

lemma visit_distinct: "visit cs acc = Inr acc' \<Longrightarrow> distinct acc \<Longrightarrow> distinct acc'"
proof (induction cs acc arbitrary: acc' rule: visit_induct_aux)
  case (1 acc)
  then show ?case by (simp add: visit_Nil)
next
  case (2 c cs acc)
  then show ?case by (simp add: visit_Cons)
next
  case (3 c cs acc)
  from 3(4,1) obtain ds acc1 where e: "expand (key c) = Inr ds"
    and v: "visit ds (acc @ [key c]) = Inr acc1" and w: "visit cs acc1 = Inr acc'"
    and s: "insert (key c) (set acc) \<subseteq> set acc1"
    by (elim visit_step)
  from 3(2)[OF e v] 3(1,5) have "distinct acc1" by simp
  from 3(3)[OF s w this] show ?case .
qed

text \<open>The traversal returns when no node it can meet makes \<open>expand\<close> throw.\<close>

lemma visit_total:
  assumes "\<And>n. n \<in> G \<Longrightarrow> \<exists>ds. expand n = Inr ds \<and> key ` set ds \<subseteq> G" and "key ` set cs \<subseteq> G"
  shows "\<exists>acc'. visit cs acc = Inr acc'"
  using assms(2)
proof (induction cs acc rule: visit_induct_aux)
  case (1 acc)
  then show ?case by (simp add: visit_Nil)
next
  case (2 c cs acc)
  then show ?case by (simp add: visit_Cons)
next
  case (3 c cs acc)
  from 3(4) assms(1)[of "key c"] obtain ds where e: "expand (key c) = Inr ds" "key ` set ds \<subseteq> G"
    by auto
  from 3(2)[OF e] obtain acc1 where v: "visit ds (acc @ [key c]) = Inr acc1" by blast
  have "insert (key c) (set acc) \<subseteq> set acc1" using visit_mono[OF v] by auto
  from 3(3)[OF this] 3(4) obtain acc' where "visit cs acc1 = Inr acc'" by auto
  with e v 3(1) show ?case by (simp add: visit_Cons)
qed

text \<open>What the traversal collects was expanded, and an error comes from a reachable node.\<close>

lemma visit_expanded:
  "visit cs acc = Inr acc' \<Longrightarrow> n \<in> set acc' \<Longrightarrow> n \<notin> set acc \<Longrightarrow> \<exists>ds. expand n = Inr ds"
proof (induction cs acc arbitrary: acc' rule: visit_induct_aux)
  case (1 acc)
  then show ?case by (simp add: visit_Nil)
next
  case (2 c cs acc)
  then show ?case by (simp add: visit_Cons)
next
  case (3 c cs acc)
  from 3(4,1) obtain ds acc1 where e: "expand (key c) = Inr ds"
    and v: "visit ds (acc @ [key c]) = Inr acc1" and w: "visit cs acc1 = Inr acc'"
    and s: "insert (key c) (set acc) \<subseteq> set acc1"
    by (elim visit_step)
  consider "n = key c" | "n \<in> set acc1" "n \<noteq> key c" | "n \<notin> set acc1" by blast
  then show ?case
  proof cases
    case 1
    with e show ?thesis by blast
  next
    case 2
    with 3(2)[OF e v] 3(6) show ?thesis by simp
  next
    case 3
    with "3.IH"(2)[OF s w \<open>n \<in> set acc'\<close>] show ?thesis by blast
  qed
qed

lemma visit_error:
  "visit cs acc = Inl e \<Longrightarrow> \<exists>n. n \<in> succs\<^sup>* `` (key ` set cs) \<and> expand n = Inl e"
proof (induction cs acc rule: visit_induct_aux)
  case (1 acc)
  then show ?case by (simp add: visit_Nil)
next
  case (2 c cs acc)
  then have "visit cs acc = Inl e" by (simp add: visit_Cons)
  from 2(2)[OF this] show ?case by auto
next
  case (3 c cs acc)
  from 3(1,4) consider "expand (key c) = Inl e"
    | ds where "expand (key c) = Inr ds" "visit ds (acc @ [key c]) = Inl e"
    | ds acc1 where "expand (key c) = Inr ds" "visit ds (acc @ [key c]) = Inr acc1" "visit cs acc1 = Inl e"
    by (auto simp: visit_Cons rbind_eq_Inl)
  then show ?case
  proof cases
    case 1
    then show ?thesis by auto
  next
    case (2 ds)
    from "3.IH"(1)[OF this] obtain d n where "d \<in> set ds" "(key d, n) \<in> succs\<^sup>*" "expand n = Inl e"
      by auto
    moreover from this 2(1) have "(key c, key d) \<in> succs" by (auto simp: succs_def)
    ultimately have "(key c, n) \<in> succs\<^sup>*" by (meson converse_rtrancl_into_rtrancl)
    with \<open>expand n = Inl e\<close> show ?thesis by auto
  next
    case (3 ds acc1)
    from visit_mono[OF 3(2)] have "insert (key c) (set acc) \<subseteq> set acc1" by auto
    from "3.IH"(2)[OF this 3(3)] show ?thesis by auto
  qed
qed

end

end
