(* ===== verification/Workflow_Model.thy ===== *)
theory Workflow_Model
  imports JS_Prelude
begin

text \<open>
  The data of a workflow as \<^verbatim>\<open>packages/workflow/src/interfaces.ts\<close> declares it: nodes,
  connection types, the nested \<open>IConnections\<close> object, items, run data and pin data.

  \<^bold>\<open>Object identity.\<close>  The code compares nodes with \<open>===\<close>, that is by reference.  A node
  record carries its reference in \<open>node_ref\<close>; equal records stand for the same object, and two
  objects with the same contents differ in \<open>node_ref\<close>.  Fields no modelled function reads
  (notes, credentials and the like) are left out.

  \<^bold>\<open>Enumeration order.\<close>  An object used as a dictionary is the list of its entries in the order
  \<open>Object.keys\<close> enumerates them.
\<close>

section \<open>Connection types\<close>

datatype NodeConnectionType =
    AiAgent | AiChain | AiDocument | AiEmbedding | AiLanguageModel | AiMemory | AiOutputParser
  | AiRetriever | AiReranker | AiTextSplitter | AiTool | AiVectorStore | Main

fun conn_type_string :: "NodeConnectionType \<Rightarrow> string" where
  "conn_type_string AiAgent = ''ai_agent''"
| "conn_type_string AiChain = ''ai_chain''"
| "conn_type_string AiDocument = ''ai_document''"
| "conn_type_string AiEmbedding = ''ai_embedding''"
| "conn_type_string AiLanguageModel = ''ai_languageModel''"
| "conn_type_string AiMemory = ''ai_memory''"
| "conn_type_string AiOutputParser = ''ai_outputParser''"
| "conn_type_string AiRetriever = ''ai_retriever''"
| "conn_type_string AiReranker = ''ai_reranker''"
| "conn_type_string AiTextSplitter = ''ai_textSplitter''"
| "conn_type_string AiTool = ''ai_tool''"
| "conn_type_string AiVectorStore = ''ai_vectorStore''"
| "conn_type_string Main = ''main''"

lemma conn_type_string_inject [simp]: "conn_type_string t = conn_type_string u \<longleftrightarrow> t = u"
  by (cases t; cases u) simp_all

lemma conn_type_string_no_dash [simp]: "CHR ''-'' \<notin> set (conn_type_string t)"
  by (cases t) simp_all

section \<open>Nodes and connections\<close>

text \<open>JSON values, as item payloads and node parameters.\<close>

datatype json =
  JNull | JBool bool | JNum int | JStr string | JArr "json list" | JObj "(string \<times> json) list"

record INode =
  node_ref :: nat
  node_id :: string
  node_name :: string
  node_type :: string
  node_typeVersion :: nat
  node_disabled :: "bool option"
  node_parameters :: "(string \<times> json) list"
  node_rewireOutputLogTo :: "NodeConnectionType option"
  node_position :: "int \<times> int"
  node_onError :: "string option"
  node_continueOnFail :: "bool option"
  node_alwaysOutputData :: "bool option"
  node_executeOnce :: "bool option"
  node_retryOnFail :: "bool option"
  node_maxTries :: "int option"
  node_waitBetweenTries :: "int option"

text \<open>\<open>node.disabled\<close> in a condition: \<open>undefined\<close> is falsy.\<close>

abbreviation (input) is_disabled :: "INode \<Rightarrow> bool" where
  "is_disabled n \<equiv> node_disabled n = Some True"

record IConnection =
  conn_node :: string
  conn_type :: NodeConnectionType
  conn_index :: nat

type_synonym NodeInputConnections = "IConnection list option list"
type_synonym INodeConnections = "(NodeConnectionType, NodeInputConnections) js_map"
type_synonym IConnections = "(string, INodeConnections) js_map"

section \<open>Items, run data and pin data\<close>

record ISourceData =
  previousNode :: string
  previousNodeOutput :: nat
  previousNodeRun :: nat

record IPairedItemData =
  pair_item :: nat
  pair_input :: "nat option"
  pair_sourceOverwrite :: "ISourceData option"

datatype paired_item = PairedTo IPairedItemData | PairedAll "IPairedItemData list" | PairedIndex nat

text \<open>The error of an item is represented by its properties, as an object.\<close>

record INodeExecutionData =
  item_json :: "(string \<times> json) list"
  item_pairedItem :: "paired_item option"
  item_error :: "json option"

type_synonym ITaskDataConnections = "(NodeConnectionType, INodeExecutionData list option list) js_map"
type_synonym ITaskDataConnectionsSource = "(NodeConnectionType, ISourceData option list) js_map"

datatype ExecutionStatus =
  Canceled | Crashed | ErrorStatus | New | Running | Success | Unknown | Waiting

definition isTerminalExecutionStatus :: "ExecutionStatus \<Rightarrow> bool" where
  "isTerminalExecutionStatus status =
     (status = Canceled \<or> status = Crashed \<or> status = ErrorStatus \<or> status = Success)"

text \<open>An error as the engine keeps it: a copy of its own enumerable properties, of which \<open>name\<close> may be
  missing, and its message.\<close>

record ExecutionError =
  error_name :: "string option"
  error_message :: string

text \<open>What a node asks the engine to run for it; of the metadata of an action, what the engine reads.\<close>

record EngineAction =
  action_nodeName :: string
  action_input :: "(string \<times> json) list"
  action_type :: NodeConnectionType
  action_id :: string
  action_parentNodeName :: "string option"
  action_itemIndex :: "nat option"

record EngineRequest =
  request_actions :: "EngineAction list"
  request_metadata :: json

record SubNodeExecutionDataAction =
  sub_action :: EngineAction
  sub_nodeName :: string
  sub_runIndex :: nat

text \<open>Of the metadata of an execution, what the engine reads.  A missing flag is a false one.\<close>

record ITaskMetadata =
  meta_preserveSourceOverwrite :: bool
  meta_preservedSourceOverwrite :: "ISourceData option"
  meta_resumeError :: "ExecutionError option"
  meta_nodeWasResumed :: bool
  meta_subNodeExecutionData :: "(SubNodeExecutionDataAction list \<times> json) option"

record ITaskData =
  task_executionIndex :: "nat option"
  task_source :: "ISourceData option list"
  task_data :: "ITaskDataConnections option"
  task_error :: "ExecutionError option"
  task_executionStatus :: "ExecutionStatus option"
  task_inputOverride :: "ITaskDataConnections option"
  task_metadata :: "ITaskMetadata option"

type_synonym IRunData = "(string, ITaskData list) js_map"
type_synonym IPinData = "(string, INodeExecutionData list) js_map"

section \<open>Sample data\<close>

text \<open>A node, a connection and an item for the concrete instances of the theorems.\<close>

definition sample_node :: "nat \<Rightarrow> string \<Rightarrow> INode" where
  "sample_node r name =
     \<lparr>node_ref = r, node_id = name, node_name = name, node_type = ''n8n-nodes-base.set'',
      node_typeVersion = 1, node_disabled = None, node_parameters = [],
      node_rewireOutputLogTo = None, node_position = (0, 0), node_onError = None,
      node_continueOnFail = None, node_alwaysOutputData = None, node_executeOnce = None,
      node_retryOnFail = None, node_maxTries = None, node_waitBetweenTries = None\<rparr>"

definition sample_item :: INodeExecutionData where
  "sample_item = \<lparr>item_json = [(''value'', JNum 1)], item_pairedItem = None, item_error = None\<rparr>"

definition sample_task :: "INodeExecutionData list \<Rightarrow> ITaskData" where
  "sample_task items =
     \<lparr>task_executionIndex = Some 0, task_source = [], task_data = Some [(Main, [Some items])],
      task_error = None, task_executionStatus = Some Success, task_inputOverride = None, task_metadata = None\<rparr>"

end
