(* ===== verification/Workflow_Connections.thy ===== *)
theory Workflow_Connections
  imports Workflow_Model
begin

text \<open>
  Connections of a workflow and the searches over them, from
  \<open>packages/workflow/src/common\<close> and the class \<open>Workflow\<close>
  (\<open>packages/workflow/src/workflow.ts\<close>): inverting the connection map and the nodes connected
  with a node.  The theorems relate them to the relation the connections span: the inverse map has
  every connection exactly once, and the search returns exactly the reachable nodes.

  Dictionaries are read through their own keys; names of properties every object inherits
  (\<open>constructor\<close>, \<open>toString\<close> and the like) are not node names, which
  \<open>renameNode\<close> enforces.
\<close>

section \<open>Definitions\<close>

subsection \<open>Connections in order\<close>

text \<open>
  One connection with where it starts: source node, type and output index, in the order in which
  the loops over an \<open>IConnections\<close> object meet them.
\<close>

type_synonym placed_connection = "(string \<times> NodeConnectionType \<times> nat) \<times> IConnection"

definition slot_connections ::
  "string \<Rightarrow> NodeConnectionType \<Rightarrow> NodeInputConnections \<Rightarrow> placed_connection list" where
  "slot_connections src type slots =
    concat (map (\<lambda>(i, slot). map (Pair (src, type, i)) (case slot of None \<Rightarrow> [] | Some cs \<Rightarrow> cs))
      (enumerate 0 slots))"

definition node_connections :: "string \<Rightarrow> INodeConnections \<Rightarrow> placed_connection list" where
  "node_connections src conns = concat (map (\<lambda>(type, slots). slot_connections src type slots) conns)"

definition all_connections :: "IConnections \<Rightarrow> placed_connection list" where
  "all_connections connections = concat (map (\<lambda>(src, conns). node_connections src conns) connections)"

subsection \<open>Inverting the connections\<close>

definition source_connection :: "string \<times> NodeConnectionType \<times> nat \<Rightarrow> IConnection" where
  "source_connection p = \<lparr>conn_node = fst p, conn_type = fst (snd p), conn_index = snd (snd p)\<rparr>"

definition own_or :: "'v \<Rightarrow> ('k, 'v) js_map \<Rightarrow> 'k \<Rightarrow> 'v" where
  "own_or d m k = (case map_get m k of None \<Rightarrow> d | Some v \<Rightarrow> v)"

text \<open>The body of the innermost loop: pad the array of the input up to the index, then push.\<close>

definition pad_slots :: "nat \<Rightarrow> NodeInputConnections \<Rightarrow> NodeInputConnections" where
  "pad_slots i slots = slots @ replicate (Suc i - length slots) (Some [])"

definition push_slot :: "nat \<Rightarrow> IConnection \<Rightarrow> NodeInputConnections \<Rightarrow> NodeInputConnections" where
  "push_slot i c slots =
    (let padded = pad_slots i slots in padded[i := map_option (\<lambda>cs. cs @ [c]) (padded ! i)])"

definition add_destination :: "placed_connection \<Rightarrow> IConnections \<Rightarrow> IConnections" where
  "add_destination pc ret =
    (let info = snd pc;
         conns = own_or [] ret (conn_node info);
         slots = own_or [] conns (conn_type info)
     in map_set (conn_node info)
          (map_set (conn_type info) (push_slot (conn_index info) (source_connection (fst pc)) slots) conns) ret)"

definition mapConnectionsByDestination :: "IConnections \<Rightarrow> IConnections" where
  "mapConnectionsByDestination connections = fold add_destination (all_connections connections) []"

subsection \<open>Connected nodes\<close>

datatype connection_filter = OfType NodeConnectionType | AllTypes | AllNonMain

definition filter_types :: "connection_filter \<Rightarrow> INodeConnections \<Rightarrow> NodeConnectionType list" where
  "filter_types f conns = (case f of
      OfType t \<Rightarrow> [t]
    | AllTypes \<Rightarrow> map_keys conns
    | AllNonMain \<Rightarrow> filter (\<lambda>t. t \<noteq> Main) (map_keys conns))"

text \<open>The connections of a node that \<open>getConnectedNodes\<close> follows, in its order.\<close>

definition followed :: "connection_filter \<Rightarrow> INodeConnections \<Rightarrow> IConnection list" where
  "followed f conns = concat (map (\<lambda>t. concat (map (\<lambda>slot. case slot of None \<Rightarrow> [] | Some cs \<Rightarrow> cs)
      (own_or [] conns t))) (filter_types f conns))"

definition unshift_unique :: "'a \<Rightarrow> 'a list \<Rightarrow> 'a list" where
  "unshift_unique x xs = x # remove1 x xs"

definition step_depth :: "int \<Rightarrow> int" where
  "step_depth depth = (if depth = -1 then depth else depth - 1)"

text \<open>
  Every type starts from its own copy of the checked nodes, so the copies are equal and the
  connections of all types can be followed one after the other.
\<close>

function getConnectedNodes ::
  "IConnections \<Rightarrow> string \<Rightarrow> connection_filter \<Rightarrow> int \<Rightarrow> string list \<Rightarrow> string list" where
  "getConnectedNodes connections nodeName f depth checked =
    (if depth = 0 then []
     else (case map_get connections nodeName of
         None \<Rightarrow> []
       | Some conns \<Rightarrow>
           if nodeName \<in> set checked then []
           else fold (\<lambda>c ret.
               if conn_node c \<in> set (checked @ [nodeName]) then ret
               else foldr unshift_unique
                 (getConnectedNodes connections (conn_node c) f (step_depth depth) (checked @ [nodeName]))
                 (unshift_unique (conn_node c) ret))
             (followed f conns) []))"
  by pat_completeness auto

termination getConnectedNodes
proof (relation "measure (\<lambda>(connections, nodeName, f, depth, checked).
    card (fst ` set connections - set checked))", goal_cases)
  case (2 connections nodeName f depth checked conns c ret)
  then have "nodeName \<in> fst ` set connections - set checked"
    using map_of_SomeD by force
  then have "fst ` set connections - set (checked @ [nodeName]) \<subset> fst ` set connections - set checked"
    by auto
  then show ?case
    by (simp add: psubset_card_mono)
qed simp

declare getConnectedNodes.simps [simp del]

definition getChildNodes :: "IConnections \<Rightarrow> string \<Rightarrow> connection_filter \<Rightarrow> int \<Rightarrow> string list" where
  "getChildNodes bySource nodeName f depth = getConnectedNodes bySource nodeName f depth []"

definition getParentNodes :: "IConnections \<Rightarrow> string \<Rightarrow> connection_filter \<Rightarrow> int \<Rightarrow> string list" where
  "getParentNodes byDestination nodeName f depth = getConnectedNodes byDestination nodeName f depth []"

section \<open>The inverse map\<close>

text \<open>The connections stored at one place: node, type and index.\<close>

definition slot_at :: "NodeInputConnections \<Rightarrow> nat \<Rightarrow> IConnection list" where
  "slot_at slots i =
    (if i < length slots then (case slots ! i of None \<Rightarrow> [] | Some cs \<Rightarrow> cs) else [])"

definition stored :: "IConnections \<Rightarrow> string \<times> NodeConnectionType \<times> nat \<Rightarrow> IConnection list" where
  "stored connections p =
    slot_at (own_or [] (own_or [] connections (fst p)) (fst (snd p))) (snd (snd p))"

definition place_of :: "IConnection \<Rightarrow> string \<times> NodeConnectionType \<times> nat" where
  "place_of c = (conn_node c, conn_type c, conn_index c)"

lemma source_place [simp]: "source_connection (place_of c) = c" "place_of (source_connection p) = p"
  by (simp_all add: source_connection_def place_of_def)

lemma source_connection_eq_iff [simp]: "source_connection p = c \<longleftrightarrow> p = place_of c"
  by (metis source_place)

definition no_holes :: "IConnections \<Rightarrow> bool" where
  "no_holes connections = (\<forall>n t. None \<notin> set (own_or [] (own_or [] connections n) t))"

lemma own_or_set [simp]: "own_or d (map_set k v m) k' = (if k' = k then v else own_or d m k')"
  by (simp add: own_or_def)

lemma length_pad_slots: "length (pad_slots i slots) = max (length slots) (Suc i)"
  by (simp add: pad_slots_def)

lemma nth_pad_slots:
  "j < length (pad_slots i slots) \<Longrightarrow> pad_slots i slots ! j = (if j < length slots then slots ! j else Some [])"
  by (auto simp: pad_slots_def nth_append)

lemma push_slot_holes: "None \<notin> set slots \<Longrightarrow> None \<notin> set (push_slot i c slots)"
proof -
  assume "None \<notin> set slots"
  then have *: "None \<notin> set (pad_slots i slots)"
    by (auto simp: pad_slots_def)
  have "pad_slots i slots ! i \<in> set (pad_slots i slots)"
    by (simp add: length_pad_slots)
  with * show ?thesis
    by (auto simp: push_slot_def Let_def dest!: set_update_subset_insert [THEN subsetD])
qed

lemma no_holes_add: "no_holes ret \<Longrightarrow> no_holes (add_destination pc ret)"
  by (auto simp: no_holes_def add_destination_def Let_def push_slot_holes)

lemma stored_push:
  assumes "None \<notin> set slots"
  shows "slot_at (push_slot i c slots) j = slot_at slots j @ (if j = i then [c] else [])"
proof -
  have "slots ! j \<noteq> None" if "j < length slots" for j
    using assms that by (metis nth_mem)
  from this [of i] show ?thesis
    by (auto simp: slot_at_def push_slot_def Let_def length_pad_slots nth_pad_slots nth_list_update)
qed

lemma stored_add:
  assumes "no_holes ret"
  shows "stored (add_destination pc ret) p = stored ret p @ (if place_of (snd pc) = p then [source_connection (fst pc)] else [])"
proof -
  have "None \<notin> set (own_or [] (own_or [] ret n) t)" for n t
    using assms by (simp add: no_holes_def)
  note push = stored_push [OF this]
  show ?thesis
    by (cases p) (auto simp: stored_def add_destination_def Let_def place_of_def push own_or_def [of "[]" "[]"])
qed

lemma stored_fold:
  "no_holes ret \<Longrightarrow> stored (fold add_destination pcs ret) p =
    stored ret p @ map (source_connection \<circ> fst) (filter (\<lambda>pc. place_of (snd pc) = p) pcs)"
  by (induction pcs arbitrary: ret) (simp_all add: no_holes_add stored_add)

lemma stored_inverse:
  "stored (mapConnectionsByDestination connections) p =
    map (source_connection \<circ> fst) (filter (\<lambda>pc. place_of (snd pc) = p) (all_connections connections))"
proof -
  have "no_holes []" "stored [] p = []"
    by (simp_all add: no_holes_def own_or_def stored_def slot_at_def)
  then show ?thesis
    by (simp add: mapConnectionsByDestination_def stored_fold)
qed

subsection \<open>Inverting twice\<close>

definition connections_wf :: "IConnections \<Rightarrow> bool" where
  "connections_wf connections = (map_wf connections \<and> (\<forall>(src, conns)\<in>set connections. map_wf conns))"

lemma connections_wf_add: "connections_wf ret \<Longrightarrow> connections_wf (add_destination pc ret)"
proof -
  assume wf: "connections_wf ret"
  have "map_wf (own_or [] ret n)" for n
    using wf by (auto simp: connections_wf_def own_or_def split: option.splits dest: map_of_SomeD)
  with wf show ?thesis
    by (auto simp: connections_wf_def add_destination_def Let_def set_map_set distinct_update)
qed

lemma connections_wf_inverse: "connections_wf (mapConnectionsByDestination connections)"
proof -
  have "connections_wf (fold add_destination pcs ret)" if "connections_wf ret" for pcs ret
    using that by (induction pcs arbitrary: ret) (simp_all add: connections_wf_add)
  moreover have "connections_wf []"
    by (simp add: connections_wf_def)
  ultimately show ?thesis
    by (simp add: mapConnectionsByDestination_def)
qed

lemma filter_concat_key:
  assumes "distinct (map key xs)" "x \<in> set xs" "\<And>y z. y \<in> set xs \<Longrightarrow> z \<in> set (f y) \<Longrightarrow> P z \<Longrightarrow> key y = key x"
  shows "filter P (concat (map f xs)) = filter P (f x)"
  using assms
proof (induction xs)
  case (Cons y ys)
  have none: "filter P (concat (map f zs)) = []"
    if "\<And>z. z \<in> set zs \<Longrightarrow> z \<in> set (y # ys) \<and> key z \<noteq> key x" for zs
    using that Cons.prems(3) by (fastforce simp: filter_empty_conv)
  show ?case
  proof (cases "y = x")
    case True
    with Cons.prems(1) have "filter P (concat (map f ys)) = []"
      by (intro none) (auto simp: image_iff)
    with True show ?thesis
      by simp
  next
    case False
    with Cons.prems(1,2) have "key y \<noteq> key x" and x: "x \<in> set ys"
      by auto
    then have "filter P (f y) = []"
      using Cons.prems(3) by (auto simp: filter_empty_conv)
    moreover have "filter P (concat (map f ys)) = filter P (f x)"
      using Cons.IH Cons.prems x by simp
    ultimately show ?thesis
      by simp
  qed
qed simp

lemma filter_concat_none:
  "(\<And>y z. y \<in> set xs \<Longrightarrow> z \<in> set (f y) \<Longrightarrow> \<not> P z) \<Longrightarrow> filter P (concat (map f xs)) = []"
  by (auto simp: filter_empty_conv)

lemma slot_connections_place:
  "pc \<in> set (slot_connections src type slots) \<Longrightarrow> fst (fst pc) = src \<and> fst (snd (fst pc)) = type"
  by (auto simp: slot_connections_def)

lemma node_connections_place: "pc \<in> set (node_connections src conns) \<Longrightarrow> fst (fst pc) = src"
  by (auto simp: node_connections_def dest: slot_connections_place)

lemma filter_slot_connections:
  "filter (\<lambda>pc. fst pc = (src, type, i)) (slot_connections src type slots) =
    map (Pair (src, type, i)) (slot_at slots i)"
proof (cases "i < length slots")
  case True
  let ?f = "\<lambda>(i, slot). map (Pair (src, type, i)) (case slot of None \<Rightarrow> [] | Some cs \<Rightarrow> cs)"
  have "filter (\<lambda>pc. fst pc = (src, type, i)) (concat (map ?f (enumerate 0 slots))) =
      filter (\<lambda>pc. fst pc = (src, type, i)) (?f (i, slots ! i))"
  proof (rule filter_concat_key [where key = fst])
    show "distinct (map fst (enumerate 0 slots))"
      by simp
    show "(i, slots ! i) \<in> set (enumerate 0 slots)"
      using True by (simp add: in_set_enumerate_eq)
  qed (auto split: option.splits)
  then show ?thesis
    using True by (auto simp: slot_connections_def slot_at_def filter_id_conv split: option.splits)
next
  case False
  then have "filter (\<lambda>pc. fst pc = (src, type, i)) (slot_connections src type slots) = []"
    unfolding slot_connections_def by (intro filter_concat_none) (auto simp: in_set_enumerate_eq)
  with False show ?thesis
    by (simp add: slot_at_def)
qed

lemma filter_node_connections:
  assumes "map_wf conns"
  shows "filter (\<lambda>pc. fst pc = (src, type, i)) (node_connections src conns) =
    map (Pair (src, type, i)) (slot_at (own_or [] conns type) i)"
proof (cases "map_get conns type")
  case (Some slots)
  have "filter (\<lambda>pc. fst pc = (src, type, i)) (node_connections src conns) =
      filter (\<lambda>pc. fst pc = (src, type, i)) ((\<lambda>(t, s). slot_connections src t s) (type, slots))"
    unfolding node_connections_def
  proof (rule filter_concat_key [where key = fst])
    show "distinct (map fst conns)"
      by (rule assms)
    show "(type, slots) \<in> set conns"
      using Some by (rule map_of_SomeD)
  qed (auto dest: slot_connections_place)
  then show ?thesis
    using Some by (simp add: filter_slot_connections own_or_def)
next
  case None
  then have "filter (\<lambda>pc. fst pc = (src, type, i)) (node_connections src conns) = []"
    unfolding node_connections_def
  proof (intro filter_concat_none notI)
    fix e pc
    assume e: "e \<in> set conns" and pc: "pc \<in> set ((\<lambda>(t, s). slot_connections src t s) e)"
      "fst pc = (src, type, i)"
    have "fst e = type"
      using pc slot_connections_place [of pc src "fst e" "snd e"] by (simp add: split_beta)
    with e have "type \<in> fst ` set conns"
      by blast
    with None show False
      by (simp add: map_of_eq_None_iff)
  qed
  with None show ?thesis
    by (simp add: own_or_def slot_at_def)
qed

lemma filter_all_connections:
  assumes "connections_wf connections"
  shows "filter (\<lambda>pc. fst pc = p) (all_connections connections) = map (Pair p) (stored connections p)"
proof (cases "map_get connections (fst p)")
  case (Some conns)
  have "filter (\<lambda>pc. fst pc = p) (all_connections connections) =
      filter (\<lambda>pc. fst pc = p) ((\<lambda>(s, c). node_connections s c) (fst p, conns))"
    unfolding all_connections_def
  proof (rule filter_concat_key [where key = fst])
    show "distinct (map fst connections)"
      using assms by (simp add: connections_wf_def)
    show "(fst p, conns) \<in> set connections"
      using Some by (rule map_of_SomeD)
  qed (auto dest: node_connections_place)
  moreover have "map_wf conns"
    using assms Some by (auto simp: connections_wf_def dest: map_of_SomeD)
  ultimately show ?thesis
    using Some filter_node_connections [of conns "fst p" "fst (snd p)" "snd (snd p)"]
    by (simp add: stored_def own_or_def [of "[]" connections])
next
  case None
  then have "filter (\<lambda>pc. fst pc = p) (all_connections connections) = []"
    unfolding all_connections_def
  proof (intro filter_concat_none notI)
    fix e pc
    assume e: "e \<in> set connections" and pc: "pc \<in> set ((\<lambda>(s, c). node_connections s c) e)" "fst pc = p"
    have "fst e = fst p"
      using pc node_connections_place [of pc "fst e" "snd e"] by (simp add: split_beta)
    with e have "fst p \<in> fst ` set connections"
      by (metis imageI)
    with None show False
      by (simp add: map_of_eq_None_iff)
  qed
  with None show ?thesis
    by (simp add: own_or_def stored_def slot_at_def)
qed

lemma count_stored:
  assumes "connections_wf connections"
  shows "count (mset (stored connections p)) c = count (mset (all_connections connections)) (p, c)"
proof -
  have "count (mset (map (Pair p) cs)) (p, c) = count (mset cs) c" for cs :: "IConnection list"
    by (induction cs) auto
  then have "count (mset (stored connections p)) c = count (mset (map (Pair p) (stored connections p))) (p, c)"
    by metis
  also have "\<dots> = count (mset (all_connections connections)) (p, c)"
    by (simp flip: filter_all_connections [OF assms])
  finally show ?thesis .
qed

lemma count_inverse:
  "count (mset (stored (mapConnectionsByDestination connections) p)) c =
    count (mset (all_connections connections)) (place_of c, source_connection p)"
proof -
  have "count (mset (map (source_connection \<circ> fst) (filter (\<lambda>pc. place_of (snd pc) = p) pcs))) c =
      count (mset pcs) (place_of c, source_connection p)" for pcs :: "placed_connection list"
    by (induction pcs) auto
  then show ?thesis
    by (simp add: stored_inverse)
qed

text \<open>\<^bold>\<open>C39.\<close> 
  The inverse map holds, at the place a connection points to, exactly the places it comes from, as
  often and in the order in which the loops over the connections meet them; inverting it again
  gives every place its connections back, up to their order.
\<close>

theorem mapConnectionsByDestination_roundtrip:
  assumes "connections_wf connections"
  shows "stored (mapConnectionsByDestination connections) p =
      map (source_connection \<circ> fst) (filter (\<lambda>pc. place_of (snd pc) = p) (all_connections connections)) \<and>
    mset (stored (mapConnectionsByDestination (mapConnectionsByDestination connections)) p) =
      mset (stored connections p)"
proof
  show "stored (mapConnectionsByDestination connections) p =
      map (source_connection \<circ> fst) (filter (\<lambda>pc. place_of (snd pc) = p) (all_connections connections))"
    by (rule stored_inverse)
  show "mset (stored (mapConnectionsByDestination (mapConnectionsByDestination connections)) p) =
      mset (stored connections p)"
    by (rule multiset_eqI) (simp add: count_inverse count_stored [OF assms]
        flip: count_stored [OF connections_wf_inverse])
qed

definition sample_connections :: IConnections where
  "sample_connections =
    [(''a'', [(Main, [Some [\<lparr>conn_node = ''b'', conn_type = Main, conn_index = 1\<rparr>,
                          \<lparr>conn_node = ''c'', conn_type = Main, conn_index = 0\<rparr>]])]),
     (''b'', [(Main, [None, Some [\<lparr>conn_node = ''c'', conn_type = Main, conn_index = 0\<rparr>]])])]"

theorem mapConnectionsByDestination_roundtrip_witness:
  "stored (mapConnectionsByDestination sample_connections) (''c'', Main, 0) =
     [\<lparr>conn_node = ''a'', conn_type = Main, conn_index = 0\<rparr>, \<lparr>conn_node = ''b'', conn_type = Main, conn_index = 1\<rparr>] \<and>
   mset (stored (mapConnectionsByDestination (mapConnectionsByDestination sample_connections)) (''a'', Main, 0)) =
     mset (stored sample_connections (''a'', Main, 0))"
proof -
  have "connections_wf sample_connections"
    by (simp add: connections_wf_def sample_connections_def)
  from mapConnectionsByDestination_roundtrip [OF this, of "(''c'', Main, 0)"]
    mapConnectionsByDestination_roundtrip [OF this, of "(''a'', Main, 0)"]
  show ?thesis
    by (simp add: sample_connections_def all_connections_def node_connections_def slot_connections_def
        place_of_def source_connection_def)
qed

section \<open>Connected nodes\<close>

definition conn_edges :: "IConnections \<Rightarrow> connection_filter \<Rightarrow> (string \<times> string) set" where
  "conn_edges connections f =
    {(a, b). \<exists>conns. map_get connections a = Some conns \<and> b \<in> conn_node ` set (followed f conns)}"

lemma sample_edges: "conn_edges sample_connections (OfType Main) = {(''a'', ''b''), (''a'', ''c''), (''b'', ''c'')}"
proof -
  have "followed (OfType Main) [(Main, slots)] =
      concat (map (\<lambda>slot. case slot of None \<Rightarrow> [] | Some cs \<Rightarrow> cs) slots)" for slots
    by (simp add: followed_def filter_types_def own_or_def)
  then show ?thesis
    unfolding conn_edges_def sample_connections_def by (auto split: if_splits)
qed

lemma set_unshift_unique [simp]: "set (unshift_unique x xs) = insert x (set xs)"
  by (induction xs) (auto simp: unshift_unique_def)

lemma distinct_unshift_unique [simp]: "distinct xs \<Longrightarrow> distinct (unshift_unique x xs)"
  by (simp add: unshift_unique_def)

lemma set_foldr_unshift [simp]: "set (foldr unshift_unique ys xs) = set ys \<union> set xs"
  by (induction ys) auto

lemma distinct_foldr_unshift [simp]: "distinct xs \<Longrightarrow> distinct (foldr unshift_unique ys xs)"
  by (induction ys) auto

lemma set_fold_connected:
  "set (fold (\<lambda>c ret. if P c then ret else foldr unshift_unique (g c) (unshift_unique (h c) ret)) cs acc) =
    set acc \<union> (\<Union>c\<in>{c \<in> set cs. \<not> P c}. insert (h c) (set (g c)))"
  by (induction cs arbitrary: acc) auto

lemma distinct_fold_connected:
  "distinct acc \<Longrightarrow> distinct (fold (\<lambda>c ret. if P c then ret
    else foldr unshift_unique (g c) (unshift_unique (h c) ret)) cs acc)"
  by (induction cs arbitrary: acc) auto

text \<open>The set of connected nodes, one level unfolded.\<close>

lemma getConnectedNodes_set:
  assumes "depth \<noteq> 0" "nodeName \<notin> set checked"
  shows "set (getConnectedNodes connections nodeName f depth checked) =
    (\<Union>b\<in>{b. (nodeName, b) \<in> conn_edges connections f \<and> b \<notin> set (checked @ [nodeName])}.
      insert b (set (getConnectedNodes connections b f (step_depth depth) (checked @ [nodeName]))))"
proof (cases "map_get connections nodeName")
  case (Some conns)
  have "set (getConnectedNodes connections nodeName f depth checked) =
    (\<Union>c\<in>{c \<in> set (followed f conns). conn_node c \<notin> set (checked @ [nodeName])}.
      insert (conn_node c) (set (getConnectedNodes connections (conn_node c) f (step_depth depth) (checked @ [nodeName]))))"
    using assms Some
    by (subst getConnectedNodes.simps) (simp add: set_fold_connected)
  moreover have "{b. (nodeName, b) \<in> conn_edges connections f} = conn_node ` set (followed f conns)"
    using Some by (auto simp: conn_edges_def)
  ultimately show ?thesis
    by auto
next
  case None
  then show ?thesis
    by (subst getConnectedNodes.simps) (simp add: conn_edges_def)
qed

lemma getConnectedNodes_distinct: "distinct (getConnectedNodes connections nodeName f depth checked)"
  by (subst getConnectedNodes.simps) (auto intro: distinct_fold_connected split: option.split)

lemma getConnectedNodes_none:
  "depth = 0 \<or> nodeName \<in> set checked \<Longrightarrow> getConnectedNodes connections nodeName f depth checked = []"
  by (subst getConnectedNodes.simps) (auto split: option.split)

lemma getConnectedNodes_sound:
  assumes "y \<in> set (getConnectedNodes connections nodeName f depth checked)" "-1 \<le> depth"
  shows "\<exists>k. (nodeName, y) \<in> conn_edges connections f ^^ Suc k \<and> (depth = -1 \<or> int (Suc k) \<le> depth) \<and>
    y \<notin> set (checked @ [nodeName])"
  using assms
proof (induction connections nodeName f depth checked arbitrary: y rule: getConnectedNodes.induct)
  case (1 connections nodeName f depth checked)
  let ?E = "conn_edges connections f"
  have d: "depth \<noteq> 0" "nodeName \<notin> set checked"
    using 1(2) getConnectedNodes_none by force+
  obtain b where b: "(nodeName, b) \<in> ?E" "b \<notin> set (checked @ [nodeName])"
    "y = b \<or> y \<in> set (getConnectedNodes connections b f (step_depth depth) (checked @ [nodeName]))"
    using 1(2) unfolding getConnectedNodes_set [OF d] by blast
  show ?case
  proof (cases "y = b")
    case True
    have "(nodeName, y) \<in> ?E ^^ Suc 0"
      using True b(1) by simp
    moreover have "depth = -1 \<or> int (Suc 0) \<le> depth"
      using d(1) 1(3) by auto
    ultimately show ?thesis
      using b(2) True by blast
  next
    case False
    then have y: "y \<in> set (getConnectedNodes connections b f (step_depth depth) (checked @ [nodeName]))"
      using b(3) by blast
    obtain conns c where c: "map_get connections nodeName = Some conns" "c \<in> set (followed f conns)" "b = conn_node c"
      using b(1) by (auto simp: conn_edges_def)
    have "\<exists>k. (b, y) \<in> ?E ^^ Suc k \<and> (step_depth depth = -1 \<or> int (Suc k) \<le> step_depth depth) \<and>
        y \<notin> set ((checked @ [nodeName]) @ [b])"
      using 1(1) [OF d(1) c(1) d(2) c(2)] b(2) y 1(3) d(1) unfolding c(3) by (simp add: step_depth_def)
    then obtain k where k: "(b, y) \<in> ?E ^^ Suc k" "step_depth depth = -1 \<or> int (Suc k) \<le> step_depth depth"
      "y \<notin> set (checked @ [nodeName])"
      by auto
    have "(nodeName, y) \<in> ?E ^^ Suc (Suc k)"
      using b(1) k(1) by (rule relpow_Suc_I2)
    moreover have "depth = -1 \<or> int (Suc (Suc k)) \<le> depth"
      using k(2) d(1) 1(3) by (auto simp: step_depth_def split: if_splits)
    ultimately show ?thesis
      using k(3) by blast
  qed
qed

lemma getConnectedNodes_path:
  assumes "successively (\<lambda>a b. (a, b) \<in> conn_edges connections f) (nodeName # xs)" "distinct (nodeName # xs)"
    "set (nodeName # xs) \<inter> set checked = {}" "xs \<noteq> []" "depth = -1 \<or> int (length xs) \<le> depth"
  shows "last xs \<in> set (getConnectedNodes connections nodeName f depth checked)"
  using assms
proof (induction xs arbitrary: nodeName depth checked)
  case (Cons b xs)
  have d: "depth \<noteq> 0" "nodeName \<notin> set checked"
    using Cons.prems by auto
  have b: "(nodeName, b) \<in> conn_edges connections f" "b \<notin> set (checked @ [nodeName])"
    using Cons.prems by auto
  show ?case
  proof (cases "xs = []")
    case True
    with b show ?thesis
      unfolding getConnectedNodes_set [OF d] by auto
  next
    case False
    have "last xs \<in> set (getConnectedNodes connections b f (step_depth depth) (checked @ [nodeName]))"
    proof (rule Cons.IH)
      show "successively (\<lambda>a b. (a, b) \<in> conn_edges connections f) (b # xs)"
        using Cons.prems(1) by (simp add: successively_Cons)
      show "step_depth depth = -1 \<or> int (length xs) \<le> step_depth depth"
        using Cons.prems(5) by (auto simp: step_depth_def)
    qed (use Cons.prems False in auto)
    with b False show ?thesis
      unfolding getConnectedNodes_set [OF d] by auto
  qed
qed simp

text \<open>A walk between different nodes can be made simple without making it longer.\<close>

lemma relpow_simple_path:
  assumes "(a, y) \<in> E ^^ k" "a \<noteq> y"
  shows "\<exists>xs. xs \<noteq> [] \<and> last xs = y \<and> length xs \<le> k \<and> distinct (a # xs) \<and>
    successively (\<lambda>a b. (a, b) \<in> E) (a # xs)"
  using assms
proof (induction k arbitrary: y)
  case (Suc k)
  obtain z where z: "(a, z) \<in> E ^^ k" "(z, y) \<in> E"
    using Suc.prems(1) by auto
  show ?case
  proof (cases "z = a")
    case True
    with z Suc.prems(2) show ?thesis
      by (intro exI [of _ "[y]"]) auto
  next
    case False
    then obtain xs where xs: "xs \<noteq> []" "last xs = z" "length xs \<le> k" "distinct (a # xs)"
      "successively (\<lambda>a b. (a, b) \<in> E) (a # xs)"
      using Suc.IH z(1) by metis
    show ?thesis
    proof (cases "y \<in> set xs")
      case True
      then obtain us vs where "xs = us @ y # vs"
        by (meson split_list)
      then have "xs = (us @ [y]) @ vs"
        by simp
      with xs show ?thesis
        by (intro exI [of _ "us @ [y]"]) (auto simp: successively_append_iff simp flip: append_Cons)
    next
      case False
      with xs z(2) Suc.prems(2) show ?thesis
        by (intro exI [of _ "xs @ [y]"]) (auto simp: successively_append_iff simp flip: append_Cons)
    qed
  qed
qed simp

lemma getConnectedNodes_reach:
  assumes "-1 \<le> depth"
  shows "set (getConnectedNodes connections nodeName f depth []) =
    {y. y \<noteq> nodeName \<and> (\<exists>k. (nodeName, y) \<in> conn_edges connections f ^^ k \<and> (depth = -1 \<or> int k \<le> depth))}"
proof -
  have "y \<in> set (getConnectedNodes connections nodeName f depth [])"
    if y: "y \<noteq> nodeName" and k: "(nodeName, y) \<in> conn_edges connections f ^^ k" "depth = -1 \<or> int k \<le> depth" for y k
  proof -
    obtain xs where xs: "xs \<noteq> []" "last xs = y" "length xs \<le> k" "distinct (nodeName # xs)"
      "successively (\<lambda>a b. (a, b) \<in> conn_edges connections f) (nodeName # xs)"
      using relpow_simple_path [OF k(1)] y by metis
    then have "last xs \<in> set (getConnectedNodes connections nodeName f depth [])"
      using k(2) by (intro getConnectedNodes_path) auto
    with xs show ?thesis
      by simp
  qed
  moreover have "y \<noteq> nodeName \<and> (\<exists>k. (nodeName, y) \<in> conn_edges connections f ^^ k \<and> (depth = -1 \<or> int k \<le> depth))"
    if y: "y \<in> set (getConnectedNodes connections nodeName f depth [])" for y
  proof -
    obtain k where "(nodeName, y) \<in> conn_edges connections f ^^ Suc k" "depth = -1 \<or> int (Suc k) \<le> depth"
      "y \<notin> set ([] @ [nodeName])"
      using getConnectedNodes_sound [OF y assms] by blast
    then show ?thesis
      by (metis append_Nil list.set_intros(1))
  qed
  ultimately show ?thesis
    by blast
qed

text \<open>The nodes connected with a node are exactly the other nodes that can be reached from it over
  connections of the requested types, within the depth if one is given, each listed once.
\<close>
theorem getConnectedNodes_correct:
  assumes "-1 \<le> depth"
  shows "distinct (getConnectedNodes connections nodeName f depth []) \<and>
    set (getConnectedNodes connections nodeName f depth []) =
      {y. y \<noteq> nodeName \<and> (\<exists>k. (nodeName, y) \<in> conn_edges connections f ^^ k \<and> (depth = -1 \<or> int k \<le> depth))}"
  using getConnectedNodes_distinct getConnectedNodes_reach [OF assms] by blast

theorem getConnectedNodes_correct_witness:
  "set (getConnectedNodes sample_connections ''a'' (OfType Main) (-1) []) = {''b'', ''c''}"
proof -
  have "(''a'', y) \<in> conn_edges sample_connections (OfType Main) ^^ k \<Longrightarrow> y \<in> {''a'', ''b'', ''c''}" for y k
    by (induction k arbitrary: y) (auto simp: sample_edges)
  moreover have "(''a'', ''b'') \<in> conn_edges sample_connections (OfType Main) ^^ 1"
    "(''a'', ''c'') \<in> conn_edges sample_connections (OfType Main) ^^ 1"
    by (simp_all add: sample_edges)
  ultimately have "{y. y \<noteq> ''a'' \<and> (\<exists>k. (''a'', y) \<in> conn_edges sample_connections (OfType Main) ^^ k)} = {''b'', ''c''}"
    by blast
  then show ?thesis
    using getConnectedNodes_correct [of "-1" sample_connections "''a''" "OfType Main"] by simp
qed

end
