(* ===== verification/Graph_Extraction.thy ===== *)
theory Graph_Extraction
  imports Workflow_Connections
begin

text \<open>
  \<^verbatim>\<open>packages/workflow/src/graph/graph-utils.ts\<close>: whether a selection of nodes can be extracted into
  a sub-workflow.  The selection has to be entered at one node and left at one node, with a path
  between the two.

  An adjacency list maps a node to the connections that leave it; the connections are objects, all
  different from each other, so that a set of them is the list of its elements.  The stack of
  \<open>hasPath\<close> is a list whose head is its top.
\<close>

section \<open>Definitions\<close>

type_synonym adjacency_list = "(string, IConnection list) js_map"

definition connections_of :: "IConnection list option list \<Rightarrow> IConnection list" where
  "connections_of slots = concat (map (\<lambda>s. case s of None \<Rightarrow> [] | Some cs \<Rightarrow> cs) slots)"

definition addOrCreate :: "string \<times> IConnection \<Rightarrow> adjacency_list \<Rightarrow> adjacency_list" where
  "addOrCreate kv result = (case kv of (k, v) \<Rightarrow> map_set k (own_or [] result k @ [v]) result)"

definition buildAdjacencyList :: "IConnections \<Rightarrow> adjacency_list" where
  "buildAdjacencyList connectionsBySourceNode =
     fold addOrCreate (concat (map (\<lambda>(sourceNode, types).
       map (Pair sourceNode) (concat (map (\<lambda>(t, slots). connections_of slots) types))) connectionsBySourceNode)) []"

definition getInputEdges :: "string js_set \<Rightarrow> adjacency_list \<Rightarrow> (string \<times> IConnection) list" where
  "getInputEdges graphIds adjacencyList =
     concat (map (\<lambda>(from, tos). if set_has graphIds from then []
       else map (Pair from) (filter (\<lambda>to. set_has graphIds (conn_node to)) tos)) adjacencyList)"

definition getOutputEdges :: "string js_set \<Rightarrow> adjacency_list \<Rightarrow> (string \<times> IConnection) list" where
  "getOutputEdges graphIds adjacencyList =
     concat (map (\<lambda>(from, tos). if \<not> set_has graphIds from then []
       else map (Pair from) (filter (\<lambda>to. \<not> set_has graphIds (conn_node to)) tos)) adjacencyList)"

definition intersection :: "'a js_set \<Rightarrow> 'a js_set \<Rightarrow> 'a js_set" where
  "intersection a b = filter (set_has b) a"

definition union_of :: "'a js_set \<Rightarrow> 'a js_set \<Rightarrow> 'a js_set" where
  "union_of a b = fold set_add b (fold set_add a [])"

definition difference :: "'a js_set \<Rightarrow> 'a js_set \<Rightarrow> 'a js_set" where
  "difference minuend subtrahend = filter (\<lambda>x. \<not> set_has subtrahend x) minuend"

text \<open>The other nodes a node leads to over main connections.\<close>

definition main_targets :: "adjacency_list \<Rightarrow> string \<Rightarrow> string js_set" where
  "main_targets adjacencyList nodeId =
     set_of_array (map conn_node (filter (\<lambda>x. conn_type x = Main \<and> conn_node x \<noteq> nodeId) (own_or [] adjacencyList nodeId)))"

definition getRootNodes :: "string js_set \<Rightarrow> adjacency_list \<Rightarrow> string js_set" where
  "getRootNodes graphIds adjacencyList =
     difference graphIds (fold (\<lambda>nodeId innerNodes. union_of innerNodes (main_targets adjacencyList nodeId)) graphIds [])"

definition getLeafNodes :: "string js_set \<Rightarrow> adjacency_list \<Rightarrow> string js_set" where
  "getLeafNodes graphIds adjacencyList =
     filter (\<lambda>nodeId. intersection (main_targets adjacencyList nodeId) graphIds = []) graphIds"

subsection \<open>Paths\<close>

definition successors :: "adjacency_list \<Rightarrow> string \<Rightarrow> string js_set" where
  "successors adjacencyList n =
     set_of_array (map conn_node (filter (\<lambda>x. conn_type x = Main) (own_or [] adjacencyList n)))"

definition known_nodes :: "adjacency_list \<Rightarrow> string set" where
  "known_nodes adjacencyList = fst ` set adjacencyList \<union> (\<Union>(k, cs)\<in>set adjacencyList. conn_node ` set cs)"

lemma finite_known_nodes [simp]: "finite (known_nodes adj)"
  by (auto simp: known_nodes_def)

lemma successors_known: "set (successors adj n) \<subseteq> known_nodes adj"
  by (cases "map_of adj n") (force simp: successors_def known_nodes_def own_or_def dest: map_of_SomeD)+

lemma successors_unknown: "n \<notin> known_nodes adj \<Longrightarrow> successors adj n = []"
  by (force simp: successors_def known_nodes_def own_or_def set_of_array_def dest: map_of_SomeD split: option.splits)

function hasPathLoop :: "string \<Rightarrow> adjacency_list \<Rightarrow> string js_set \<Rightarrow> string list \<Rightarrow> bool" where
  "hasPathLoop end' adjacencyList seen [] = False"
| "hasPathLoop end' adjacencyList seen (n # paths) =
     (if n = end' then True
      else hasPathLoop end' adjacencyList (set_add n seen)
             (rev (difference (successors adjacencyList n) (set_add n seen)) @ paths))"
  by pat_completeness auto

text \<open>A node that was seen may be taken from the stack again and push its unseen successors again; then
  the next node taken is one that was not seen.\<close>

definition unseen_top :: "adjacency_list \<Rightarrow> string list \<Rightarrow> string list \<Rightarrow> nat" where
  "unseen_top adj seen paths = (if paths \<noteq> [] \<and> hd paths \<in> known_nodes adj - set seen then 0 else 1)"

lemma hasPath_decreases:
  fixes paths :: "string list"
  assumes "n \<in> set seen \<or> n \<notin> known_nodes adj"
  defines "next_paths \<equiv> rev (difference (successors adj n) (set_add n seen)) @ paths"
  shows "card (known_nodes adj - set (set_add n seen)) = card (known_nodes adj - set seen) \<and>
    (unseen_top adj (set_add n seen) next_paths < unseen_top adj seen (n # paths) \<or>
     unseen_top adj (set_add n seen) next_paths = unseen_top adj seen (n # paths) \<and> length next_paths \<le> length paths)"
proof -
  have same: "known_nodes adj - set (set_add n seen) = known_nodes adj - set seen"
    using assms(1) by auto
  have top: "unseen_top adj seen (n # paths) = 1"
    using assms(1) by (auto simp: unseen_top_def)
  show ?thesis
  proof (cases "difference (successors adj n) (set_add n seen) = []")
    case True
    with same top show ?thesis
      by (auto simp: next_paths_def unseen_top_def)
  next
    case False
    then have "hd next_paths \<in> set (difference (successors adj n) (set_add n seen))"
      unfolding next_paths_def by (metis hd_append2 hd_in_set rev_is_Nil_conv set_rev)
    moreover from False have "next_paths \<noteq> []"
      by (simp add: next_paths_def)
    ultimately have "unseen_top adj (set_add n seen) next_paths = 0"
      using successors_known [of adj n] by (auto simp: unseen_top_def difference_def)
    with same top show ?thesis
      by simp
  qed
qed

termination hasPathLoop
proof (relation "measures [\<lambda>(t, adj, seen, paths). card (known_nodes adj - set seen),
    \<lambda>(t, adj, seen, paths). unseen_top adj seen paths, \<lambda>(t, adj, seen, paths). length paths]", goal_cases)
  case (2 t adj seen n paths)
  show ?case
  proof (cases "n \<in> set seen \<or> n \<notin> known_nodes adj")
    case True
    from hasPath_decreases [OF this, of paths] show ?thesis
      by auto
  next
    case False
    then have "card (known_nodes adj - set (set_add n seen)) < card (known_nodes adj - set seen)"
      by (intro psubset_card_mono) auto
    then show ?thesis
      by simp
  qed
qed simp

declare hasPathLoop.simps(2) [simp del]

definition hasPath :: "string \<Rightarrow> string \<Rightarrow> adjacency_list \<Rightarrow> bool" where
  "hasPath start end' adjacencyList = hasPathLoop end' adjacencyList [] [start]"

subsection \<open>The selection\<close>

record ExtractableSubgraphData =
  sg_start :: "string option"
  sg_end :: "string option"

datatype ExtractableErrorResult =
    MultipleInputNodes "string js_set"
  | MultipleOutputNodes "string js_set"
  | InputEdgeToNonRootNode string
  | OutputEdgeFromNonLeafNode string
  | NoContinuousPathFromRootToLeaf string string

definition first_of :: "'a js_set \<Rightarrow> 'a option" where
  "first_of xs = (case xs of [] \<Rightarrow> None | x # _ \<Rightarrow> Some x)"

text \<open>The nodes of the selection that main connections enter, and those that main connections leave.\<close>

definition inputNodes_of :: "string js_set \<Rightarrow> adjacency_list \<Rightarrow> string js_set" where
  "inputNodes_of graphIds adjacencyList = set_of_array (map (conn_node \<circ> snd)
     (filter (\<lambda>x. conn_type (snd x) = Main) (getInputEdges graphIds adjacencyList)))"

definition outputNodes_of :: "string js_set \<Rightarrow> adjacency_list \<Rightarrow> string js_set" where
  "outputNodes_of graphIds adjacencyList = set_of_array (map fst
     (filter (\<lambda>x. conn_type (snd x) = Main) (getOutputEdges graphIds adjacencyList)))"

text \<open>The test \<open>start && end && !hasPath(start, end)\<close>.\<close>

definition pathMissing :: "string option \<Rightarrow> string option \<Rightarrow> adjacency_list \<Rightarrow> ExtractableErrorResult list" where
  "pathMissing start end' adjacencyList =
     (case (start, end') of
        (Some s, Some t) \<Rightarrow>
          if s \<noteq> [] \<and> t \<noteq> [] \<and> \<not> hasPath s t adjacencyList then [NoContinuousPathFromRootToLeaf s t] else []
      | _ \<Rightarrow> [])"

definition parseExtractableSubgraphSelection ::
  "string js_set \<Rightarrow> adjacency_list \<Rightarrow> ExtractableErrorResult list + ExtractableSubgraphData" where
  "parseExtractableSubgraphSelection graphIds adjacencyList =
     (let inputNodes = inputNodes_of graphIds adjacencyList;
          roots = getRootNodes graphIds adjacencyList;
          rootNodes = (if roots = [] \<and> length inputNodes = 1 then inputNodes else roots);
          rootInputNodes = intersection rootNodes inputNodes;
          outputNodes = outputNodes_of graphIds adjacencyList;
          leaves = getLeafNodes graphIds adjacencyList;
          leafNodes = (if leaves = [] \<and> length outputNodes = 1 then outputNodes else leaves);
          leafOutputNodes = intersection leafNodes outputNodes;
          start = first_of rootInputNodes;
          end' = first_of leafOutputNodes;
          errors = map InputEdgeToNonRootNode (difference inputNodes rootNodes)
            @ (if length rootInputNodes > 1 then [MultipleInputNodes rootInputNodes] else [])
            @ map OutputEdgeFromNonLeafNode (difference outputNodes leafNodes)
            @ (if length leafOutputNodes > 1 then [MultipleOutputNodes leafOutputNodes] else [])
            @ pathMissing start end' adjacencyList
      in if errors \<noteq> [] then Inl errors else Inr \<lparr>sg_start = start, sg_end = end'\<rparr>)"

section \<open>Paths\<close>

definition adjacent :: "adjacency_list \<Rightarrow> (string \<times> string) set" where
  "adjacent adj = {(a, b). b \<in> set (successors adj a)}"

lemma hasPathLoop_sound:
  "hasPathLoop t adj seen paths \<Longrightarrow> \<exists>p \<in> set paths. (p, t) \<in> (adjacent adj)\<^sup>*"
proof (induction t adj seen paths rule: hasPathLoop.induct)
  case (2 t adj seen n paths)
  show ?case
  proof (cases "n = t")
    case False
    with 2 obtain p where "(p, t) \<in> (adjacent adj)\<^sup>*" "p \<in> set (successors adj n) \<or> p \<in> set paths"
      by (fastforce simp: hasPathLoop.simps(2) difference_def)
    then show ?thesis
      by (auto simp: adjacent_def intro: converse_rtrancl_into_rtrancl)
  qed simp
qed simp

text \<open>What was seen is not the target, and every successor of it was seen or is still on the stack.\<close>

definition search_closed :: "string \<Rightarrow> adjacency_list \<Rightarrow> string list \<Rightarrow> string list \<Rightarrow> bool" where
  "search_closed t adj seen paths \<longleftrightarrow>
     t \<notin> set seen \<and> (\<forall>s \<in> set seen. set (successors adj s) \<subseteq> set seen \<union> set paths)"

lemma closed_unreachable:
  assumes "(s, t) \<in> (adjacent adj)\<^sup>*" "search_closed t adj seen []"
  shows "s \<notin> set seen"
  using assms(1)
proof (induction rule: converse_rtrancl_induct)
  case base
  show ?case using assms(2) by (simp add: search_closed_def)
next
  case (step s u)
  with assms(2) show ?case by (auto simp: search_closed_def adjacent_def)
qed

lemma hasPathLoop_complete:
  "\<lbrakk>\<not> hasPathLoop t adj seen paths; search_closed t adj seen paths; s \<in> set seen \<union> set paths\<rbrakk>
     \<Longrightarrow> (s, t) \<notin> (adjacent adj)\<^sup>*"
proof (induction t adj seen paths rule: hasPathLoop.induct)
  case (1 t adj seen)
  then show ?case
    using closed_unreachable by auto
next
  case (2 t adj seen n paths)
  then have n: "n \<noteq> t"
    and rest: "\<not> hasPathLoop t adj (set_add n seen) (rev (difference (successors adj n) (set_add n seen)) @ paths)"
    by (auto simp: hasPathLoop.simps(2) split: if_splits)
  from 2(3) n have "search_closed t adj (set_add n seen) (rev (difference (successors adj n) (set_add n seen)) @ paths)"
    by (auto simp: search_closed_def difference_def)
  then show ?case
    using 2(4) by (intro 2(1) [OF n rest]) auto
qed

lemma hasPath_iff: "hasPath s t adj \<longleftrightarrow> (s, t) \<in> (adjacent adj)\<^sup>*"
  using hasPathLoop_sound [of t adj "[]" "[s]"] hasPathLoop_complete [of t adj "[]" "[s]" s]
  by (auto simp: hasPath_def search_closed_def)

section \<open>The adjacency list\<close>

definition listed_connections :: "IConnections \<Rightarrow> (string \<times> IConnection) list" where
  "listed_connections conns = concat (map (\<lambda>(sourceNode, types).
     map (Pair sourceNode) (concat (map (\<lambda>(t, slots). connections_of slots) types))) conns)"

text \<open>There is a connection from \<open>a\<close> to the main input of \<open>b\<close>.\<close>

definition main_link :: "IConnections \<Rightarrow> (string \<times> string) set" where
  "main_link conns = {(a, b). \<exists>types t slots cs c. (a, types) \<in> set conns \<and> (t, slots) \<in> set types \<and>
     Some cs \<in> set slots \<and> c \<in> set cs \<and> conn_type c = Main \<and> conn_node c = b}"

lemma set_connections_of: "set (connections_of slots) = {c. \<exists>cs. Some cs \<in> set slots \<and> c \<in> set cs}"
  by (force simp: connections_of_def split: option.splits)

lemma addOrCreate_wf [simp]: "map_wf adj \<Longrightarrow> map_wf (addOrCreate kv adj)"
  by (cases kv) (simp add: addOrCreate_def)

lemma addOrCreate_fold:
  "map_wf adj \<Longrightarrow> map_wf (fold addOrCreate kvs adj) \<and>
     set (own_or [] (fold addOrCreate kvs adj) k) = set (own_or [] adj k) \<union> {v. (k, v) \<in> set kvs}"
proof (induction kvs arbitrary: adj)
  case (Cons kv kvs)
  from Cons.IH [of "addOrCreate kv adj"] Cons.prems show ?case
    by (cases kv) (auto simp: addOrCreate_def)
qed simp

lemma buildAdjacencyList_wf: "map_wf (buildAdjacencyList conns)"
  unfolding buildAdjacencyList_def using addOrCreate_fold [of "[]"] by simp

lemma buildAdjacencyList_edges: "adjacent (buildAdjacencyList conns) = main_link conns"
proof -
  have "set (own_or [] (buildAdjacencyList conns) a) = {v. (a, v) \<in> set (listed_connections conns)}" for a
    unfolding buildAdjacencyList_def listed_connections_def [symmetric]
    using addOrCreate_fold [of "[]" "listed_connections conns" a] by (simp add: own_or_def [of "[]" "[]"])
  then show ?thesis
    by (fastforce simp: adjacent_def main_link_def successors_def listed_connections_def set_connections_of)
qed

section \<open>The nodes at the border of a selection\<close>

definition border_inputs :: "(string \<times> string) set \<Rightarrow> string set \<Rightarrow> string set" where
  "border_inputs E S = {b \<in> S. \<exists>a. a \<notin> S \<and> (a, b) \<in> E}"

definition border_outputs :: "(string \<times> string) set \<Rightarrow> string set \<Rightarrow> string set" where
  "border_outputs E S = {a \<in> S. \<exists>b. b \<notin> S \<and> (a, b) \<in> E}"

definition root_nodes :: "(string \<times> string) set \<Rightarrow> string set \<Rightarrow> string set" where
  "root_nodes E S = {b \<in> S. \<forall>a \<in> S. (a, b) \<in> E \<longrightarrow> a = b}"

definition leaf_nodes :: "(string \<times> string) set \<Rightarrow> string set \<Rightarrow> string set" where
  "leaf_nodes E S = {a \<in> S. \<forall>b \<in> S. (a, b) \<in> E \<longrightarrow> b = a}"

lemma set_main_targets: "set (main_targets adj n) = {b. (n, b) \<in> adjacent adj \<and> b \<noteq> n}"
  by (auto simp: main_targets_def adjacent_def successors_def)

lemma set_union_fold:
  "set (fold (\<lambda>n acc. union_of acc (f n)) ns acc) = set acc \<union> (\<Union>n\<in>set ns. set (f n))"
  by (induction ns arbitrary: acc) (auto simp: union_of_def set_fold_set_add)

lemma set_getRootNodes: "set (getRootNodes ids adj) = root_nodes (adjacent adj) (set ids)"
  by (auto simp: getRootNodes_def difference_def set_union_fold set_main_targets root_nodes_def)

lemma set_getLeafNodes: "set (getLeafNodes ids adj) = leaf_nodes (adjacent adj) (set ids)"
  by (auto simp: getLeafNodes_def intersection_def filter_empty_conv set_main_targets leaf_nodes_def)

lemma adjacent_entries:
  "map_wf adj \<Longrightarrow> (a, b) \<in> adjacent adj \<longleftrightarrow>
     (\<exists>tos c. (a, tos) \<in> set adj \<and> c \<in> set tos \<and> conn_type c = Main \<and> conn_node c = b)"
  by (fastforce simp: adjacent_def successors_def own_or_def split: option.splits
      dest: map_of_SomeD map_of_is_SomeI)

lemma set_inputNodes: "map_wf adj \<Longrightarrow> set (inputNodes_of ids adj) = border_inputs (adjacent adj) (set ids)"
  by (auto simp: inputNodes_of_def getInputEdges_def border_inputs_def adjacent_entries image_iff) (force+)?

lemma set_outputNodes: "map_wf adj \<Longrightarrow> set (outputNodes_of ids adj) = border_outputs (adjacent adj) (set ids)"
  by (auto simp: outputNodes_of_def getOutputEdges_def border_outputs_def adjacent_entries image_iff) (force+)?

section \<open>Selections that can be extracted\<close>

text \<open>The specification: at most one node of the selection is entered and at most one is left, these
  are a root and a leaf of the selection (unless the selection has none, being a loop), and a path
  within the selection leads from the one to the other.\<close>

definition extractable :: "(string \<times> string) set \<Rightarrow> string set \<Rightarrow> string option \<Rightarrow> string option \<Rightarrow> bool" where
  "extractable E S s t \<longleftrightarrow>
     border_inputs E S = set_option s \<and> border_outputs E S = set_option t \<and>
     (border_inputs E S \<subseteq> root_nodes E S \<or> root_nodes E S = {}) \<and>
     (border_outputs E S \<subseteq> leaf_nodes E S \<or> leaf_nodes E S = {}) \<and>
     (\<forall>a b. s = Some a \<longrightarrow> t = Some b \<longrightarrow> (a, b) \<in> (E \<inter> S \<times> S)\<^sup>*)"

lemma first_of_iff: "distinct xs \<Longrightarrow> \<not> 1 < length xs \<and> first_of xs = s \<longleftrightarrow> set xs = set_option s"
proof (cases xs)
  case (Cons x ys)
  assume "distinct xs"
  with Cons show ?thesis
    by (cases s; cases ys) (auto simp: first_of_def)
qed (cases s; simp add: first_of_def)

lemma singleton_length: "\<lbrakk>distinct xs; set xs = {x}\<rbrakk> \<Longrightarrow> length xs = 1"
  by (metis card.empty card_insert_disjoint distinct_card empty_iff finite.emptyI One_nat_def)

text \<open>What the function checks on either side of the selection: \<open>ends\<close> are the roots or the leaves,
  \<open>crossed\<close> the nodes that connections enter or leave.\<close>

lemma border_check:
  assumes "distinct ends" "distinct crossed"
  defines "chosen \<equiv> if ends = [] \<and> length crossed = 1 then crossed else ends"
  shows "difference crossed chosen = [] \<and> \<not> 1 < length (intersection chosen crossed) \<and>
      first_of (intersection chosen crossed) = s \<longleftrightarrow>
    set crossed = set_option s \<and> (set crossed \<subseteq> set ends \<or> set ends = {})"
proof -
  have distinct: "distinct (intersection chosen crossed)"
    using assms(1,2) by (simp add: intersection_def chosen_def)
  have within: "difference crossed chosen = [] \<longleftrightarrow> set crossed \<subseteq> set chosen"
    by (auto simp: difference_def filter_empty_conv)
  have all: "set crossed \<subseteq> set chosen \<Longrightarrow> set (intersection chosen crossed) = set crossed"
    by (auto simp: intersection_def)
  have chosen: "set crossed \<subseteq> set chosen \<longleftrightarrow> set crossed \<subseteq> set ends \<or> set ends = {}"
    if "set crossed = set_option s"
    using that singleton_length [OF assms(2)] by (cases s) (auto simp: chosen_def)
  show ?thesis
    using first_of_iff [OF distinct, of s] within all chosen by blast
qed

lemma parse_iff:
  assumes "distinct ids" "map_wf adj"
  defines "S \<equiv> set ids" and "E \<equiv> adjacent adj"
  shows "parseExtractableSubgraphSelection ids adj = Inr \<lparr>sg_start = s, sg_end = t\<rparr> \<longleftrightarrow>
    (border_inputs E S = set_option s \<and> (border_inputs E S \<subseteq> root_nodes E S \<or> root_nodes E S = {})) \<and>
    (border_outputs E S = set_option t \<and> (border_outputs E S \<subseteq> leaf_nodes E S \<or> leaf_nodes E S = {})) \<and>
    pathMissing s t adj = []"
proof -
  have d: "distinct (getRootNodes ids adj)" "distinct (getLeafNodes ids adj)"
    "distinct (inputNodes_of ids adj)" "distinct (outputNodes_of ids adj)"
    using assms(1) by (simp_all add: getRootNodes_def difference_def getLeafNodes_def inputNodes_of_def outputNodes_of_def)
  show ?thesis
    unfolding E_def S_def set_inputNodes [OF assms(2), symmetric] set_outputNodes [OF assms(2), symmetric]
      set_getRootNodes [symmetric] set_getLeafNodes [symmetric]
      border_check [OF d(1,3), symmetric] border_check [OF d(2,4), symmetric]
    by (auto simp: parseExtractableSubgraphSelection_def Let_def simp del: One_nat_def)
qed

lemma path_within:
  assumes "(a, b) \<in> E\<^sup>*" "a \<in> S" "border_outputs E S \<subseteq> {b}"
  shows "(a, b) \<in> (E \<inter> S \<times> S)\<^sup>*"
  using assms(1,2)
proof (induction rule: converse_rtrancl_induct)
  case (step a c)
  show ?case
  proof (cases "c \<in> S")
    case True
    with step show ?thesis
      by (auto intro: converse_rtrancl_into_rtrancl)
  next
    case False
    with step assms(3) have "a = b"
      by (auto simp: border_outputs_def)
    then show ?thesis
      by simp
  qed
qed simp

lemma pathMissing_iff:
  assumes "border_inputs E S = set_option s" "border_outputs E S = set_option t" "[] \<notin> S" "E = adjacent adj"
  shows "pathMissing s t adj = [] \<longleftrightarrow> (\<forall>a b. s = Some a \<longrightarrow> t = Some b \<longrightarrow> (a, b) \<in> (E \<inter> S \<times> S)\<^sup>*)"
proof (cases "s = None \<or> t = None")
  case True
  then show ?thesis
    by (auto simp: pathMissing_def split: option.splits)
next
  case False
  then obtain a b where st: "s = Some a" "t = Some b" by auto
  with assms(1,2) have "a \<in> S" "b \<in> S" "border_outputs E S \<subseteq> {b}"
    by (auto simp: border_inputs_def border_outputs_def)
  moreover from this have "(a, b) \<in> E\<^sup>* \<longleftrightarrow> (a, b) \<in> (E \<inter> S \<times> S)\<^sup>*"
    using path_within rtrancl_mono [of "E \<inter> S \<times> S" E] by blast
  ultimately show ?thesis
    using assms(3,4) st by (auto simp: pathMissing_def hasPath_iff)
qed

text \<open>\<^bold>\<open>C38.\<close> A selection of nodes is accepted for extraction exactly when it is entered at one root at
  most and left at one leaf at most, and a path that never leaves the selection connects the two,
  although the search for that path walks the whole workflow.\<close>

theorem parseExtractable_correct:
  assumes "distinct graphIds" "[] \<notin> set graphIds"
  shows "parseExtractableSubgraphSelection graphIds (buildAdjacencyList connections) = Inr \<lparr>sg_start = s, sg_end = t\<rparr> \<longleftrightarrow>
    extractable (main_link connections) (set graphIds) s t"
  unfolding parse_iff [OF assms(1) buildAdjacencyList_wf] extractable_def
  using pathMissing_iff [OF _ _ assms(2) buildAdjacencyList_edges [symmetric], of connections s t]
  unfolding buildAdjacencyList_edges by blast

text \<open>A workflow of four nodes in which \<open>a\<close> leads to the loop of \<open>b\<close> and \<open>c\<close>, and \<open>c\<close> to \<open>d\<close>.\<close>

definition loop_connections :: IConnections where
  "loop_connections =
     [(''a'', [(Main, [Some [\<lparr>conn_node = ''b'', conn_type = Main, conn_index = 0\<rparr>]])]),
      (''b'', [(Main, [None, Some [\<lparr>conn_node = ''c'', conn_type = Main, conn_index = 0\<rparr>]])]),
      (''c'', [(Main, [Some [\<lparr>conn_node = ''b'', conn_type = Main, conn_index = 0\<rparr>,
                             \<lparr>conn_node = ''d'', conn_type = Main, conn_index = 0\<rparr>]])])]"

theorem parseExtractable_correct_witness:
  "extractable (main_link loop_connections) {''b'', ''c''} (Some ''b'') (Some ''c'')"
proof -
  have "parseExtractableSubgraphSelection [''b'', ''c''] (buildAdjacencyList loop_connections)
      = Inr \<lparr>sg_start = Some ''b'', sg_end = Some ''c''\<rparr>"
    by code_simp
  then show ?thesis
    using parseExtractable_correct [of "[''b'', ''c'']" loop_connections "Some ''b''" "Some ''c''"] by simp
qed

end
