(* ===== verification/Directed_Graph.thy ===== *)
theory Directed_Graph
  imports Workflow_Model
begin

text \<open>
  \<^verbatim>\<open>packages/core/src/execution-engine/partial-execution-utils/directed-graph.ts\<close>: the editable
  graph on which partial executions are planned.  The two private maps of the class are the
  fields of \<open>DirectedGraph\<close>; every method is a definition of the same name.  A failed
  \<open>assert.ok\<close> is the result \<open>Inl AssertionError\<close>.
\<close>

section \<open>State and keys\<close>

record GraphConnection =
  from_node :: INode
  to_node :: INode
  gc_type :: NodeConnectionType
  outputIndex :: nat
  inputIndex :: nat

record DirectedGraph =
  nodes :: "(string, INode) js_map"
  connections :: "(string, GraphConnection) js_map"

definition empty_graph :: DirectedGraph where
  "empty_graph = \<lparr>nodes = [], connections = []\<rparr>"

definition makeKey :: "GraphConnection \<Rightarrow> string" where
  "makeKey c = node_name (from_node c) @ ''-'' @ conn_type_string (gc_type c) @ ''-''
     @ nat_to_string (outputIndex c) @ ''-'' @ nat_to_string (inputIndex c) @ ''-''
     @ node_name (to_node c)"

section \<open>Reading\<close>

definition hasNode :: "DirectedGraph \<Rightarrow> string \<Rightarrow> bool" where
  "hasNode g nodeName = (map_get (nodes g) nodeName \<noteq> None)"

definition getNodes :: "DirectedGraph \<Rightarrow> (string, INode) js_map" where
  "getNodes g = nodes g"

definition getNodesByNames :: "DirectedGraph \<Rightarrow> string list \<Rightarrow> INode js_set" where
  "getNodesByNames g names =
     fold (\<lambda>name ns. case map_get (nodes g) name of Some n \<Rightarrow> set_add n ns | None \<Rightarrow> ns) names []"

definition getConnections :: "DirectedGraph \<Rightarrow> INode option \<Rightarrow> GraphConnection list" where
  "getConnections g filter_to =
     filter (\<lambda>c. case filter_to of Some n \<Rightarrow> to_node c = n | None \<Rightarrow> True) (map_values (connections g))"

definition node_exists :: "DirectedGraph \<Rightarrow> INode \<Rightarrow> bool" where
  "node_exists g n = (map_get (nodes g) (node_name n) = Some n)"

definition getDirectChildConnections :: "DirectedGraph \<Rightarrow> INode \<Rightarrow> GraphConnection list result" where
  "getDirectChildConnections g node =
     assert_ok (node_exists g node)
       (Inr (filter (\<lambda>c. from_node c = node) (map_values (connections g))))"

definition getDirectParentConnections :: "DirectedGraph \<Rightarrow> INode \<Rightarrow> GraphConnection list result" where
  "getDirectParentConnections g node =
     assert_ok (node_exists g node)
       (Inr (filter (\<lambda>c. to_node c = node) (map_values (connections g))))"

definition getConnection ::
  "DirectedGraph \<Rightarrow> INode \<Rightarrow> nat \<Rightarrow> NodeConnectionType \<Rightarrow> nat \<Rightarrow> INode \<Rightarrow> GraphConnection option" where
  "getConnection g from oi ty ii to =
     map_get (connections g)
       (makeKey \<lparr>from_node = from, to_node = to, gc_type = ty, outputIndex = oi, inputIndex = ii\<rparr>)"

section \<open>Writing\<close>

definition addNode :: "DirectedGraph \<Rightarrow> INode \<Rightarrow> DirectedGraph" where
  "addNode g node = g\<lparr>nodes := map_set (node_name node) node (nodes g)\<rparr>"

definition addNodes :: "DirectedGraph \<Rightarrow> INode list \<Rightarrow> DirectedGraph" where
  "addNodes g ns = fold (\<lambda>n h. addNode h n) ns g"

text \<open>The argument of \<open>addConnection\<close>, with its optional fields.\<close>

record ConnectionInput =
  ci_from :: INode
  ci_to :: INode
  ci_type :: "NodeConnectionType option"
  ci_outputIndex :: "nat option"
  ci_inputIndex :: "nat option"

definition connection_of_input :: "ConnectionInput \<Rightarrow> GraphConnection" where
  "connection_of_input ci =
     \<lparr>from_node = ci_from ci, to_node = ci_to ci,
      gc_type = (case ci_type ci of Some t \<Rightarrow> t | None \<Rightarrow> Main),
      outputIndex = (case ci_outputIndex ci of Some i \<Rightarrow> i | None \<Rightarrow> 0),
      inputIndex = (case ci_inputIndex ci of Some i \<Rightarrow> i | None \<Rightarrow> 0)\<rparr>"

definition input_of_connection :: "GraphConnection \<Rightarrow> ConnectionInput" where
  "input_of_connection c =
     \<lparr>ci_from = from_node c, ci_to = to_node c, ci_type = Some (gc_type c),
      ci_outputIndex = Some (outputIndex c), ci_inputIndex = Some (inputIndex c)\<rparr>"

definition set_connection :: "GraphConnection \<Rightarrow> DirectedGraph \<Rightarrow> DirectedGraph" where
  "set_connection c g = g\<lparr>connections := map_set (makeKey c) c (connections g)\<rparr>"

definition addConnection :: "DirectedGraph \<Rightarrow> ConnectionInput \<Rightarrow> DirectedGraph result" where
  "addConnection g ci =
     assert_ok (node_exists g (ci_from ci))
       (assert_ok (node_exists g (ci_to ci))
         (Inr (set_connection (connection_of_input ci) g)))"

definition addConnections :: "DirectedGraph \<Rightarrow> ConnectionInput list \<Rightarrow> DirectedGraph result" where
  "addConnections g cis = rfold (\<lambda>ci h. addConnection h ci) cis g"

definition touches :: "INode \<Rightarrow> GraphConnection \<Rightarrow> bool" where
  "touches node c = (to_node c = node \<or> from_node c = node)"

definition drop_connections_of :: "INode \<Rightarrow> DirectedGraph \<Rightarrow> DirectedGraph" where
  "drop_connections_of node g =
     g\<lparr>connections := filter (\<lambda>(k, c). \<not> touches node c) (connections g)\<rparr>"

definition rewired_connections ::
  "(GraphConnection \<Rightarrow> bool) \<Rightarrow> GraphConnection list \<Rightarrow> GraphConnection list \<Rightarrow> GraphConnection list" where
  "rewired_connections skipFn incoming outgoing =
     concat (map (\<lambda>i. map (\<lambda>o'. i\<lparr>to_node := to_node o', inputIndex := inputIndex o'\<rparr>)
                        (filter (\<lambda>o'. \<not> skipFn o') outgoing))
                 (filter (\<lambda>i. \<not> skipFn i) incoming))"

definition removeNode ::
  "DirectedGraph \<Rightarrow> INode \<Rightarrow> bool \<Rightarrow> (GraphConnection \<Rightarrow> bool)
     \<Rightarrow> (DirectedGraph \<times> GraphConnection list option) result" where
  "removeNode g node reconnectConnections skipConnectionFn =
     (if reconnectConnections then
        rbind (getDirectParentConnections g node) (\<lambda>incoming.
        rbind (getDirectChildConnections g node) (\<lambda>outgoing.
          let newConnections = rewired_connections skipConnectionFn incoming outgoing;
              g1 = drop_connections_of node g;
              g2 = fold set_connection newConnections g1
          in Inr (g2\<lparr>nodes := map_delete (node_name node) (nodes g2)\<rparr>, Some newConnections)))
      else
        (let g1 = drop_connections_of node g
         in Inr (g1\<lparr>nodes := map_delete (node_name node) (nodes g1)\<rparr>, None)))"

definition clone :: "DirectedGraph \<Rightarrow> DirectedGraph result" where
  "clone g = addConnections (addNodes empty_graph (map_values (getNodes g)))
               (map input_of_connection (getConnections g None))"

section \<open>Importing and exporting\<close>

definition fromConnections ::
  "(string \<Rightarrow> INode option) \<Rightarrow> IConnections \<Rightarrow> DirectedGraph \<Rightarrow> DirectedGraph result" where
  "fromConnections lookup conns g0 =
     rfold (\<lambda>(fromNodeName, iConnection) g.
       case lookup fromNodeName of
         None \<Rightarrow> Inl AssertionError
       | Some from \<Rightarrow>
           rfold (\<lambda>(outputType, outputs) g.
             rfold (\<lambda>(oi, conns) g.
               rfold (\<lambda>conn g.
                 case lookup (conn_node conn) of
                   None \<Rightarrow> Inl AssertionError
                 | Some to \<Rightarrow>
                     addConnection g
                       \<lparr>ci_from = from, ci_to = to, ci_type = Some outputType,
                        ci_outputIndex = Some oi, ci_inputIndex = Some (conn_index conn)\<rparr>)
                 (case conns of Some cs \<Rightarrow> cs | None \<Rightarrow> []) g)
               (enumerate 0 outputs) g)
             iConnection g)
       conns g0"

text \<open>\<open>fromWorkflow\<close> reads two fields of the workflow object: its \<open>nodes\<close> dictionary and
  its connections by source node; \<open>workflow.getNode\<close> is a read of the dictionary.\<close>

definition fromWorkflow :: "(string, INode) js_map \<Rightarrow> IConnections \<Rightarrow> DirectedGraph result" where
  "fromWorkflow wf_nodes connectionsBySourceNode =
     fromConnections (map_get wf_nodes) connectionsBySourceNode
       (addNodes empty_graph (map_values wf_nodes))"

definition fromNodesAndConnections :: "INode list \<Rightarrow> IConnections \<Rightarrow> DirectedGraph result" where
  "fromNodesAndConnections ns conns =
     (let nodeMap = fold (\<lambda>n m. map_set (node_name n) n m) ns []
      in fromConnections (map_get nodeMap) conns (addNodes empty_graph ns))"

definition toIConnections_step :: "GraphConnection \<Rightarrow> IConnections \<Rightarrow> IConnections result" where
  "toIConnections_step c res =
     (let fname = node_name (from_node c);
          res1 = (case map_get res fname of
                    None \<Rightarrow> map_set fname [(gc_type c, [])] res
                  | Some old \<Rightarrow> map_set fname old res)
      in case map_get res1 fname of
           None \<Rightarrow> Inl TypeError
         | Some resultConnection \<Rightarrow>
             (case map_get resultConnection (gc_type c) of
                None \<Rightarrow> Inl TypeError
              | Some arr \<Rightarrow>
                  let group = (if outputIndex c < length arr
                               then (case arr ! outputIndex c of Some cs \<Rightarrow> cs | None \<Rightarrow> []) else []);
                      entry = \<lparr>conn_node = node_name (to_node c), conn_type = gc_type c,
                               conn_index = inputIndex c\<rparr>;
                      arr1 = js_array_set None arr (outputIndex c) (Some (group @ [entry]))
                  in Inr (map_set fname (map_set (gc_type c) arr1 resultConnection) res1)))"

definition toIConnections :: "DirectedGraph \<Rightarrow> IConnections result" where
  "toIConnections g = rfold toIConnections_step (map_values (connections g)) []"

section \<open>Well-formed graphs\<close>

text \<open>The invariant of the class: the maps have distinct keys, a node is stored under its name,
  a connection under its key, and a connection joins two nodes of the graph.\<close>

definition wf_graph :: "DirectedGraph \<Rightarrow> bool" where
  "wf_graph g \<longleftrightarrow>
     map_wf (nodes g) \<and> map_wf (connections g)
     \<and> (\<forall>(k, n) \<in> set (nodes g). k = node_name n)
     \<and> (\<forall>(k, c) \<in> set (connections g). k = makeKey c
          \<and> node_exists g (from_node c) \<and> node_exists g (to_node c))"

definition node_set :: "DirectedGraph \<Rightarrow> INode set" where
  "node_set g = set (map_values (nodes g))"

definition conn_set :: "DirectedGraph \<Rightarrow> GraphConnection set" where
  "conn_set g = set (map_values (connections g))"

lemma finite_conn_set [simp]: "finite (conn_set g)"
  by (simp add: conn_set_def)

text \<open>The edge relation on node objects.\<close>

definition edges :: "DirectedGraph \<Rightarrow> (INode \<times> INode) set" where
  "edges g = {(from_node c, to_node c) | c. c \<in> conn_set g}"

lemma getDirectChildConnections_Inr:
  "getDirectChildConnections g n = Inr cs \<longleftrightarrow>
     node_exists g n \<and> cs = filter (\<lambda>c. from_node c = n) (map snd (connections g))"
  by (auto simp: getDirectChildConnections_def assert_ok_Inr)

lemma getDirectParentConnections_Inr:
  "getDirectParentConnections g n = Inr cs \<longleftrightarrow>
     node_exists g n \<and> cs = filter (\<lambda>c. to_node c = n) (map snd (connections g))"
  by (auto simp: getDirectParentConnections_def assert_ok_Inr)

lemma set_child_connections:
  "getDirectChildConnections g n = Inr cs \<Longrightarrow> set cs = {c \<in> conn_set g. from_node c = n}"
  by (auto simp: getDirectChildConnections_Inr conn_set_def)

lemma set_parent_connections:
  "getDirectParentConnections g n = Inr cs \<Longrightarrow> set cs = {c \<in> conn_set g. to_node c = n}"
  by (auto simp: getDirectParentConnections_Inr conn_set_def)

section \<open>Transitive children and parents\<close>

text \<open>\<open>getChildrenRecursive\<close> recurses inside a loop over the outgoing connections;
  \<open>getChildrenLoop\<close> is that loop from its current position, with the shared \<open>children\<close> set
  threaded through.\<close>

function getChildrenLoop ::
  "DirectedGraph \<Rightarrow> GraphConnection list \<Rightarrow> INode js_set \<Rightarrow> INode js_set result" where
  "getChildrenLoop g [] children = Inr children"
| "getChildrenLoop g (directChild # rest) children =
     (if set_has children (to_node directChild) then getChildrenLoop g rest children
      else rbind (getDirectChildConnections g (to_node directChild)) (\<lambda>directChildren.
           rbind (getChildrenLoop g directChildren (set_add (to_node directChild) children))
                 (getChildrenLoop g rest)))"
  by pat_completeness auto

lemma getChildrenLoop_grows:
  "getChildrenLoop_dom (g, cs, acc) \<Longrightarrow> getChildrenLoop g cs acc = Inr acc' \<Longrightarrow> set acc \<subseteq> set acc'"
proof (induction g cs acc arbitrary: acc' rule: getChildrenLoop.pinduct)
  case (1 g children)
  then show ?case by (simp add: getChildrenLoop.psimps)
next
  case (2 g directChild rest children)
  then show ?case
    by (fastforce simp: getChildrenLoop.psimps rbind_eq_Inr split: if_splits)
qed

definition loop_work :: "('c \<Rightarrow> 'n) \<Rightarrow> 'c set \<Rightarrow> 'c list \<Rightarrow> 'n list \<Rightarrow> nat" where
  "loop_work key U cs acc = card (key ` (U \<union> set cs) - set acc)"

lemma loop_work_tail: "finite U \<Longrightarrow> loop_work key U cs acc \<le> loop_work key U (c # cs) acc"
  unfolding loop_work_def by (intro card_mono) auto

lemma loop_work_less:
  assumes "finite U" and "key c \<notin> set acc" and "insert (key c) (set acc) \<subseteq> set acc'"
    and "key ` set ds \<subseteq> key ` (U \<union> set (c # cs))"
  shows "loop_work key U ds acc' < loop_work key U (c # cs) acc"
  unfolding loop_work_def
proof (rule psubset_card_mono)
  show "finite (key ` (U \<union> set (c # cs)) - set acc)" using assms(1) by simp
  have "key c \<in> key ` (U \<union> set (c # cs)) - set acc" using assms(2) by simp
  moreover have "key c \<notin> key ` (U \<union> set ds) - set acc'" using assms(3) by simp
  moreover have "key ` (U \<union> set ds) - set acc' \<subseteq> key ` (U \<union> set (c # cs)) - set acc"
    using assms(3,4) by auto
  ultimately show "key ` (U \<union> set ds) - set acc' \<subset> key ` (U \<union> set (c # cs)) - set acc" by blast
qed

termination getChildrenLoop
proof (relation "measures [\<lambda>(g, cs, acc). loop_work to_node (conn_set g) cs acc, \<lambda>(g, cs, acc). length cs]",
    goal_cases)
  case 1
  show ?case by simp
next
  case (2 g c rest acc)
  then show ?case using loop_work_tail[of "conn_set g" to_node rest acc c] by auto
next
  case (3 g c rest acc ds)
  then have "to_node ` set ds \<subseteq> to_node ` (conn_set g \<union> set (c # rest))"
    by (auto simp: set_child_connections)
  with 3 show ?case by (auto intro!: loop_work_less)
next
  case (4 g c rest acc ds acc')
  from getChildrenLoop_grows[OF 4(4,3)] have "insert (to_node c) (set acc) \<subseteq> set acc'" by simp
  with 4 show ?case by (auto intro!: loop_work_less)
qed

definition getChildrenRecursive :: "DirectedGraph \<Rightarrow> INode \<Rightarrow> INode js_set \<Rightarrow> INode js_set result" where
  "getChildrenRecursive g node children =
     rbind (getDirectChildConnections g node) (\<lambda>directChildren. getChildrenLoop g directChildren children)"

definition getChildren :: "DirectedGraph \<Rightarrow> INode \<Rightarrow> INode js_set result" where
  "getChildren g node = getChildrenRecursive g node []"

function getParentConnectionsLoop ::
  "DirectedGraph \<Rightarrow> GraphConnection list \<Rightarrow> GraphConnection js_set \<Rightarrow> GraphConnection js_set result" where
  "getParentConnectionsLoop g [] conns = Inr conns"
| "getParentConnectionsLoop g (c # rest) conns =
     (if set_has conns c then getParentConnectionsLoop g rest conns
      else rbind (getDirectParentConnections g (from_node c)) (\<lambda>parentConnections.
           rbind (getParentConnectionsLoop g parentConnections (set_add c conns))
                 (getParentConnectionsLoop g rest)))"
  by pat_completeness auto

lemma getParentConnectionsLoop_grows:
  "getParentConnectionsLoop_dom (g, cs, acc) \<Longrightarrow> getParentConnectionsLoop g cs acc = Inr acc'
     \<Longrightarrow> set acc \<subseteq> set acc'"
proof (induction g cs acc arbitrary: acc' rule: getParentConnectionsLoop.pinduct)
  case (1 g children)
  then show ?case by (simp add: getParentConnectionsLoop.psimps)
next
  case (2 g directChild rest children)
  then show ?case
    by (fastforce simp: getParentConnectionsLoop.psimps rbind_eq_Inr split: if_splits)
qed

termination getParentConnectionsLoop
proof (relation "measures [\<lambda>(g, cs, acc). loop_work id (conn_set g) cs acc, \<lambda>(g, cs, acc). length cs]",
    goal_cases)
  case 1
  show ?case by simp
next
  case (2 g c rest acc)
  then show ?case using loop_work_tail[of "conn_set g" id rest acc c] by auto
next
  case (3 g c rest acc ds)
  then have "id ` set ds \<subseteq> id ` (conn_set g \<union> set (c # rest))"
    by (auto simp: set_parent_connections)
  with 3 show ?case by (auto intro!: loop_work_less)
next
  case (4 g c rest acc ds acc')
  from getParentConnectionsLoop_grows[OF 4(4,3)] have "insert (id c) (set acc) \<subseteq> set acc'" by simp
  with 4 show ?case by (auto intro!: loop_work_less)
qed

definition getParentConnections :: "DirectedGraph \<Rightarrow> INode \<Rightarrow> GraphConnection js_set result" where
  "getParentConnections g node =
     rbind (getDirectParentConnections g node) (\<lambda>parentConnections. getParentConnectionsLoop g parentConnections [])"

text \<open>Both loops meet the contract of a collecting traversal.\<close>

interpretation children: collecting_traversal to_node "getDirectChildConnections g"
  "getChildrenLoop g" "to_node ` conn_set g" for g
  by unfold_locales (auto simp: set_add_def set_child_connections)

interpretation parents: collecting_traversal id
  "\<lambda>c. getDirectParentConnections g (from_node c)" "getParentConnectionsLoop g" "conn_set g" for g
  by unfold_locales (auto simp: set_add_def set_parent_connections)

section \<open>Depth-first search\<close>

text \<open>\<open>depthFirstSearchRecursive\<close> over the remaining nodes of the caller's loop; the result
  pairs the found node with the shared \<open>seen\<close> set.\<close>

function depthFirstSearchLoop ::
  "DirectedGraph \<Rightarrow> (INode \<Rightarrow> bool) \<Rightarrow> INode list \<Rightarrow> INode js_set \<Rightarrow> (INode option \<times> INode js_set) result" where
  "depthFirstSearchLoop g fn [] seen = Inr (None, seen)"
| "depthFirstSearchLoop g fn (n # ns) seen =
     (if set_has seen n then depthFirstSearchLoop g fn ns seen
      else if fn n then Inr (Some n, set_add n seen)
      else rbind (getDirectChildConnections g n) (\<lambda>childConnections.
           rbind (depthFirstSearchLoop g fn (map to_node childConnections) (set_add n seen)) (\<lambda>(found, seen').
           case found of Some m \<Rightarrow> Inr (Some m, seen')
           | None \<Rightarrow> depthFirstSearchLoop g fn ns seen')))"
  by pat_completeness auto

lemma depthFirstSearchLoop_grows:
  "depthFirstSearchLoop_dom (g, fn, ns, seen) \<Longrightarrow> depthFirstSearchLoop g fn ns seen = Inr (r, seen')
     \<Longrightarrow> set seen \<subseteq> set seen'"
proof (induction g fn ns seen arbitrary: r seen' rule: depthFirstSearchLoop.pinduct)
  case (1 g fn seen)
  then show ?case by (simp add: depthFirstSearchLoop.psimps)
next
  case (2 g fn n ns seen)
  then show ?case
    by (fastforce simp: depthFirstSearchLoop.psimps rbind_eq_Inr split: if_splits option.splits)
qed

termination depthFirstSearchLoop
proof (relation "measures [\<lambda>(g, fn, ns, seen). loop_work id (to_node ` conn_set g) ns seen,
                           \<lambda>(g, fn, ns, seen). length ns]", goal_cases)
  case 1
  show ?case by simp
next
  case (2 g fn n ns seen)
  then show ?case using loop_work_tail[of "to_node ` conn_set g" id ns seen n] by auto
next
  case (3 g fn n ns seen cs)
  then have "id ` set (map to_node cs) \<subseteq> id ` (to_node ` conn_set g \<union> set (n # ns))"
    by (auto simp: set_child_connections)
  with 3 have "loop_work id (to_node ` conn_set g) (map to_node cs) (set_add n seen)
      < loop_work id (to_node ` conn_set g) (n # ns) seen"
    by (intro loop_work_less) auto
  then show ?case by simp
next
  case (4 g fn n ns seen cs p found seen')
  from 4(4,5) have e: "depthFirstSearchLoop g fn (map to_node cs) (set_add n seen) = Inr (found, seen')"
    by simp
  from depthFirstSearchLoop_grows[OF 4(7) e] have "insert (id n) (set seen) \<subseteq> set seen'" by simp
  with 4 show ?case by (auto intro!: loop_work_less)
qed

definition depthFirstSearch :: "DirectedGraph \<Rightarrow> INode \<Rightarrow> (INode \<Rightarrow> bool) \<Rightarrow> INode option result" where
  "depthFirstSearch g from fn = rbind (depthFirstSearchLoop g fn [from] []) (\<lambda>(found, _). Inr found)"

text \<open>Read as a traversal that stops by throwing what it found, the search is a collecting
  traversal too.\<close>

definition search_expand :: "DirectedGraph \<Rightarrow> (INode \<Rightarrow> bool) \<Rightarrow> INode \<Rightarrow> (js_error + INode) + INode list" where
  "search_expand g fn n =
     (if fn n then Inl (Inr n)
      else case getDirectChildConnections g n of
             Inl e \<Rightarrow> Inl (Inl e) | Inr cs \<Rightarrow> Inr (map to_node cs))"

definition search_visit ::
  "DirectedGraph \<Rightarrow> (INode \<Rightarrow> bool) \<Rightarrow> INode list \<Rightarrow> INode js_set \<Rightarrow> (js_error + INode) + INode js_set" where
  "search_visit g fn ns seen =
     (case depthFirstSearchLoop g fn ns seen of
        Inl e \<Rightarrow> Inl (Inl e)
      | Inr (Some m, _) \<Rightarrow> Inl (Inr m)
      | Inr (None, seen') \<Rightarrow> Inr seen')"

interpretation search: collecting_traversal id "search_expand g fn" "search_visit g fn"
  "to_node ` conn_set g" for g fn
proof (unfold_locales, goal_cases)
  case (1 acc)
  show ?case by (simp add: search_visit_def)
next
  case (2 c cs acc)
  show ?case
    by (auto simp: search_visit_def search_expand_def set_add_def rbind_eq_Inr
        split: sum.splits option.splits)
next
  case 3
  show ?case by simp
next
  case (4 n ds)
  then show ?case
    by (auto simp: search_expand_def set_child_connections split: if_splits sum.splits)
qed

section \<open>Correctness of the traversals\<close>

lemma node_exists_node_set: "node_exists g n \<Longrightarrow> n \<in> node_set g"
  by (force simp: node_exists_def node_set_def dest: map_of_SomeD)

lemma wf_node_exists:
  assumes "wf_graph g"
  shows "node_exists g n \<longleftrightarrow> n \<in> node_set g"
proof
  assume "n \<in> node_set g"
  then obtain k where "(k, n) \<in> set (nodes g)" by (auto simp: node_set_def)
  moreover from this assms have "k = node_name n" by (auto simp: wf_graph_def)
  ultimately show "node_exists g n"
    using assms by (simp add: node_exists_def wf_graph_def)
qed (rule node_exists_node_set)

lemma wf_conn_exists:
  assumes "wf_graph g" and "c \<in> conn_set g"
  shows "node_exists g (from_node c)" and "node_exists g (to_node c)"
  using assms by (force simp: wf_graph_def conn_set_def)+

lemma wf_conn_key: "wf_graph g \<Longrightarrow> (k, c) \<in> set (connections g) \<Longrightarrow> k = makeKey c"
  by (auto simp: wf_graph_def)

lemma wf_edges: "wf_graph g \<Longrightarrow> edges g \<subseteq> node_set g \<times> node_set g"
  by (auto simp: edges_def wf_node_exists[symmetric] wf_conn_exists)

lemma wf_child_connections:
  "wf_graph g \<Longrightarrow> n \<in> node_set g \<Longrightarrow>
     getDirectChildConnections g n = Inr (filter (\<lambda>c. from_node c = n) (map snd (connections g)))"
  by (simp add: getDirectChildConnections_def wf_node_exists)

lemma wf_parent_connections:
  "wf_graph g \<Longrightarrow> n \<in> node_set g \<Longrightarrow>
     getDirectParentConnections g n = Inr (filter (\<lambda>c. to_node c = n) (map snd (connections g)))"
  by (simp add: getDirectParentConnections_def wf_node_exists)

lemma edgesE:
  assumes "(m, n) \<in> edges g"
  obtains c where "c \<in> conn_set g" and "from_node c = m" and "to_node c = n"
  using assms by (auto simp: edges_def)

lemma edgesI: "c \<in> conn_set g \<Longrightarrow> (from_node c, to_node c) \<in> edges g"
  by (auto simp: edges_def)

lemma wf_edge_children:
  assumes "wf_graph g" and "(m, n) \<in> edges g"
  shows "\<exists>ds. getDirectChildConnections g m = Inr ds \<and> n \<in> to_node ` set ds"
proof -
  from assms(2) obtain c where c: "c \<in> conn_set g" "from_node c = m" "to_node c = n" by (rule edgesE)
  with wf_conn_exists(1)[OF assms(1) c(1)] show ?thesis
    by (auto simp: getDirectChildConnections_Inr conn_set_def)
qed

lemma children_succs:
  assumes "wf_graph g"
  shows "children.succs g = edges g"
proof
  show "edges g \<subseteq> children.succs g"
    unfolding children.succs_def using wf_edge_children[OF assms] by blast
  show "children.succs g \<subseteq> edges g"
    unfolding children.succs_def by (auto simp: set_child_connections edges_def)
qed

lemma parents_succs:
  "wf_graph g \<Longrightarrow> c \<in> conn_set g \<Longrightarrow>
     (c, d) \<in> parents.succs g \<longleftrightarrow> d \<in> conn_set g \<and> to_node d = from_node c"
  by (auto simp: parents.succs_def wf_parent_connections wf_node_exists[symmetric] wf_conn_exists
      conn_set_def)

lemma parents_reach_conn:
  "(c, d) \<in> (parents.succs g)\<^sup>* \<Longrightarrow> wf_graph g \<Longrightarrow> c \<in> conn_set g \<Longrightarrow>
     d \<in> conn_set g \<and> (to_node d, to_node c) \<in> (edges g)\<^sup>*"
proof (induction rule: rtrancl_induct)
  case base
  then show ?case by simp
next
  case (step d e)
  then have d: "d \<in> conn_set g" "(to_node d, to_node c) \<in> (edges g)\<^sup>*" by auto
  with step have e: "e \<in> conn_set g" "to_node e = from_node d" by (auto simp: parents_succs)
  with d have "(to_node e, to_node d) \<in> edges g" by (auto simp: edges_def)
  with d e show ?case by (auto intro: converse_rtrancl_into_rtrancl)
qed

lemma reach_parents_conn:
  assumes "wf_graph g" and "(m, n) \<in> (edges g)\<^sup>*"
  shows "d \<in> conn_set g \<Longrightarrow> to_node d = m \<Longrightarrow>
           \<exists>c. c \<in> conn_set g \<and> to_node c = n \<and> (c, d) \<in> (parents.succs g)\<^sup>*"
  using assms(2)
proof (induction rule: rtrancl_induct)
  case base
  then show ?case by blast
next
  case (step n k)
  then obtain c where c: "c \<in> conn_set g" "to_node c = n" "(c, d) \<in> (parents.succs g)\<^sup>*" by blast
  from step(2) obtain e where e: "e \<in> conn_set g" "from_node e = n" "to_node e = k"
    by (auto simp: edges_def)
  with c assms(1) have "(e, c) \<in> parents.succs g" by (simp add: parents_succs)
  with c e show ?case by (blast intro: converse_rtrancl_into_rtrancl)
qed

lemma getChildren_total:
  assumes "wf_graph g" and "n \<in> node_set g"
  shows "\<exists>cs. getChildren g n = Inr cs"
proof -
  have G: "\<exists>ds. getDirectChildConnections g m = Inr ds \<and> to_node ` set ds \<subseteq> node_set g"
    if "m \<in> node_set g" for m
    using that assms(1) wf_edges[OF assms(1)] by (force simp: wf_child_connections edges_def conn_set_def)
  from G[OF assms(2)] obtain ds where "getDirectChildConnections g n = Inr ds" "to_node ` set ds \<subseteq> node_set g"
    by blast
  with children.visit_total[of "node_set g" g ds "[]", OF G] show ?thesis
    by (auto simp: getChildren_def getChildrenRecursive_def)
qed

lemma getChildren_reach:
  assumes "wf_graph g" and "getChildren g n = Inr cs"
  shows "set cs = (edges g)\<^sup>+ `` {n}" and "distinct cs"
proof -
  from assms(2) obtain ds where d: "getDirectChildConnections g n = Inr ds" "getChildrenLoop g ds [] = Inr cs"
    by (auto simp: getChildren_def getChildrenRecursive_def rbind_eq_Inr)
  have "set cs = (edges g)\<^sup>* `` (to_node ` set ds)"
    using children.visit_reachable[OF d(2)] assms(1) by (simp add: children_succs)
  also have "to_node ` set ds = edges g `` {n}"
    using d(1) by (auto simp: set_child_connections edges_def)
  also have "(edges g)\<^sup>* `` (edges g `` {n}) = (edges g)\<^sup>+ `` {n}"
    by (auto simp: trancl_unfold_left)
  finally show "set cs = (edges g)\<^sup>+ `` {n}" .
  show "distinct cs" using children.visit_distinct[OF d(2)] by simp
qed

lemma getParentConnections_total:
  assumes "wf_graph g" and "n \<in> node_set g"
  shows "\<exists>cs. getParentConnections g n = Inr cs"
proof -
  have G: "\<exists>ds. getDirectParentConnections g (from_node c) = Inr ds \<and> id ` set ds \<subseteq> conn_set g"
    if "c \<in> conn_set g" for c
    using that assms(1) by (auto simp: wf_parent_connections wf_node_exists[symmetric] wf_conn_exists conn_set_def)
  have "id ` set (filter (\<lambda>c. to_node c = n) (map snd (connections g))) \<subseteq> conn_set g"
    by (auto simp: conn_set_def)
  from parents.visit_total[of "conn_set g" g _ "[]", OF G this] assms show ?thesis
    by (auto simp: getParentConnections_def wf_parent_connections)
qed

lemma getParentConnections_reach:
  assumes "wf_graph g" and "getParentConnections g n = Inr cs"
  shows "set cs = {c \<in> conn_set g. (to_node c, n) \<in> (edges g)\<^sup>*}" and "distinct cs"
proof -
  from assms(2) obtain ds where d: "getDirectParentConnections g n = Inr ds"
    and v: "getParentConnectionsLoop g ds [] = Inr cs"
    by (auto simp: getParentConnections_def rbind_eq_Inr)
  have cs: "set cs = (parents.succs g)\<^sup>* `` set ds" using parents.visit_reachable[OF v] by simp
  have ds: "set ds = {c \<in> conn_set g. to_node c = n}" using d by (rule set_parent_connections)
  show "set cs = {c \<in> conn_set g. (to_node c, n) \<in> (edges g)\<^sup>*}"
  proof (intro set_eqI iffI)
    fix c assume "c \<in> set cs"
    with parents_reach_conn[OF _ assms(1)] show "c \<in> {c \<in> conn_set g. (to_node c, n) \<in> (edges g)\<^sup>*}"
      unfolding cs ds by blast
  next
    fix c assume "c \<in> {c \<in> conn_set g. (to_node c, n) \<in> (edges g)\<^sup>*}"
    with reach_parents_conn[OF assms(1)] show "c \<in> set cs" unfolding cs ds by blast
  qed
  show "distinct cs" using parents.visit_distinct[OF v] by simp
qed

lemma search_succs_edges: "wf_graph g \<Longrightarrow> (m, n) \<in> search.succs g fn \<Longrightarrow> (m, n) \<in> edges g"
  by (auto simp: search.succs_def search_expand_def edges_def set_child_connections
      split: if_splits sum.splits)

lemma search_reach_edges:
  "wf_graph g \<Longrightarrow> (m, n) \<in> (search.succs g fn)\<^sup>* \<Longrightarrow> (m, n) \<in> (edges g)\<^sup>*"
  by (metis (no_types, lifting) rtrancl_mono search_succs_edges subrelI subsetD)

lemma depthFirstSearch_visit:
  "depthFirstSearch g n fn = Inr (Some m) \<Longrightarrow> search_visit g fn [n] [] = Inl (Inr m)"
  "depthFirstSearch g n fn = Inr None \<Longrightarrow> \<exists>seen. search_visit g fn [n] [] = Inr seen"
  "depthFirstSearch g n fn = Inl e \<Longrightarrow> search_visit g fn [n] [] = Inl (Inl e)"
  by (auto simp: depthFirstSearch_def search_visit_def rbind_eq_Inr rbind_eq_Inl
      simp del: depthFirstSearchLoop.simps split: option.splits)

lemma depthFirstSearch_Some:
  assumes "wf_graph g" and "depthFirstSearch g n fn = Inr (Some m)"
  shows "fn m" and "(n, m) \<in> (edges g)\<^sup>*"
proof -
  from search.visit_error[OF depthFirstSearch_visit(1)[OF assms(2)]]
  obtain k where k: "(n, k) \<in> (search.succs g fn)\<^sup>*" "search_expand g fn k = Inl (Inr m)" by auto
  from k(2) have "fn k" "m = k" by (auto simp: search_expand_def split: if_splits sum.splits)
  with k(1) assms(1) show "fn m" and "(n, m) \<in> (edges g)\<^sup>*" by (auto intro: search_reach_edges)
qed

lemma depthFirstSearch_None:
  assumes wf: "wf_graph g" and "depthFirstSearch g n fn = Inr None" and "(n, m) \<in> (edges g)\<^sup>*"
  shows "\<not> fn m"
proof -
  from depthFirstSearch_visit(2)[OF assms(2)] obtain seen where v: "search_visit g fn [n] [] = Inr seen"
    by blast
  have no: "\<not> fn k" if "k \<in> set seen" for k
    using search.visit_expanded[OF v that] by (auto simp: search_expand_def split: if_splits)
  have "m \<in> set seen" using assms(3)
  proof (induction rule: rtrancl_induct)
    case base
    then show ?case using search.visit_complete[OF v] by simp
  next
    case (step k l)
    from wf_edge_children[OF wf step(2)] no[OF step(3)] have "(k, l) \<in> search.succs g fn"
      by (auto simp: search.succs_def search_expand_def)
    from search.visit_closed[OF v step(3) _ this] show ?case by simp
  qed
  with no show ?thesis by blast
qed

lemma depthFirstSearch_total:
  assumes wf: "wf_graph g" and "n \<in> node_set g"
  shows "\<exists>r. depthFirstSearch g n fn = Inr r"
proof (rule ccontr)
  assume "\<not> ?thesis"
  then obtain e where "depthFirstSearch g n fn = Inl e" by (metis obj_sumE)
  from search.visit_error[OF depthFirstSearch_visit(3)[OF this]]
  obtain k where k: "(n, k) \<in> (search.succs g fn)\<^sup>*" "search_expand g fn k = Inl (Inl e)" by auto
  from search_reach_edges[OF wf k(1)] assms(2) wf_edges[OF wf] have "k \<in> node_set g"
    by (induction rule: rtrancl_induct) auto
  with k(2) wf show False
    by (auto simp: search_expand_def wf_child_connections split: if_splits)
qed

section \<open>The operations keep the invariant\<close>

lemma wf_empty_graph: "wf_graph empty_graph"
  by (simp add: wf_graph_def empty_graph_def)

lemma node_exists_addNode:
  "node_exists (addNode g n) m \<longleftrightarrow> (if node_name m = node_name n then m = n else node_exists g m)"
  by (auto simp: node_exists_def addNode_def)

lemma connections_addNode [simp]: "connections (addNode g n) = connections g"
  by (simp add: addNode_def)

lemma wf_addNode:
  assumes "wf_graph g" and "map_get (nodes g) (node_name n) \<in> {None, Some n}"
  shows "wf_graph (addNode g n)"
proof -
  have "node_exists (addNode g n) m" if "node_exists g m" for m
    using that assms(2) by (auto simp: node_exists_def addNode_def)
  with assms(1) show ?thesis
    by (auto simp: wf_graph_def addNode_def set_map_set)
qed

lemma nodes_set_connection [simp]: "nodes (set_connection c g) = nodes g"
  by (simp add: set_connection_def)

lemma node_exists_set_connection [simp]: "node_exists (set_connection c g) m = node_exists g m"
  by (simp add: node_exists_def)

lemma wf_set_connection:
  assumes "wf_graph g" and "node_exists g (from_node c)" and "node_exists g (to_node c)"
  shows "wf_graph (set_connection c g)"
  using assms by (auto simp: wf_graph_def set_map_set) (auto simp: set_connection_def set_map_set)

lemma addConnection_Inr:
  "addConnection g ci = Inr h \<longleftrightarrow>
     node_exists g (ci_from ci) \<and> node_exists g (ci_to ci) \<and> h = set_connection (connection_of_input ci) g"
  by (auto simp: addConnection_def assert_ok_Inr)

lemma connection_of_input_ends [simp]:
  "from_node (connection_of_input ci) = ci_from ci" "to_node (connection_of_input ci) = ci_to ci"
  by (simp_all add: connection_of_input_def)

lemma connection_of_input_of [simp]: "connection_of_input (input_of_connection c) = c"
  by (simp add: connection_of_input_def input_of_connection_def)

lemma input_of_connection_ends [simp]:
  "ci_from (input_of_connection c) = from_node c" "ci_to (input_of_connection c) = to_node c"
  by (simp_all add: input_of_connection_def)

lemma wf_addConnection: "wf_graph g \<Longrightarrow> addConnection g ci = Inr h \<Longrightarrow> wf_graph h"
  by (auto simp: addConnection_Inr intro: wf_set_connection)

lemma wf_addConnections: "wf_graph g \<Longrightarrow> addConnections g cis = Inr h \<Longrightarrow> wf_graph h"
  unfolding addConnections_def by (rule rfold_invariant) (auto intro: wf_addConnection)

lemma wf_fold_set_connection:
  assumes "wf_graph g" and "\<forall>c\<in>set cs. node_exists g (from_node c) \<and> node_exists g (to_node c)"
  shows "wf_graph (fold set_connection cs g) \<and> nodes (fold set_connection cs g) = nodes g"
  using assms by (induction cs arbitrary: g) (auto simp: wf_set_connection)

lemma wf_drop_connections_of: "wf_graph g \<Longrightarrow> wf_graph (drop_connections_of n g)"
  by (auto simp: wf_graph_def drop_connections_of_def node_exists_def)

lemma conn_set_drop: "conn_set (drop_connections_of n g) = {c \<in> conn_set g. \<not> touches n c}"
  by (force simp: conn_set_def drop_connections_of_def)

lemma nodes_drop [simp]: "nodes (drop_connections_of n g) = nodes g"
  by (simp add: drop_connections_of_def)

lemma wf_delete_node:
  assumes "wf_graph g" and "n \<in> node_set g" and "\<forall>c\<in>conn_set g. \<not> touches n c"
  shows "wf_graph (g\<lparr>nodes := map_delete (node_name n) (nodes g)\<rparr>)" (is "wf_graph ?h")
proof -
  have "node_exists ?h m" if m: "node_exists g m" "m \<noteq> n" for m
  proof -
    have "node_exists g n" using assms(1,2) by (simp add: wf_node_exists)
    with m have "node_name m \<noteq> node_name n" by (auto simp: node_exists_def)
    with m show ?thesis by (simp add: node_exists_def)
  qed
  moreover have "from_node c \<noteq> n \<and> to_node c \<noteq> n" if "(k, c) \<in> set (connections g)" for k c
    using that assms(3) by (force simp: conn_set_def touches_def)
  ultimately show ?thesis
    using assms(1) by (fastforce simp: wf_graph_def set_map_delete)
qed

lemma set_rewired:
  "c \<in> set (rewired_connections skip ins outs) \<longleftrightarrow>
     (\<exists>i o'. i \<in> set ins \<and> \<not> skip i \<and> o' \<in> set outs \<and> \<not> skip o'
        \<and> c = i\<lparr>to_node := to_node o', inputIndex := inputIndex o'\<rparr>)"
  by (auto simp: rewired_connections_def)

text \<open>The graph after \<open>removeNode\<close>, as a function of the incoming and outgoing connections.\<close>

lemma removeNode_plain:
  "removeNode g n False skip =
     Inr ((drop_connections_of n g)\<lparr>nodes := map_delete (node_name n) (nodes g)\<rparr>, None)"
  by (simp add: removeNode_def Let_def)

lemma removeNode_reconnect:
  assumes "wf_graph g" and "n \<in> node_set g"
  shows "removeNode g n True skip =
    (let new = rewired_connections skip (filter (\<lambda>c. to_node c = n) (map snd (connections g)))
                 (filter (\<lambda>c. from_node c = n) (map snd (connections g)))
     in Inr ((fold set_connection new (drop_connections_of n g))\<lparr>nodes := map_delete (node_name n) (nodes g)\<rparr>,
             Some new))"
proof -
  have "nodes (fold set_connection cs h) = nodes h" for cs h
    by (induction cs arbitrary: h) auto
  with assms show ?thesis
    by (simp add: removeNode_def wf_parent_connections wf_child_connections Let_def)
qed

lemma set_connection_values:
  "conn_set (set_connection c g) \<subseteq> insert c (conn_set g)"
  using map_values_set_subset[of "makeKey c" c "connections g"]
  by (simp add: conn_set_def set_connection_def)

lemma conn_set_fold_set_connection: "conn_set (fold set_connection cs g) \<subseteq> set cs \<union> conn_set g"
  using set_connection_values by (induction cs arbitrary: g) fastforce+

lemma wf_removeNode_plain:
  assumes "wf_graph g" and "n \<in> node_set g" and "removeNode g n False skip = Inr (h, r)"
  shows "wf_graph h"
proof -
  have "wf_graph (drop_connections_of n g)" using assms(1) by (rule wf_drop_connections_of)
  moreover have "n \<in> node_set (drop_connections_of n g)" using assms(2) by (simp add: node_set_def)
  moreover have "\<forall>c\<in>conn_set (drop_connections_of n g). \<not> touches n c" by (simp add: conn_set_drop)
  ultimately show ?thesis
    using wf_delete_node[of "drop_connections_of n g" n] assms(3) by (simp add: removeNode_plain)
qed

lemma rewired_ends:
  assumes "wf_graph g" and "c \<in> set (rewired_connections skip
      (filter (\<lambda>c. to_node c = n) (map snd (connections g)))
      (filter (\<lambda>c. from_node c = n) (map snd (connections g))))"
    and "\<forall>c\<in>conn_set g. from_node c = n \<and> to_node c = n \<longrightarrow> skip c"
  shows "node_exists g (from_node c)" and "node_exists g (to_node c)" and "\<not> touches n c"
proof -
  from assms(2) obtain i o' where i: "i \<in> conn_set g" "to_node i = n" "\<not> skip i"
    and o': "o' \<in> conn_set g" "from_node o' = n" "\<not> skip o'"
    and c: "c = i\<lparr>to_node := to_node o', inputIndex := inputIndex o'\<rparr>"
    by (auto simp: set_rewired conn_set_def)
  from i o' assms(3) have "from_node i \<noteq> n" "to_node o' \<noteq> n" by blast+
  with c show "\<not> touches n c" by (simp add: touches_def)
  from c i o' assms(1) show "node_exists g (from_node c)" and "node_exists g (to_node c)"
    by (simp_all add: wf_conn_exists)
qed

lemma wf_removeNode_reconnect:
  assumes "wf_graph g" and "n \<in> node_set g" and "removeNode g n True skip = Inr (h, r)"
    and loop: "\<forall>c\<in>conn_set g. from_node c = n \<and> to_node c = n \<longrightarrow> skip c"
  shows "wf_graph h"
proof -
  let ?new = "rewired_connections skip (filter (\<lambda>c. to_node c = n) (map snd (connections g)))
                 (filter (\<lambda>c. from_node c = n) (map snd (connections g)))"
  let ?d = "drop_connections_of n g"
  let ?g2 = "fold set_connection ?new ?d"
  note ends = rewired_ends[OF assms(1) _ loop]
  have "\<forall>c\<in>set ?new. node_exists ?d (from_node c) \<and> node_exists ?d (to_node c)"
    using ends by (auto simp: node_exists_def)
  with wf_fold_set_connection[OF wf_drop_connections_of[OF assms(1)], of ?new n]
  have wf2: "wf_graph ?g2" and n2: "nodes ?g2 = nodes g" by auto
  have "\<forall>c\<in>conn_set ?g2. \<not> touches n c"
    using conn_set_fold_set_connection[of ?new ?d] ends(3) by (auto simp: conn_set_drop)
  with wf_delete_node[OF wf2, of n] assms(2) have "wf_graph (?g2\<lparr>nodes := map_delete (node_name n) (nodes g)\<rparr>)"
    by (simp add: node_set_def n2)
  with assms show ?thesis by (simp add: removeNode_reconnect Let_def)
qed

section \<open>Copies and keys\<close>

lemma nodes_addNodes:
  "nodes (addNodes g ns) = fold (\<lambda>n. map_set (node_name n) n) ns (nodes g)"
  "connections (addNodes g ns) = connections g"
  by (induction ns arbitrary: g) (simp_all add: addNodes_def addNode_def)

lemma fold_named:
  "\<forall>(k, v)\<in>set m. k = key v \<Longrightarrow> fold (\<lambda>v. map_set (key v) v) (map snd m) acc = fold (\<lambda>(k, v). map_set k v) m acc"
  by (induction m arbitrary: acc) auto

lemma addConnections_existing:
  assumes "\<forall>c\<in>set cs. node_exists g (from_node c) \<and> node_exists g (to_node c)"
  shows "addConnections g (map input_of_connection cs) = Inr (fold set_connection cs g)"
  using assms
proof (induction cs arbitrary: g)
  case Nil
  then show ?case by (simp add: addConnections_def)
next
  case (Cons c cs)
  then have "addConnection g (input_of_connection c) = Inr (set_connection c g)"
    by (simp add: addConnection_Inr)
  with Cons show ?case by (simp add: addConnections_def)
qed

lemma connections_fold_set_connection:
  "connections (fold set_connection cs g) = fold (\<lambda>c. map_set (makeKey c) c) cs (connections g)"
  "nodes (fold set_connection cs g) = nodes g"
  by (induction cs arbitrary: g) (simp_all add: set_connection_def)

lemma clone_id:
  assumes "wf_graph g"
  shows "clone g = Inr g"
proof -
  let ?h = "addNodes empty_graph (map snd (nodes g))"
  from assms have n: "nodes ?h = nodes g"
    using fold_named[of "nodes g" node_name "[]"] fold_map_set_id[of "[]" "nodes g"]
    by (simp add: nodes_addNodes empty_graph_def wf_graph_def)
  from assms have c: "fold (\<lambda>c. map_set (makeKey c) c) (map snd (connections g)) [] = connections g"
    using fold_named[of "connections g" makeKey "[]"] fold_map_set_id[of "[]" "connections g"]
    by (force simp: wf_graph_def)
  have "\<forall>c\<in>set (map snd (connections g)). node_exists ?h (from_node c) \<and> node_exists ?h (to_node c)"
    using wf_conn_exists[OF assms] by (auto simp: node_exists_def n conn_set_def)
  then have "clone g = Inr (fold set_connection (map snd (connections g)) ?h)"
    using addConnections_existing[of "map snd (connections g)" ?h]
    by (simp add: clone_def getNodes_def getConnections_def)
  also have "fold set_connection (map snd (connections g)) ?h = g"
    using n c by (intro DirectedGraph.equality)
      (simp_all add: connections_fold_set_connection nodes_addNodes empty_graph_def)
  finally show ?thesis .
qed

text \<open>A dash-free prefix can be read back from a key.\<close>

lemma dash_split:
  "CHR ''-'' \<notin> set a \<Longrightarrow> CHR ''-'' \<notin> set b \<Longrightarrow>
     a @ CHR ''-'' # x = b @ CHR ''-'' # y \<longleftrightarrow> a = b \<and> x = y"
proof (induction a arbitrary: b)
  case Nil
  then show ?case by (cases b) auto
next
  case (Cons c a)
  then show ?case by (cases b) auto
qed

lemma nat_to_string_no_dash [simp]: "CHR ''-'' \<notin> set (nat_to_string n)"
  using nat_to_string_digits[of "CHR ''-''" n] by auto

lemma makeKey_inject:
  assumes "CHR ''-'' \<notin> set (node_name (from_node c))" and "CHR ''-'' \<notin> set (node_name (from_node d))"
  shows "makeKey c = makeKey d \<longleftrightarrow>
     node_name (from_node c) = node_name (from_node d) \<and> gc_type c = gc_type d
     \<and> outputIndex c = outputIndex d \<and> inputIndex c = inputIndex d
     \<and> node_name (to_node c) = node_name (to_node d)"
  using assms by (simp add: makeKey_def dash_split)

text \<open>The connections that can be drawn in a graph have distinct keys when no node name holds
  a dash; in general they need not.\<close>

definition keys_unambiguous :: "DirectedGraph \<Rightarrow> bool" where
  "keys_unambiguous g \<longleftrightarrow> inj_on makeKey {c. from_node c \<in> node_set g \<and> to_node c \<in> node_set g}"

lemma keys_unambiguous_dash_free:
  assumes "wf_graph g" and "\<forall>n\<in>node_set g. CHR ''-'' \<notin> set (node_name n)"
  shows "keys_unambiguous g"
  unfolding keys_unambiguous_def
proof (rule inj_onI)
  fix c d :: GraphConnection
  assume c: "c \<in> {c. from_node c \<in> node_set g \<and> to_node c \<in> node_set g}"
    and d: "d \<in> {c. from_node c \<in> node_set g \<and> to_node c \<in> node_set g}"
    and k: "makeKey c = makeKey d"
  have same: "m = n" if "m \<in> node_set g" "n \<in> node_set g" "node_name m = node_name n" for m n
    using that assms(1) by (auto simp: wf_node_exists[symmetric] node_exists_def)
  from k c d assms(2) have "node_name (from_node c) = node_name (from_node d) \<and> gc_type c = gc_type d
     \<and> outputIndex c = outputIndex d \<and> inputIndex c = inputIndex d
     \<and> node_name (to_node c) = node_name (to_node d)"
    by (subst (asm) makeKey_inject) auto
  with c d same show "c = d" by (auto intro!: GraphConnection.equality)
qed

lemma conn_set_set_connection:
  assumes "wf_graph g" and "keys_unambiguous g" and "from_node c \<in> node_set g" and "to_node c \<in> node_set g"
  shows "conn_set (set_connection c g) = insert c (conn_set g)"
proof -
  have "d = c" if "(makeKey c, d) \<in> set (connections g)" for d
  proof -
    from wf_conn_key[OF assms(1) that] have k: "makeKey d = makeKey c" by simp
    from that have "d \<in> conn_set g" by (force simp: conn_set_def)
    with assms(1) have "from_node d \<in> node_set g" "to_node d \<in> node_set g"
      by (simp_all add: wf_node_exists[symmetric] wf_conn_exists)
    with k assms show "d = c" by (auto simp: keys_unambiguous_def dest: inj_onD)
  qed
  moreover have "map_wf (connections g)" using assms(1) by (simp add: wf_graph_def)
  ultimately show ?thesis
    by (force simp: conn_set_def set_connection_def set_map_set)
qed

lemma conn_set_fold_set_connection_eq:
  assumes "wf_graph g" and "keys_unambiguous g"
    and "\<forall>c\<in>set cs. from_node c \<in> node_set g \<and> to_node c \<in> node_set g"
  shows "conn_set (fold set_connection cs g) = set cs \<union> conn_set g"
  using assms
proof (induction cs arbitrary: g)
  case Nil
  then show ?case by simp
next
  case (Cons c cs)
  have "node_set (set_connection c g) = node_set g" by (simp add: node_set_def)
  with Cons show ?case
    by (simp add: conn_set_set_connection wf_set_connection wf_node_exists keys_unambiguous_def)
qed

section \<open>Sample graphs\<close>

definition sample_conn :: "INode \<Rightarrow> INode \<Rightarrow> GraphConnection" where
  "sample_conn a b = \<lparr>from_node = a, to_node = b, gc_type = Main, outputIndex = 0, inputIndex = 0\<rparr>"

definition sample_graph :: "INode list \<Rightarrow> GraphConnection list \<Rightarrow> DirectedGraph" where
  "sample_graph ns cs =
     \<lparr>nodes = map (\<lambda>n. (node_name n, n)) ns, connections = map (\<lambda>c. (makeKey c, c)) cs\<rparr>"

section \<open>Properties\<close>

definition chain3 :: DirectedGraph where
  "chain3 = (let t = sample_node 0 ''trigger''; a = sample_node 1 ''a''; b = sample_node 2 ''b''
     in sample_graph [t, a, b] [sample_conn t a, sample_conn a b])"

lemma chain3_wf: "wf_graph chain3"
  by code_simp

lemma chain3_node: "sample_node 1 ''a'' \<in> node_set chain3"
  by code_simp

text \<open>\<^bold>\<open>C23.\<close> \<open>getChildren\<close> on a well-formed graph returns, without duplicates, exactly the
  nodes that can be reached from the given node over at least one connection; a node on a cycle
  is its own child.\<close>

theorem getChildren_correct:
  assumes "wf_graph g" and "n \<in> node_set g"
  shows "\<exists>cs. getChildren g n = Inr cs \<and> distinct cs \<and> set cs = {m. (n, m) \<in> (edges g)\<^sup>+}"
proof -
  from getChildren_total[OF assms] obtain cs where cs: "getChildren g n = Inr cs" by blast
  from getChildren_reach[OF assms(1) cs] cs show ?thesis by auto
qed

theorem getChildren_correct_witness:
  "wf_graph chain3 \<and> sample_node 1 ''a'' \<in> node_set chain3
   \<and> (\<exists>cs. getChildren chain3 (sample_node 1 ''a'') = Inr cs \<and> distinct cs
        \<and> set cs = {m. (sample_node 1 ''a'', m) \<in> (edges chain3)\<^sup>+})"
  using getChildren_correct[OF chain3_wf chain3_node] chain3_wf chain3_node by blast

text \<open>\<open>getParentConnections\<close> on a well-formed graph returns, without duplicates,
  exactly the connections that lie on some path to the given node: those whose target reaches it.\<close>

theorem getParentConnections_correct:
  assumes "wf_graph g" and "n \<in> node_set g"
  shows "\<exists>cs. getParentConnections g n = Inr cs \<and> distinct cs
           \<and> set cs = {c \<in> conn_set g. (to_node c, n) \<in> (edges g)\<^sup>*}"
proof -
  from getParentConnections_total[OF assms] obtain cs where cs: "getParentConnections g n = Inr cs" by blast
  from getParentConnections_reach[OF assms(1) cs] cs show ?thesis by auto
qed

theorem getParentConnections_correct_witness:
  "wf_graph chain3 \<and> sample_node 1 ''a'' \<in> node_set chain3
   \<and> (\<exists>cs. getParentConnections chain3 (sample_node 1 ''a'') = Inr cs \<and> distinct cs
        \<and> set cs = {c \<in> conn_set chain3. (to_node c, sample_node 1 ''a'') \<in> (edges chain3)\<^sup>*})"
  using getParentConnections_correct[OF chain3_wf chain3_node] chain3_wf chain3_node by blast

text \<open>\<open>depthFirstSearch\<close> on a well-formed graph returns a reachable node that satisfies
  the predicate when there is one, and \<open>undefined\<close> exactly when no reachable node (the start
  included) satisfies it.\<close>

theorem depthFirstSearch_correct:
  assumes "wf_graph g" and "n \<in> node_set g"
  shows "\<exists>r. depthFirstSearch g n fn = Inr r
     \<and> (case r of Some m \<Rightarrow> fn m \<and> (n, m) \<in> (edges g)\<^sup>*
        | None \<Rightarrow> \<not> (\<exists>m. (n, m) \<in> (edges g)\<^sup>* \<and> fn m))"
proof -
  from depthFirstSearch_total[OF assms] obtain r where r: "depthFirstSearch g n fn = Inr r" by blast
  show ?thesis
  proof (cases r)
    case None
    with r depthFirstSearch_None[OF assms(1)] show ?thesis by auto
  next
    case (Some m)
    with r depthFirstSearch_Some[OF assms(1)] show ?thesis by auto
  qed
qed

theorem depthFirstSearch_correct_witness:
  "wf_graph chain3 \<and> sample_node 1 ''a'' \<in> node_set chain3
   \<and> (\<exists>r. depthFirstSearch chain3 (sample_node 1 ''a'') (\<lambda>n. node_name n = ''b'') = Inr r
        \<and> (case r of Some m \<Rightarrow> node_name m = ''b'' \<and> (sample_node 1 ''a'', m) \<in> (edges chain3)\<^sup>*
           | None \<Rightarrow> \<not> (\<exists>m. (sample_node 1 ''a'', m) \<in> (edges chain3)\<^sup>* \<and> node_name m = ''b'')))"
  using depthFirstSearch_correct[OF chain3_wf chain3_node, of "\<lambda>n. node_name n = ''b''"] chain3_wf chain3_node
  by blast

text \<open>Removing a node keeps the graph well formed, with and without reconnecting its
  neighbours, provided that a node that is reconnected has no unskipped connection to itself.
  The removed node is gone and no connection touches it.\<close>

theorem removeNode_keeps_wf:
  assumes "wf_graph g" and "n \<in> node_set g" and "removeNode g n reconnect skip = Inr (h, r)"
    and "reconnect \<longrightarrow> (\<forall>c\<in>conn_set g. from_node c = n \<and> to_node c = n \<longrightarrow> skip c)"
  shows "wf_graph h \<and> \<not> hasNode h (node_name n) \<and> (\<forall>c\<in>conn_set h. \<not> touches n c)"
proof -
  have wf: "wf_graph h"
  proof (cases reconnect)
    case True
    with assms(3,4) have "removeNode g n True skip = Inr (h, r)"
      and "\<forall>c\<in>conn_set g. from_node c = n \<and> to_node c = n \<longrightarrow> skip c" by simp_all
    then show ?thesis by (rule wf_removeNode_reconnect[OF assms(1,2)])
  next
    case False
    with assms(3) wf_removeNode_plain[OF assms(1,2)] show ?thesis by simp
  qed
  have nodes: "nodes h = map_delete (node_name n) (nodes g)"
    using assms(3) by (cases reconnect)
      (auto simp: removeNode_plain removeNode_reconnect[OF assms(1,2)] Let_def)
  then have "\<not> node_exists h n" by (simp add: node_exists_def)
  with wf_conn_exists[OF wf] have "\<forall>c\<in>conn_set h. \<not> touches n c" by (auto simp: touches_def)
  with wf nodes show ?thesis by (simp add: hasNode_def)
qed

theorem removeNode_keeps_wf_witness:
  "\<exists>h r. removeNode chain3 (sample_node 1 ''a'') True (\<lambda>_. False) = Inr (h, r)
     \<and> wf_graph h \<and> \<not> hasNode h ''a'' \<and> {c \<in> conn_set h. touches (sample_node 1 ''a'') c} = {}"
proof -
  have l: "\<forall>c\<in>conn_set chain3. from_node c = sample_node 1 ''a'' \<and> to_node c = sample_node 1 ''a'' \<longrightarrow> False"
    by code_simp
  obtain h r where e: "removeNode chain3 (sample_node 1 ''a'') True (\<lambda>_. False) = Inr (h, r)"
    using removeNode_reconnect[OF chain3_wf chain3_node, of "\<lambda>_. False"] by (simp add: Let_def)
  have "node_name (sample_node 1 ''a'') = ''a''" by (simp add: sample_node_def)
  with removeNode_keeps_wf[OF chain3_wf chain3_node e] l e show ?thesis by auto
qed

definition self_loop_graph :: DirectedGraph where
  "self_loop_graph = (let t = sample_node 0 ''trigger''; a = sample_node 1 ''a''
     in sample_graph [t, a] [sample_conn t a, sample_conn a a])"

text \<open>With a connection from a node to itself, removing and reconnecting that node leaves
  connections that end in the removed node: the graph is no longer well formed, and asking for
  the children of the remaining parent fails an assertion.\<close>

theorem removeNode_self_loop_dangles:
  "wf_graph self_loop_graph \<and>
   (case removeNode self_loop_graph (sample_node 1 ''a'') True (\<lambda>c. gc_type c \<noteq> Main) of
      Inl _ \<Rightarrow> False
    | Inr (h, _) \<Rightarrow> \<not> wf_graph h \<and> getChildren h (sample_node 0 ''trigger'') = Inl AssertionError)"
  by (intro conjI; code_simp)

text \<open>\<open>addConnection\<close> fails its assertion exactly when an endpoint is not the node
  object stored under its name; otherwise the graph stays well formed, keeps its nodes and the
  new connection can be read back with \<open>getConnection\<close>.\<close>

theorem addConnection_correct:
  assumes "wf_graph g"
  shows "if node_exists g (ci_from ci) \<and> node_exists g (ci_to ci)
         then \<exists>h. addConnection g ci = Inr h \<and> wf_graph h \<and> nodes h = nodes g
                \<and> (let c = connection_of_input ci
                   in getConnection h (from_node c) (outputIndex c) (gc_type c) (inputIndex c) (to_node c) = Some c)
         else addConnection g ci = Inl AssertionError"
proof (cases "node_exists g (ci_from ci) \<and> node_exists g (ci_to ci)")
  case True
  then have "addConnection g ci = Inr (set_connection (connection_of_input ci) g)"
    by (simp add: addConnection_Inr)
  with assms True show ?thesis
    by (simp add: wf_set_connection getConnection_def Let_def)
      (simp add: set_connection_def makeKey_def)
next
  case False
  then show ?thesis by (auto simp: addConnection_def assert_ok_def)
qed

theorem addConnection_correct_witness:
  "wf_graph chain3 \<and>
   (let t = sample_node 0 ''trigger''; b = sample_node 2 ''b'';
        ci = \<lparr>ci_from = t, ci_to = b, ci_type = None, ci_outputIndex = Some 1, ci_inputIndex = None\<rparr>
    in \<exists>h. addConnection chain3 ci = Inr h \<and> wf_graph h \<and> nodes h = nodes chain3
         \<and> getConnection h t 1 Main 0 b = Some (connection_of_input ci))"
proof -
  let ?ci = "\<lparr>ci_from = sample_node 0 ''trigger'', ci_to = sample_node 2 ''b'', ci_type = None,
               ci_outputIndex = Some 1, ci_inputIndex = None\<rparr>"
  have "node_exists chain3 (ci_from ?ci) \<and> node_exists chain3 (ci_to ?ci)" by code_simp
  with addConnection_correct[OF chain3_wf, of ?ci] chain3_wf show ?thesis
    by (simp add: Let_def connection_of_input_def)
qed

text \<open>\<open>clone\<close> of a well-formed graph returns an equal graph: the same nodes and the same
  connections, in the same order.\<close>

theorem clone_roundtrip: "wf_graph g \<Longrightarrow> clone g = Inr g"
  by (rule clone_id)

theorem clone_roundtrip_witness: "wf_graph chain3 \<and> clone chain3 = Inr chain3"
  using clone_roundtrip[OF chain3_wf] chain3_wf by blast

definition dash_graph :: DirectedGraph where
  "dash_graph = sample_graph
     [sample_node 0 ''a'', sample_node 1 ''b-main-0-0-c'', sample_node 2 ''a-main-0-0-b'', sample_node 3 ''c'']
     [sample_conn (sample_node 0 ''a'') (sample_node 1 ''b-main-0-0-c'')]"

text \<open>Connection keys are ambiguous when node names contain dashes: the connection from
  \<open>a\<close> to \<open>b-main-0-0-c\<close> and the one from \<open>a-main-0-0-b\<close> to \<open>c\<close> have the same key, so
  adding the second silently drops the first.\<close>

theorem makeKey_collision:
  "wf_graph dash_graph
   \<and> (let c = sample_conn (sample_node 0 ''a'') (sample_node 1 ''b-main-0-0-c'');
          d = sample_conn (sample_node 2 ''a-main-0-0-b'') (sample_node 3 ''c'')
      in c \<noteq> d \<and> makeKey c = makeKey d
         \<and> getConnections dash_graph None = [c]
         \<and> (case addConnection dash_graph (input_of_connection d) of
              Inl _ \<Rightarrow> False | Inr h \<Rightarrow> getConnections h None = [d]))"
  by (intro conjI; code_simp)

end
