(* ===== verification/Subgraph.thy ===== *)
theory Subgraph
  imports Directed_Graph
begin

text \<open>
  The graph transformations a partial execution starts with, from
  \<^verbatim>\<open>packages/core/src/execution-engine/partial-execution-utils/\<close>:
  \<^verbatim>\<open>filter-disabled-nodes.ts\<close> (take the disabled nodes out and join their neighbours) and
  \<^verbatim>\<open>find-subgraph.ts\<close> (keep what lies between the trigger and the destination).
\<close>

section \<open>Disabled nodes\<close>

definition not_main :: "GraphConnection \<Rightarrow> bool" where
  "not_main c = (gc_type c \<noteq> Main)"

definition filterDisabledNodes :: "DirectedGraph \<Rightarrow> DirectedGraph result" where
  "filterDisabledNodes graph =
     rbind (clone graph) (\<lambda>filteredGraph.
       rfold (\<lambda>node h. if is_disabled node
                       then rbind (removeNode h node True not_main) (\<lambda>(h', _). Inr h')
                       else Inr h)
         (map_values (getNodes filteredGraph)) filteredGraph)"

text \<open>The relation of the \<open>Main\<close> connections, and paths whose inner nodes are in \<open>R\<close>.\<close>

definition main_edges :: "DirectedGraph \<Rightarrow> (INode \<times> INode) set" where
  "main_edges g = {(from_node c, to_node c) | c. c \<in> conn_set g \<and> gc_type c = Main}"

lemma main_edgesI: "c \<in> conn_set g \<Longrightarrow> gc_type c = Main \<Longrightarrow> (from_node c, to_node c) \<in> main_edges g"
  by (auto simp: main_edges_def)

lemma main_edgesE:
  assumes "(a, b) \<in> main_edges g"
  obtains c where "c \<in> conn_set g" and "gc_type c = Main" and "from_node c = a" and "to_node c = b"
  using assms by (auto simp: main_edges_def)

lemma conn_set_nodes_update [simp]: "conn_set (g\<lparr>nodes := x\<rparr>) = conn_set g"
  by (simp add: conn_set_def)

inductive via :: "('n \<times> 'n) set \<Rightarrow> 'n set \<Rightarrow> 'n \<Rightarrow> 'n \<Rightarrow> bool" for E R where
  direct: "(a, b) \<in> E \<Longrightarrow> via E R a b"
| step: "via E R a c \<Longrightarrow> c \<in> R \<Longrightarrow> (c, b) \<in> E \<Longrightarrow> via E R a b"

lemma via_mono: "via E R a b \<Longrightarrow> R \<subseteq> S \<Longrightarrow> via E S a b"
  by (induction rule: via.induct) (auto intro: via.intros)

lemma via_empty: "via E {} a b \<longleftrightarrow> (a, b) \<in> E"
  by (auto elim: via.cases intro: via.direct)

lemma via_join: "via E R n b \<Longrightarrow> via E R a n \<Longrightarrow> n \<in> R \<Longrightarrow> via E R a b"
  by (induction rule: via.induct) (auto intro: via.step)

lemma via_insert:
  "via E (insert n R) a b \<longleftrightarrow> via E R a b \<or> (via E R a n \<and> via E R n b)"
proof
  show "via E (insert n R) a b \<Longrightarrow> via E R a b \<or> (via E R a n \<and> via E R n b)"
    by (induction rule: via.induct) (auto intro: via.intros)
next
  assume "via E R a b \<or> (via E R a n \<and> via E R n b)"
  then show "via E (insert n R) a b"
    by (auto intro: via_mono via_join[of E "insert n R" n b a])
qed

lemma via_trancl: "via E R a b \<Longrightarrow> a \<in> R \<Longrightarrow> b \<in> R \<Longrightarrow> (a, b) \<in> (E \<inter> R \<times> R)\<^sup>+"
proof (induction rule: via.induct)
  case (direct a b)
  then show ?case by auto
next
  case (step a c b)
  then show ?case by (auto intro: trancl_into_trancl)
qed

text \<open>One removal, on the sets of nodes and connections.\<close>

lemma removeNode_sets:
  assumes wf: "wf_graph g" and key: "keys_unambiguous g" and n: "n \<in> node_set g"
    and loop: "(n, n) \<notin> main_edges g"
  shows "\<exists>h new. removeNode g n True not_main = Inr (h, Some new) \<and> wf_graph h
           \<and> node_set h = node_set g - {n}
           \<and> conn_set h = {c \<in> conn_set g. \<not> touches n c} \<union> set new
           \<and> set new = {i\<lparr>to_node := to_node o', inputIndex := inputIndex o'\<rparr> | i o'.
                i \<in> conn_set g \<and> to_node i = n \<and> gc_type i = Main
                \<and> o' \<in> conn_set g \<and> from_node o' = n \<and> gc_type o' = Main}"
proof -
  let ?new = "rewired_connections not_main (filter (\<lambda>c. to_node c = n) (map snd (connections g)))
                (filter (\<lambda>c. from_node c = n) (map snd (connections g)))"
  let ?d = "drop_connections_of n g"
  let ?h = "(fold set_connection ?new ?d)\<lparr>nodes := map_delete (node_name n) (nodes g)\<rparr>"
  have e: "removeNode g n True not_main = Inr (?h, Some ?new)"
    using removeNode_reconnect[OF wf n] by (simp add: Let_def)
  have skip: "\<forall>c\<in>conn_set g. from_node c = n \<and> to_node c = n \<longrightarrow> not_main c"
    using loop by (auto simp: main_edges_def not_main_def)
  note ends = rewired_ends[OF wf _ skip]
  have wfh: "wf_graph ?h" using wf_removeNode_reconnect[OF wf n e skip] .
  have same: "node_set ?d = node_set g" by (simp add: node_set_def)
  then have "keys_unambiguous ?d" using key by (simp add: keys_unambiguous_def)
  moreover have "\<forall>c\<in>set ?new. from_node c \<in> node_set ?d \<and> to_node c \<in> node_set ?d"
    using ends(1,2) by (auto simp: same wf_node_exists[OF wf])
  ultimately have "conn_set (fold set_connection ?new ?d) = set ?new \<union> conn_set ?d"
    by (intro conn_set_fold_set_connection_eq wf_drop_connections_of[OF wf])
  then have c: "conn_set ?h = {c \<in> conn_set g. \<not> touches n c} \<union> set ?new"
    by (simp add: conn_set_drop Un_commute)
  have ns: "node_set ?h = node_set g - {n}"
  proof (intro set_eqI iffI)
    fix m assume "m \<in> node_set ?h"
    then have "node_exists ?h m" using wfh by (simp add: wf_node_exists)
    then have "node_exists g m" "node_name m \<noteq> node_name n"
      by (auto simp: node_exists_def split: if_splits)
    then show "m \<in> node_set g - {n}" using wf by (auto simp: wf_node_exists)
  next
    fix m assume m: "m \<in> node_set g - {n}"
    with n wf have "node_name m \<noteq> node_name n"
      by (auto simp: wf_node_exists[symmetric] node_exists_def)
    with m wf have "node_exists ?h m" by (auto simp: wf_node_exists[symmetric] node_exists_def)
    then show "m \<in> node_set ?h" by (rule node_exists_node_set)
  qed
  have "set ?new = {i\<lparr>to_node := to_node o', inputIndex := inputIndex o'\<rparr> | i o'.
                i \<in> conn_set g \<and> to_node i = n \<and> gc_type i = Main
                \<and> o' \<in> conn_set g \<and> from_node o' = n \<and> gc_type o' = Main}"
  proof (rule set_eqI)
    fix c
    have sets: "i \<in> set (filter (\<lambda>c. P c = n) (map snd (connections g))) \<longleftrightarrow> i \<in> conn_set g \<and> P i = n"
      for i and P :: "GraphConnection \<Rightarrow> INode"
      by (simp add: conn_set_def conj_commute)
    show "c \<in> set ?new \<longleftrightarrow> c \<in> {i\<lparr>to_node := to_node o', inputIndex := inputIndex o'\<rparr> | i o'.
                i \<in> conn_set g \<and> to_node i = n \<and> gc_type i = Main
                \<and> o' \<in> conn_set g \<and> from_node o' = n \<and> gc_type o' = Main}"
      unfolding set_rewired sets not_main_def by blast
  qed
  with e wfh ns c show ?thesis by blast
qed

lemma removeNode_main_edges:
  assumes "conn_set h = {c \<in> conn_set g. \<not> touches n c} \<union> new"
    and "new = {i\<lparr>to_node := to_node o', inputIndex := inputIndex o'\<rparr> | i o'.
                i \<in> conn_set g \<and> to_node i = n \<and> gc_type i = Main
                \<and> o' \<in> conn_set g \<and> from_node o' = n \<and> gc_type o' = Main}"
    and "(n, n) \<notin> main_edges g"
  shows "(a, b) \<in> main_edges h \<longleftrightarrow>
     a \<noteq> n \<and> b \<noteq> n \<and> ((a, b) \<in> main_edges g \<or> (a, n) \<in> main_edges g \<and> (n, b) \<in> main_edges g)"
proof
  assume "(a, b) \<in> main_edges h"
  then obtain c where c: "c \<in> conn_set h" "gc_type c = Main" "a = from_node c" "b = to_node c"
    by (auto simp: main_edges_def)
  show "a \<noteq> n \<and> b \<noteq> n \<and> ((a, b) \<in> main_edges g \<or> (a, n) \<in> main_edges g \<and> (n, b) \<in> main_edges g)"
  proof (cases "c \<in> new")
    case True
    then obtain i o' where i: "i \<in> conn_set g" "to_node i = n" "gc_type i = Main"
      and o': "o' \<in> conn_set g" "from_node o' = n" "gc_type o' = Main"
      and "c = i\<lparr>to_node := to_node o', inputIndex := inputIndex o'\<rparr>" by (auto simp: assms(2))
    with c have ab: "a = from_node i" "b = to_node o'" by simp_all
    from i o' have e: "(from_node i, n) \<in> main_edges g" "(n, to_node o') \<in> main_edges g"
      using main_edgesI[of i g] main_edgesI[of o' g] by simp_all
    with ab assms(3) show ?thesis by auto
  next
    case False
    with c assms(1) have "c \<in> conn_set g" "\<not> touches n c" by auto
    with c show ?thesis by (auto simp: main_edges_def touches_def)
  qed
next
  assume A: "a \<noteq> n \<and> b \<noteq> n \<and> ((a, b) \<in> main_edges g \<or> (a, n) \<in> main_edges g \<and> (n, b) \<in> main_edges g)"
  then consider "(a, b) \<in> main_edges g" | "(a, n) \<in> main_edges g" "(n, b) \<in> main_edges g" by blast
  then show "(a, b) \<in> main_edges h"
  proof cases
    case 1
    then obtain c where "c \<in> conn_set g" "gc_type c = Main" "a = from_node c" "b = to_node c"
      by (auto simp: main_edges_def)
    with A assms(1) show ?thesis by (auto simp: main_edges_def touches_def)
  next
    case 2
    then obtain i o' where i: "i \<in> conn_set g" "to_node i = n" "gc_type i = Main" "from_node i = a"
      and o': "o' \<in> conn_set g" "from_node o' = n" "gc_type o' = Main" "to_node o' = b"
      by (auto simp: main_edges_def)
    then have "i\<lparr>to_node := to_node o', inputIndex := inputIndex o'\<rparr> \<in> conn_set h"
      by (auto simp: assms(1,2))
    moreover have "from_node (i\<lparr>to_node := to_node o', inputIndex := inputIndex o'\<rparr>) = a"
      "to_node (i\<lparr>to_node := to_node o', inputIndex := inputIndex o'\<rparr>) = b"
      "gc_type (i\<lparr>to_node := to_node o', inputIndex := inputIndex o'\<rparr>) = Main"
      using i o' by simp_all
    ultimately show ?thesis using main_edgesI by metis
  qed
qed

text \<open>The state of the removal loop when the nodes in \<open>R\<close> are gone.\<close>

definition bypassed :: "DirectedGraph \<Rightarrow> INode set \<Rightarrow> DirectedGraph \<Rightarrow> bool" where
  "bypassed g R h \<longleftrightarrow>
     wf_graph h \<and> node_set h = node_set g - R
     \<and> (\<forall>a b. (a, b) \<in> main_edges h \<longleftrightarrow> a \<notin> R \<and> b \<notin> R \<and> via (main_edges g) R a b)
     \<and> {c \<in> conn_set h. not_main c} = {c \<in> conn_set g. not_main c \<and> from_node c \<notin> R \<and> to_node c \<notin> R}"

lemma bypassed_start: "wf_graph g \<Longrightarrow> bypassed g {} g"
  by (simp add: bypassed_def via_empty)

lemma bypassed_step:
  assumes b: "bypassed g R h" and key: "keys_unambiguous g" and n: "n \<in> node_set g" "n \<notin> R"
    and loop: "\<not> via (main_edges g) R n n"
  shows "\<exists>h'. rbind (removeNode h n True not_main) (\<lambda>(h', _). Inr h') = Inr h' \<and> bypassed g (insert n R) h'"
proof -
  from b have wf: "wf_graph h" and ns: "node_set h = node_set g - R"
    and me: "\<And>a b. (a, b) \<in> main_edges h \<longleftrightarrow> a \<notin> R \<and> b \<notin> R \<and> via (main_edges g) R a b"
    and nm: "{c \<in> conn_set h. not_main c} = {c \<in> conn_set g. not_main c \<and> from_node c \<notin> R \<and> to_node c \<notin> R}"
    by (auto simp: bypassed_def)
  have kh: "keys_unambiguous h"
    using key by (auto simp: keys_unambiguous_def ns intro: inj_on_subset)
  have l: "(n, n) \<notin> main_edges h" using loop by (simp add: me)
  from n ns have "n \<in> node_set h" by simp
  from removeNode_sets[OF wf kh this l] obtain h' new where
    r: "removeNode h n True not_main = Inr (h', Some new)" and wf': "wf_graph h'"
    and ns': "node_set h' = node_set h - {n}"
    and c: "conn_set h' = {c \<in> conn_set h. \<not> touches n c} \<union> set new"
    and new: "set new = {i\<lparr>to_node := to_node o', inputIndex := inputIndex o'\<rparr> | i o'.
                i \<in> conn_set h \<and> to_node i = n \<and> gc_type i = Main
                \<and> o' \<in> conn_set h \<and> from_node o' = n \<and> gc_type o' = Main}"
    by blast
  have "(a, b) \<in> main_edges h' \<longleftrightarrow> a \<notin> insert n R \<and> b \<notin> insert n R \<and> via (main_edges g) (insert n R) a b" for a b
    using removeNode_main_edges[OF c new l, of a b] n(2) by (auto simp: me via_insert)
  moreover have "{c \<in> conn_set h'. not_main c} =
      {c \<in> conn_set g. not_main c \<and> from_node c \<notin> insert n R \<and> to_node c \<notin> insert n R}"
  proof -
    have "{c \<in> conn_set h'. not_main c} = {c \<in> {c \<in> conn_set h. not_main c}. \<not> touches n c}"
      unfolding c new not_main_def by auto
    then show ?thesis unfolding nm touches_def by auto
  qed
  ultimately have "bypassed g (insert n R) h'"
    using wf' ns ns' by (auto simp: bypassed_def)
  with r show ?thesis by simp
qed

lemma bypassed_loop:
  assumes key: "keys_unambiguous g"
    and acyc: "\<And>n. n \<in> D \<Longrightarrow> (n, n) \<notin> (main_edges g \<inter> D \<times> D)\<^sup>+"
  shows "bypassed g R h \<Longrightarrow> distinct ns \<Longrightarrow> set ns \<subseteq> node_set g \<Longrightarrow> set ns \<inter> R = {} \<Longrightarrow> R \<subseteq> D \<Longrightarrow>
     {n \<in> set ns. is_disabled n} \<subseteq> D \<Longrightarrow>
     \<exists>h'. rfold (\<lambda>node h. if is_disabled node
                       then rbind (removeNode h node True not_main) (\<lambda>(h', _). Inr h')
                       else Inr h) ns h = Inr h'
        \<and> bypassed g (R \<union> {n \<in> set ns. is_disabled n}) h'"
proof (induction ns arbitrary: R h)
  case Nil
  then show ?case by simp
next
  case (Cons n ns)
  have D: "{m \<in> set ns. is_disabled m} \<subseteq> D" using Cons.prems(6) by auto
  show ?case
  proof (cases "is_disabled n")
    case True
    with Cons.prems have n: "n \<in> D" "n \<in> node_set g" "n \<notin> R" by auto
    have "\<not> via (main_edges g) R n n"
    proof
      assume "via (main_edges g) R n n"
      then have "via (main_edges g) D n n" using Cons.prems(5) by (rule via_mono)
      from via_trancl[OF this] n acyc show False by blast
    qed
    from bypassed_step[OF Cons.prems(1) key n(2,3) this] obtain h1 where
      h1: "rbind (removeNode h n True not_main) (\<lambda>(h', _). Inr h') = Inr h1" "bypassed g (insert n R) h1"
      by blast
    have "R \<union> {m \<in> set (n # ns). is_disabled m} = insert n R \<union> {m \<in> set ns. is_disabled m}"
      using True by auto
    with Cons.IH[OF h1(2) _ _ _ _ D] Cons.prems n True h1(1) show ?thesis by auto
  next
    case False
    then have "R \<union> {m \<in> set (n # ns). is_disabled m} = R \<union> {m \<in> set ns. is_disabled m}" by auto
    with Cons.IH[OF Cons.prems(1) _ _ _ _ D] Cons.prems False show ?thesis by auto
  qed
qed

lemma distinct_node_values: "wf_graph g \<Longrightarrow> distinct (map snd (nodes g))"
proof -
  assume wf: "wf_graph g"
  have "inj_on snd (set (nodes g))"
  proof (rule inj_onI)
    fix p q assume "p \<in> set (nodes g)" "q \<in> set (nodes g)" "snd p = snd q"
    moreover have "fst r = node_name (snd r)" if "r \<in> set (nodes g)" for r
      using wf that by (auto simp: wf_graph_def)
    ultimately show "p = q" by (simp add: prod_eq_iff)
  qed
  with wf show ?thesis by (auto simp: wf_graph_def distinct_map)
qed

lemma main_edges_subset: "main_edges g \<subseteq> edges g"
  by (auto simp: main_edges_def edges_def)

lemma via_path: "via E R a b \<Longrightarrow> (a, b) \<in> E\<^sup>+"
  by (induction rule: via.induct) (auto intro: trancl_into_trancl)

text \<open>Taking nodes out adds no path between those that stay.\<close>

lemma bypassed_paths:
  assumes "bypassed g R h" "(a, b) \<in> (edges h)\<^sup>*"
  shows "(a, b) \<in> (edges g)\<^sup>*"
proof -
  have "(m, n) \<in> (edges g)\<^sup>*" if "(m, n) \<in> edges h" for m n
  proof -
    obtain c where c: "c \<in> conn_set h" "m = from_node c" "n = to_node c"
      using \<open>(m, n) \<in> edges h\<close> by (auto simp: edges_def)
    show ?thesis
    proof (cases "not_main c")
      case True
      with assms(1) c have "c \<in> conn_set g" by (auto simp: bypassed_def)
      with c show ?thesis by (auto simp: edges_def)
    next
      case False
      with c have "(m, n) \<in> main_edges h" by (auto simp: not_main_def intro: main_edgesI)
      with assms(1) have "(m, n) \<in> (main_edges g)\<^sup>+" by (auto simp: bypassed_def dest: via_path)
      then show ?thesis using trancl_mono[OF _ main_edges_subset] by (metis trancl_into_rtrancl)
    qed
  qed
  then have "edges h \<subseteq> (edges g)\<^sup>*" by auto
  with assms(2) show ?thesis using rtrancl_subset_rtrancl by blast
qed

lemma filterDisabledNodes_bypassed:
  assumes "wf_graph g" and "keys_unambiguous g"
    and "\<And>n. is_disabled n \<Longrightarrow> (n, n) \<notin> (main_edges g \<inter> Collect is_disabled \<times> Collect is_disabled)\<^sup>+"
  obtains h where "filterDisabledNodes g = Inr h" and "bypassed g {n \<in> node_set g. is_disabled n} h"
proof -
  let ?D = "Collect is_disabled"
  have ac: "\<And>n. n \<in> ?D \<Longrightarrow> (n, n) \<notin> (main_edges g \<inter> ?D \<times> ?D)\<^sup>+" using assms(3) by blast
  from bypassed_loop[OF assms(2) ac bypassed_start[OF assms(1)] distinct_node_values[OF assms(1)]] that
  show thesis
    by (auto simp: filterDisabledNodes_def clone_id[OF assms(1)] getNodes_def node_set_def)
qed

text \<open>\<^bold>\<open>C19.\<close> \<open>filterDisabledNodes\<close> on a well-formed graph whose keys are unambiguous and
  which has no \<open>Main\<close> cycle made of disabled nodes only: it returns a well-formed graph with
  exactly the enabled nodes; two of them are joined by a \<open>Main\<close> connection exactly when a
  \<open>Main\<close> path between them in the original passes only through disabled nodes; and the
  connections of other types between enabled nodes are unchanged.\<close>

theorem filterDisabledNodes_correct:
  assumes "wf_graph g" and "keys_unambiguous g"
    and "\<And>n. is_disabled n \<Longrightarrow> (n, n) \<notin> (main_edges g \<inter> Collect is_disabled \<times> Collect is_disabled)\<^sup>+"
  shows "\<exists>h. filterDisabledNodes g = Inr h \<and> wf_graph h
     \<and> node_set h = {n \<in> node_set g. \<not> is_disabled n}
     \<and> (\<forall>a b. (a, b) \<in> main_edges h \<longleftrightarrow>
           \<not> is_disabled a \<and> \<not> is_disabled b \<and> via (main_edges g) {n \<in> node_set g. is_disabled n} a b)
     \<and> {c \<in> conn_set h. gc_type c \<noteq> Main} =
         {c \<in> conn_set g. gc_type c \<noteq> Main \<and> \<not> is_disabled (from_node c) \<and> \<not> is_disabled (to_node c)}"
proof -
  let ?R = "{n \<in> node_set g. is_disabled n}"
  obtain h where h: "filterDisabledNodes g = Inr h" "bypassed g ?R h"
    using filterDisabledNodes_bypassed[OF assms] by blast
  have in_g: "from_node c \<in> node_set g \<and> to_node c \<in> node_set g" if "c \<in> conn_set g" for c
    using that assms(1) by (simp add: wf_node_exists[symmetric] wf_conn_exists)
  have "via (main_edges g) R a b \<Longrightarrow> a \<in> node_set g \<and> b \<in> node_set g" for R a b
    by (induction rule: via.induct) (auto elim!: main_edgesE simp: in_g)
  with h(2) in_g show ?thesis
    by (intro exI[of _ h]) (auto simp: h(1) bypassed_def not_main_def)
qed

definition off_node :: INode where
  "off_node = (sample_node 1 ''a'')\<lparr>node_disabled := Some True\<rparr>"

definition chain3_off :: DirectedGraph where
  "chain3_off = (let t = sample_node 0 ''trigger''; b = sample_node 2 ''b''
     in sample_graph [t, off_node, b] [sample_conn t off_node, sample_conn off_node b])"

lemma chain3_off_wf: "wf_graph chain3_off"
  by code_simp

lemma chain3_off_keys: "keys_unambiguous chain3_off"
proof (rule keys_unambiguous_dash_free[OF chain3_off_wf])
  show "\<forall>n\<in>node_set chain3_off. CHR ''-'' \<notin> set (node_name n)" by code_simp
qed

lemma chain3_off_acyclic: "main_edges chain3_off \<inter> Collect is_disabled \<times> Collect is_disabled = {}"
  by (auto simp: main_edges_def conn_set_def chain3_off_def sample_graph_def sample_conn_def
      sample_node_def off_node_def Let_def)

theorem filterDisabledNodes_correct_witness:
  "wf_graph chain3_off \<and> keys_unambiguous chain3_off
   \<and> (\<exists>h. filterDisabledNodes chain3_off = Inr h \<and> wf_graph h
     \<and> node_set h = {n \<in> node_set chain3_off. \<not> is_disabled n}
     \<and> (sample_node 0 ''trigger'', sample_node 2 ''b'') \<in> main_edges h)"
proof -
  have a: "\<And>n. is_disabled n \<Longrightarrow>
      (n, n) \<notin> (main_edges chain3_off \<inter> Collect is_disabled \<times> Collect is_disabled)\<^sup>+"
    by (simp add: chain3_off_acyclic)
  let ?t = "sample_node 0 ''trigger''" and ?b = "sample_node 2 ''b''"
  have "(?t, off_node) \<in> main_edges chain3_off" "(off_node, ?b) \<in> main_edges chain3_off"
    by (force simp: main_edges_def conn_set_def chain3_off_def sample_graph_def sample_conn_def Let_def)+
  moreover have "off_node \<in> {n \<in> node_set chain3_off. is_disabled n}" by code_simp
  ultimately have "via (main_edges chain3_off) {n \<in> node_set chain3_off. is_disabled n} ?t ?b"
    by (blast intro: via.intros)
  moreover have "\<not> is_disabled ?t" "\<not> is_disabled ?b" by (simp_all add: sample_node_def)
  ultimately show ?thesis
    using filterDisabledNodes_correct[OF chain3_off_wf chain3_off_keys a] chain3_off_wf chain3_off_keys
    by blast
qed

section \<open>The subgraph between the trigger and the destination\<close>

text \<open>The loop that adds a branch, with the nodes each connection needs.\<close>

definition keepBranch :: "GraphConnection list \<Rightarrow> DirectedGraph \<Rightarrow> DirectedGraph result" where
  "keepBranch currentBranch newGraph =
     rfold (\<lambda>c h. addConnection (addNodes h [from_node c, to_node c]) (input_of_connection c))
       currentBranch newGraph"

function findSubgraphRecursive ::
  "DirectedGraph \<Rightarrow> INode \<Rightarrow> INode \<Rightarrow> INode \<Rightarrow> DirectedGraph \<Rightarrow> GraphConnection list \<Rightarrow> DirectedGraph result" where
  "findSubgraphRecursive graph destinationNode current trigger newGraph currentBranch =
     (if current = trigger then keepBranch currentBranch (addNode newGraph trigger)
      else rbind (getDirectParentConnections graph current) (\<lambda>parentConnections.
        if parentConnections = [] then Inr newGraph
        else if current = destinationNode \<and> (\<exists>c\<in>set currentBranch. to_node c = destinationNode)
        then Inr newGraph
        else if \<exists>c\<in>set currentBranch. to_node c = current then keepBranch currentBranch newGraph
        else rfold (\<lambda>parentConnection h.
               if gc_type parentConnection \<noteq> Main then Inr h
               else findSubgraphRecursive graph destinationNode (from_node parentConnection) trigger h
                      (currentBranch @ [parentConnection]))
             parentConnections newGraph))"
  by pat_completeness auto

termination
proof (relation "measure (\<lambda>(g, d, c, t, n, b). card (to_node ` conn_set g - to_node ` set b))", goal_cases)
  case 1
  show ?case by simp
next
  case (2 g d c t n b pcs pc h)
  then have "pc \<in> conn_set g" "to_node pc = c" by (auto simp: set_parent_connections)
  moreover from 2 this have "to_node pc \<notin> to_node ` set b" by auto
  ultimately have "to_node pc \<in> to_node ` conn_set g - to_node ` set b"
    and "to_node pc \<notin> to_node ` conn_set g - to_node ` set (b @ [pc])" by auto
  then have "to_node ` conn_set g - to_node ` set (b @ [pc]) \<subset> to_node ` conn_set g - to_node ` set b"
    by auto
  then have "card (to_node ` conn_set g - to_node ` set (b @ [pc])) < card (to_node ` conn_set g - to_node ` set b)"
    by (intro psubset_card_mono) simp_all
  then show ?case by simp
qed

declare findSubgraphRecursive.simps [simp del]

definition add_sub_connection :: "GraphConnection \<Rightarrow> DirectedGraph \<Rightarrow> DirectedGraph result" where
  "add_sub_connection c h =
     (if gc_type c = Main then Inr h
      else addConnection (addNodes h [from_node c, to_node c]) (input_of_connection c))"

text \<open>The second loop of \<open>findSubgraph\<close> runs over a snapshot of the nodes found so far.\<close>

definition findSubgraph :: "DirectedGraph \<Rightarrow> INode \<Rightarrow> INode \<Rightarrow> DirectedGraph result" where
  "findSubgraph graph destination trigger =
     rbind (findSubgraphRecursive graph destination destination trigger empty_graph []) (\<lambda>subgraph.
       rfold (\<lambda>node h.
         rbind (getParentConnections graph node) (\<lambda>parentConnections.
           rfold add_sub_connection parentConnections h))
         (map_values (getNodes subgraph)) subgraph)"

text \<open>A graph under construction is a part of the graph it is taken from.\<close>

definition part_of :: "DirectedGraph \<Rightarrow> DirectedGraph \<Rightarrow> bool" where
  "part_of g h \<longleftrightarrow> wf_graph h \<and> node_set h \<subseteq> node_set g \<and> conn_set h \<subseteq> conn_set g"

lemma part_of_empty: "part_of g empty_graph"
  by (simp add: part_of_def wf_empty_graph) (simp add: empty_graph_def node_set_def conn_set_def)

lemma wf_same_name:
  "wf_graph g \<Longrightarrow> m \<in> node_set g \<Longrightarrow> n \<in> node_set g \<Longrightarrow> node_name m = node_name n \<Longrightarrow> m = n"
  by (auto simp: wf_node_exists[symmetric] node_exists_def)

lemma part_of_addNode:
  assumes wf: "wf_graph g" and h: "part_of g h" and n: "n \<in> node_set g"
  shows "part_of g (addNode h n)" and "conn_set (addNode h n) = conn_set h"
    and "node_set (addNode h n) = insert n (node_set h)"
proof -
  have "m = n" if "map_get (nodes h) (node_name n) = Some m" for m
  proof -
    from that have "(node_name n, m) \<in> set (nodes h)" by (rule map_of_SomeD)
    then have "node_name m = node_name n" "m \<in> node_set h"
      using h by (auto simp: part_of_def wf_graph_def node_set_def image_iff) (metis snd_conv)
    with h n wf show ?thesis by (auto simp: part_of_def intro: wf_same_name)
  qed
  then have free: "map_get (nodes h) (node_name n) \<in> {None, Some n}"
    by (cases "map_get (nodes h) (node_name n)") auto
  with h have w: "wf_graph (addNode h n)" by (auto simp: part_of_def intro: wf_addNode)
  show c: "conn_set (addNode h n) = conn_set h" by (simp add: conn_set_def)
  show ns: "node_set (addNode h n) = insert n (node_set h)"
  proof (rule set_eqI)
    fix m
    have "node_exists (addNode h n) m \<longleftrightarrow> m = n \<or> node_exists h m"
    proof (cases "node_name m = node_name n")
      case True
      with free have "node_exists h m \<Longrightarrow> m = n" by (simp add: node_exists_def)
      with True show ?thesis by (auto simp: node_exists_addNode)
    next
      case False
      then show ?thesis by (auto simp: node_exists_addNode)
    qed
    with w h show "m \<in> node_set (addNode h n) \<longleftrightarrow> m \<in> insert n (node_set h)"
      by (auto simp: wf_node_exists part_of_def)
  qed
  from w c ns h n show "part_of g (addNode h n)" by (auto simp: part_of_def)
qed

text \<open>Adding a connection of \<open>g\<close> with its end points keeps what was there.\<close>

lemma part_of_add:
  assumes wf: "wf_graph g" and key: "keys_unambiguous g" and h: "part_of g h" and c: "c \<in> conn_set g"
  shows "\<exists>h'. addConnection (addNodes h [from_node c, to_node c]) (input_of_connection c) = Inr h'
           \<and> part_of g h' \<and> conn_set h' = insert c (conn_set h)
           \<and> node_set h' = {from_node c, to_node c} \<union> node_set h"
proof -
  from wf c have f: "from_node c \<in> node_set g" and t: "to_node c \<in> node_set g"
    by (simp_all add: wf_node_exists[symmetric] wf_conn_exists)
  let ?h1 = "addNode h (from_node c)" and ?h2 = "addNode (addNode h (from_node c)) (to_node c)"
  note p1 = part_of_addNode[OF wf h f]
  note p2 = part_of_addNode[OF wf p1(1) t]
  have w2: "wf_graph ?h2" and ends: "from_node c \<in> node_set ?h2" "to_node c \<in> node_set ?h2"
    using p1 p2 by (auto simp: part_of_def)
  have e: "addConnection (addNodes h [from_node c, to_node c]) (input_of_connection c) = Inr (set_connection c ?h2)"
    using w2 ends by (simp add: addNodes_def addConnection_Inr wf_node_exists)
  have k2: "keys_unambiguous ?h2"
    using key p2(1) by (auto simp: keys_unambiguous_def part_of_def intro: inj_on_subset)
  have cs: "conn_set (set_connection c ?h2) = insert c (conn_set h)"
    using conn_set_set_connection[OF w2 k2 ends] p1(2) p2(2) by simp
  have "wf_graph (set_connection c ?h2)"
    using w2 ends by (auto intro: wf_set_connection simp: wf_node_exists)
  moreover have "node_set (set_connection c ?h2) = node_set ?h2" by (simp add: node_set_def)
  moreover have "node_set ?h2 = {from_node c, to_node c} \<union> node_set h" using p1(3) p2(3) by auto
  ultimately have "part_of g (set_connection c ?h2)"
    and "node_set (set_connection c ?h2) = {from_node c, to_node c} \<union> node_set h"
    using p2(1) cs c h by (auto simp: part_of_def)
  with e cs show ?thesis by blast
qed

definition ends_of :: "GraphConnection set \<Rightarrow> INode set" where
  "ends_of C = from_node ` C \<union> to_node ` C"

lemma part_of_keepBranch:
  assumes "wf_graph g" and "keys_unambiguous g" and "part_of g h" and "set b \<subseteq> conn_set g"
  shows "\<exists>h'. keepBranch b h = Inr h' \<and> part_of g h' \<and> conn_set h' = set b \<union> conn_set h
           \<and> node_set h' = ends_of (set b) \<union> node_set h"
  using assms(3,4)
proof (induction b arbitrary: h)
  case Nil
  then show ?case by (simp add: keepBranch_def ends_of_def)
next
  case (Cons c b)
  from part_of_add[OF assms(1,2) Cons.prems(1), of c] Cons.prems(2) obtain h1 where
    h1: "addConnection (addNodes h [from_node c, to_node c]) (input_of_connection c) = Inr h1"
      "part_of g h1" "conn_set h1 = insert c (conn_set h)"
      "node_set h1 = {from_node c, to_node c} \<union> node_set h" by auto
  from Cons.IH[OF h1(2)] Cons.prems(2) obtain h' where "keepBranch b h1 = Inr h'" "part_of g h'"
    "conn_set h' = set b \<union> conn_set h1" "node_set h' = ends_of (set b) \<union> node_set h1" by auto
  with h1 show ?case by (auto simp: keepBranch_def ends_of_def)
qed

text \<open>What one call of the recursion does to the graph under construction.\<close>

definition extends :: "DirectedGraph \<Rightarrow> INode \<Rightarrow> DirectedGraph \<Rightarrow> DirectedGraph \<Rightarrow> bool" where
  "extends g d h h' \<longleftrightarrow>
     part_of g h' \<and> conn_set h \<subseteq> conn_set h' \<and> (\<forall>n\<in>node_set h' - node_set h. (n, d) \<in> (main_edges g)\<^sup>*)"

lemma extends_refl: "part_of g h \<Longrightarrow> extends g d h h"
  by (simp add: extends_def)

lemma extends_trans: "extends g d h h1 \<Longrightarrow> extends g d h1 h2 \<Longrightarrow> extends g d h h2"
  unfolding extends_def by blast

definition branch_ok :: "DirectedGraph \<Rightarrow> INode \<Rightarrow> GraphConnection list \<Rightarrow> bool" where
  "branch_ok g d b \<longleftrightarrow>
     (\<forall>c\<in>set b. c \<in> conn_set g \<and> gc_type c = Main \<and> (to_node c, d) \<in> (main_edges g)\<^sup>*)"

lemma branch_ok_from: "branch_ok g d b \<Longrightarrow> c \<in> set b \<Longrightarrow> (from_node c, d) \<in> (main_edges g)\<^sup>*"
  by (meson branch_ok_def converse_rtrancl_into_rtrancl main_edgesI)

lemma extends_keepBranch:
  assumes "wf_graph g" and "keys_unambiguous g" and "part_of g h" and "branch_ok g d b"
  shows "\<exists>h'. keepBranch b h = Inr h' \<and> extends g d h h' \<and> set b \<subseteq> conn_set h'"
proof -
  have "set b \<subseteq> conn_set g" using assms(4) by (auto simp: branch_ok_def)
  from part_of_keepBranch[OF assms(1-3) this] obtain h' where h': "keepBranch b h = Inr h'" "part_of g h'"
    "conn_set h' = set b \<union> conn_set h" "node_set h' = ends_of (set b) \<union> node_set h" by blast
  moreover have "(n, d) \<in> (main_edges g)\<^sup>*" if "n \<in> ends_of (set b)" for n
    using that assms(4) branch_ok_from[OF assms(4)] by (auto simp: ends_of_def branch_ok_def)
  ultimately show ?thesis by (auto simp: extends_def)
qed

lemma findSubgraphRecursive_extends:
  assumes wf: "wf_graph g" and key: "keys_unambiguous g" and t: "trigger \<in> node_set g"
  shows "cur \<in> node_set g \<Longrightarrow> (cur, d) \<in> (main_edges g)\<^sup>* \<Longrightarrow> branch_ok g d b \<Longrightarrow> part_of g h \<Longrightarrow>
     \<exists>h'. findSubgraphRecursive g d cur trigger h b = Inr h' \<and> extends g d h h'"
  using wf key t
proof (induction g d cur trigger h b rule: findSubgraphRecursive.induct)
  case (1 g d cur trigger h b)
  note wf = 1(6) and key = 1(7)
  show ?case
  proof (cases "cur = trigger")
    case True
    note p = part_of_addNode[OF wf 1(5) 1(8)]
    from extends_keepBranch[OF wf key p(1) 1(4)] obtain h' where
      "keepBranch b (addNode h trigger) = Inr h'" "extends g d (addNode h trigger) h'" by blast
    with True p(2,3) 1(3) show ?thesis by (auto simp: findSubgraphRecursive.simps extends_def)
  next
    case False
    obtain pcs where pcs: "getDirectParentConnections g cur = Inr pcs"
      using wf_parent_connections[OF wf 1(2)] by blast
    consider "pcs = [] \<or> cur = d \<and> (\<exists>c\<in>set b. to_node c = d)"
      | "pcs \<noteq> []" "\<not> (cur = d \<and> (\<exists>c\<in>set b. to_node c = d))" "\<exists>c\<in>set b. to_node c = cur"
      | "pcs \<noteq> []" "\<not> (cur = d \<and> (\<exists>c\<in>set b. to_node c = d))" "\<not> (\<exists>c\<in>set b. to_node c = cur)"
      by blast
    then show ?thesis
    proof cases
      case 1
      with False pcs \<open>part_of g h\<close> show ?thesis
        by (auto simp: findSubgraphRecursive.simps[of g d cur] extends_refl)
    next
      case 2
      from extends_keepBranch[OF wf key \<open>part_of g h\<close> \<open>branch_ok g d b\<close>] 2 False pcs show ?thesis
        by (auto simp: findSubgraphRecursive.simps[of g d cur])
    next
      case 3
      let ?f = "\<lambda>pc h. if gc_type pc \<noteq> Main then Inr h
                 else findSubgraphRecursive g d (from_node pc) trigger h (b @ [pc])"
      have "\<exists>t. rfold ?f pcs h = Inr t \<and> extends g d h t"
      proof (rule rfold_total[where P = "extends g d h"])
        show "extends g d h h" using \<open>part_of g h\<close> by (rule extends_refl)
      next
        fix pc u assume pc: "pc \<in> set pcs" and u: "extends g d h u"
        show "\<exists>v. ?f pc u = Inr v \<and> extends g d h v"
        proof (cases "gc_type pc = Main")
          case False
          with u show ?thesis by simp
        next
          case True
          from pc pcs have c: "pc \<in> conn_set g" "to_node pc = cur" by (auto simp: set_parent_connections)
          have m: "(from_node pc, d) \<in> (main_edges g)\<^sup>*"
            using main_edgesI[OF c(1) True] c(2) \<open>(cur, d) \<in> (main_edges g)\<^sup>*\<close>
            by (simp add: converse_rtrancl_into_rtrancl)
          have bo: "branch_ok g d (b @ [pc])" using \<open>branch_ok g d b\<close> c True \<open>(cur, d) \<in> (main_edges g)\<^sup>*\<close>
            by (auto simp: branch_ok_def)
          have f: "from_node pc \<in> node_set g" using wf c(1) by (simp add: wf_node_exists[symmetric] wf_conn_exists)
          have pu: "part_of g u" using u by (simp add: extends_def)
          have "\<not> gc_type pc \<noteq> Main" using True by simp
          from "1.IH"[OF False pcs 3 pc this f m bo pu wf key \<open>trigger \<in> node_set g\<close>] True u
          show ?thesis by (auto intro: extends_trans)
        qed
      qed
      with 3 False pcs show ?thesis by (auto simp: findSubgraphRecursive.simps[of g d cur])
    qed
  qed
qed

text \<open>A path of \<open>Main\<close> connections.\<close>

fun main_path :: "DirectedGraph \<Rightarrow> INode \<Rightarrow> GraphConnection list \<Rightarrow> INode \<Rightarrow> bool" where
  "main_path g a [] b \<longleftrightarrow> a = b"
| "main_path g a (c # cs) b \<longleftrightarrow> c \<in> conn_set g \<and> gc_type c = Main \<and> from_node c = a \<and> main_path g (to_node c) cs b"

lemma main_path_snoc:
  "main_path g a (cs @ [c]) b \<longleftrightarrow>
     main_path g a cs (from_node c) \<and> c \<in> conn_set g \<and> gc_type c = Main \<and> to_node c = b"
  by (induction cs arbitrary: a) auto

lemma findSubgraphRecursive_complete:
  assumes wf: "wf_graph g" and key: "keys_unambiguous g" and t: "trigger \<in> node_set g"
  shows "main_path g trigger pre cur \<Longrightarrow> distinct (map to_node (pre @ rev b)) \<Longrightarrow> trigger \<notin> to_node ` set pre \<Longrightarrow>
     cur \<in> node_set g \<Longrightarrow> (cur, d) \<in> (main_edges g)\<^sup>* \<Longrightarrow> branch_ok g d b \<Longrightarrow> part_of g h \<Longrightarrow>
     findSubgraphRecursive g d cur trigger h b = Inr h' \<Longrightarrow> set pre \<union> set b \<subseteq> conn_set h'"
proof (induction pre arbitrary: cur b h h' rule: rev_induct)
  case Nil
  then have "keepBranch b (addNode h trigger) = Inr h'" by (simp add: findSubgraphRecursive.simps)
  with extends_keepBranch[OF wf key part_of_addNode(1)[OF wf Nil.prems(7) t] Nil.prems(6)]
  show ?case by auto
next
  case (snoc c pre)
  from snoc.prems(1) have c: "main_path g trigger pre (from_node c)" "c \<in> conn_set g" "gc_type c = Main" "to_node c = cur"
    by (simp_all add: main_path_snoc)
  with snoc.prems(2,3) have nt: "cur \<noteq> trigger" and "cur \<notin> to_node ` set b" by auto
  then have nb: "\<not> (\<exists>x\<in>set b. to_node x = cur)" by blast
  obtain pcs where pcs: "getDirectParentConnections g cur = Inr pcs"
    using wf_parent_connections[OF wf snoc.prems(4)] by blast
  with c have cin: "c \<in> set pcs" by (simp add: set_parent_connections)
  let ?f = "\<lambda>pc h. if gc_type pc \<noteq> Main then Inr h
             else findSubgraphRecursive g d (from_node pc) trigger h (b @ [pc])"
  from snoc.prems(8) nt nb pcs cin have r: "rfold ?f pcs h = Inr h'"
    by (auto simp: findSubgraphRecursive.simps[of g d cur] split: if_splits)
  have ext: "extends g d u v" if pc: "pc \<in> set pcs" "part_of g u" "?f pc u = Inr v" for pc u v
  proof (cases "gc_type pc = Main")
    case False
    with pc show ?thesis by (auto intro: extends_refl)
  next
    case True
    from pc(1) pcs have p: "pc \<in> conn_set g" "to_node pc = cur" by (auto simp: set_parent_connections)
    have m: "(from_node pc, d) \<in> (main_edges g)\<^sup>*"
      using main_edgesI[OF p(1) True] p(2) snoc.prems(5) by (simp add: converse_rtrancl_into_rtrancl)
    have bo: "branch_ok g d (b @ [pc])" using snoc.prems(5,6) p True by (auto simp: branch_ok_def)
    have f: "from_node pc \<in> node_set g" using wf p(1) by (simp add: wf_node_exists[symmetric] wf_conn_exists)
    from findSubgraphRecursive_extends[OF wf key t f m bo pc(2)] pc(3) True show ?thesis by auto
  qed
  from cin obtain xs ys where split: "pcs = xs @ c # ys" by (meson split_list)
  from r obtain u v where u: "rfold ?f xs h = Inr u" and v: "?f c u = Inr v" and w: "rfold ?f ys v = Inr h'"
    by (auto simp: split rfold_append rbind_eq_Inr)
  have pu: "part_of g u"
    using u snoc.prems(7) by (rule rfold_invariant) (use ext split in \<open>auto simp: extends_def\<close>)
  have "distinct (map to_node (pre @ rev (b @ [c])))" using snoc.prems(2) by simp
  moreover have "branch_ok g d (b @ [c])" using snoc.prems(5,6) c by (auto simp: branch_ok_def)
  moreover have "(from_node c, d) \<in> (main_edges g)\<^sup>*"
    using main_edgesI[OF c(2,3)] c(4) snoc.prems(5) by (simp add: converse_rtrancl_into_rtrancl)
  moreover have "from_node c \<in> node_set g" using wf c(2) by (simp add: wf_node_exists[symmetric] wf_conn_exists)
  moreover have "findSubgraphRecursive g d (from_node c) trigger u (b @ [c]) = Inr v" using v c(3) by simp
  moreover have "trigger \<notin> to_node ` set pre" using snoc.prems(3) by simp
  ultimately have "set pre \<union> set (b @ [c]) \<subseteq> conn_set v"
    using snoc.IH[OF c(1)] pu by blast
  moreover have "extends g d v h'"
    using w
  proof (rule rfold_invariant[where P = "extends g d v"])
    have "part_of g v" using ext[OF cin pu v] by (simp add: extends_def)
    then show "extends g d v v" by (rule extends_refl)
  next
    fix x p q assume x: "x \<in> set ys" "extends g d v p" "?f x p = Inr q"
    then have "x \<in> set pcs" and "part_of g p" by (simp_all add: split extends_def)
    from ext[OF this x(3)] x(2) show "extends g d v q" by (blast intro: extends_trans)
  qed
  ultimately show ?case by (auto simp: extends_def)
qed

lemma part_of_sub_connections:
  assumes "wf_graph g" and "keys_unambiguous g" and "part_of g h" and "set cs \<subseteq> conn_set g"
  shows "\<exists>h'. rfold add_sub_connection cs h = Inr h' \<and> part_of g h'
       \<and> conn_set h' = {c \<in> set cs. gc_type c \<noteq> Main} \<union> conn_set h
       \<and> node_set h' = ends_of {c \<in> set cs. gc_type c \<noteq> Main} \<union> node_set h"
  using assms(3,4)
proof (induction cs arbitrary: h)
  case Nil
  then show ?case by (simp add: ends_of_def)
next
  case (Cons c cs)
  show ?case
  proof (cases "gc_type c = Main")
    case True
    then have "{x \<in> set (c # cs). gc_type x \<noteq> Main} = {x \<in> set cs. gc_type x \<noteq> Main}" by auto
    with True Cons show ?thesis by (auto simp: add_sub_connection_def)
  next
    case False
    then have e: "{x \<in> set (c # cs). gc_type x \<noteq> Main} = insert c {x \<in> set cs. gc_type x \<noteq> Main}" by auto
    from part_of_add[OF assms(1,2) Cons.prems(1), of c] Cons.prems(2) False obtain h1 where
      h1: "add_sub_connection c h = Inr h1" "part_of g h1" "conn_set h1 = insert c (conn_set h)"
        "node_set h1 = {from_node c, to_node c} \<union> node_set h" by (auto simp: add_sub_connection_def)
    from Cons.IH[OF h1(2)] Cons.prems(2) obtain h' where "rfold add_sub_connection cs h1 = Inr h'" "part_of g h'"
      "conn_set h' = {c \<in> set cs. gc_type c \<noteq> Main} \<union> conn_set h1"
      "node_set h' = ends_of {c \<in> set cs. gc_type c \<noteq> Main} \<union> node_set h1" by auto
    with h1 show ?thesis unfolding e by (auto simp: ends_of_def)
  qed
qed

text \<open>The second loop: the sub-node connections above the nodes it runs over are added.\<close>

definition sub_connections :: "DirectedGraph \<Rightarrow> INode set \<Rightarrow> GraphConnection set" where
  "sub_connections g N = {c \<in> conn_set g. gc_type c \<noteq> Main \<and> (\<exists>n\<in>N. (to_node c, n) \<in> (edges g)\<^sup>*)}"

lemma sub_loop:
  assumes wf: "wf_graph g" and key: "keys_unambiguous g"
  shows "part_of g h \<Longrightarrow> set ns \<subseteq> node_set g \<Longrightarrow>
     \<exists>h'. rfold (\<lambda>node h. rbind (getParentConnections g node) (\<lambda>pcs. rfold add_sub_connection pcs h)) ns h = Inr h'
        \<and> part_of g h' \<and> conn_set h' = sub_connections g (set ns) \<union> conn_set h
        \<and> node_set h' = ends_of (sub_connections g (set ns)) \<union> node_set h"
proof (induction ns arbitrary: h)
  case Nil
  then show ?case by (simp add: sub_connections_def ends_of_def)
next
  case (Cons n ns)
  from getParentConnections_total[OF wf, of n] Cons.prems(2) obtain pcs where
    pcs: "getParentConnections g n = Inr pcs" by auto
  have set_pcs: "set pcs = {c \<in> conn_set g. (to_node c, n) \<in> (edges g)\<^sup>*}"
    using getParentConnections_reach(1)[OF wf pcs] .
  then have "{c \<in> set pcs. gc_type c \<noteq> Main} = sub_connections g {n}" by (auto simp: sub_connections_def)
  moreover have "set pcs \<subseteq> conn_set g" using set_pcs by blast
  ultimately obtain h1 where h1: "rfold add_sub_connection pcs h = Inr h1" "part_of g h1"
    "conn_set h1 = sub_connections g {n} \<union> conn_set h" "node_set h1 = ends_of (sub_connections g {n}) \<union> node_set h"
    using part_of_sub_connections[OF wf key Cons.prems(1), of pcs] by auto
  from Cons.IH[OF h1(2)] Cons.prems(2) obtain h' where
    h': "rfold (\<lambda>node h. rbind (getParentConnections g node) (\<lambda>pcs. rfold add_sub_connection pcs h)) ns h1 = Inr h'"
      "part_of g h'" "conn_set h' = sub_connections g (set ns) \<union> conn_set h1"
      "node_set h' = ends_of (sub_connections g (set ns)) \<union> node_set h1" by auto
  have "sub_connections g (set (n # ns)) = sub_connections g {n} \<union> sub_connections g (set ns)"
    by (auto simp: sub_connections_def)
  with pcs h1 h' show ?case by (auto simp: ends_of_def)
qed

lemma sub_connections_reach:
  assumes "\<And>n. n \<in> N \<Longrightarrow> (n, d) \<in> (edges g)\<^sup>*" and "m \<in> ends_of (sub_connections g N)"
  shows "\<exists>n\<in>N. (m, n) \<in> (edges g)\<^sup>*"
proof -
  from assms(2) obtain c n where c: "c \<in> conn_set g" "n \<in> N" "(to_node c, n) \<in> (edges g)\<^sup>*"
    and m: "m = from_node c \<or> m = to_node c" by (auto simp: ends_of_def sub_connections_def)
  from edgesI[OF c(1)] c(3) have "(from_node c, n) \<in> (edges g)\<^sup>*" by (rule converse_rtrancl_into_rtrancl)
  with m c show ?thesis by blast
qed

text \<open>The nodes found over \<open>Main\<close> connections are those of \<open>s\<close>; what the second loop adds is above them.\<close>

lemma findSubgraph_found:
  assumes wf: "wf_graph g" and key: "keys_unambiguous g"
    and d: "destination \<in> node_set g" and t: "trigger \<in> node_set g"
  obtains s h where "findSubgraphRecursive g destination destination trigger empty_graph [] = Inr s"
    and "findSubgraph g destination trigger = Inr h" and "part_of g h"
    and "conn_set h = sub_connections g (node_set s) \<union> conn_set s"
    and "\<And>n. n \<in> node_set h \<Longrightarrow> \<exists>m\<in>node_set s. (n, m) \<in> (edges g)\<^sup>*"
    and "\<And>n. n \<in> node_set h \<Longrightarrow> (n, destination) \<in> (edges g)\<^sup>*"
proof -
  have bo: "branch_ok g destination []" by (simp add: branch_ok_def)
  from findSubgraphRecursive_extends[OF wf key t d rtrancl_refl bo part_of_empty] obtain s where
    s: "findSubgraphRecursive g destination destination trigger empty_graph [] = Inr s"
      "extends g destination empty_graph s" by blast
  then have ps: "part_of g s" by (simp add: extends_def)
  have reach: "(n, destination) \<in> (edges g)\<^sup>*" if "n \<in> node_set s" for n
  proof -
    have "n \<notin> node_set empty_graph" by (simp add: empty_graph_def node_set_def)
    with s(2) that have "(n, destination) \<in> (main_edges g)\<^sup>*" by (auto simp: extends_def)
    then show ?thesis using rtrancl_mono[OF main_edges_subset] by blast
  qed
  have ns: "set (map snd (nodes s)) = node_set s" by (simp add: node_set_def)
  with ps have "set (map snd (nodes s)) \<subseteq> node_set g" by (simp add: part_of_def)
  from sub_loop[OF wf key ps this] s(1) obtain h where h: "findSubgraph g destination trigger = Inr h"
    "part_of g h" "conn_set h = sub_connections g (node_set s) \<union> conn_set s"
    "node_set h = ends_of (sub_connections g (node_set s)) \<union> node_set s"
    by (auto simp: findSubgraph_def getNodes_def ns simp del: set_map)
  have up: "\<exists>m\<in>node_set s. (n, m) \<in> (edges g)\<^sup>*" if "n \<in> node_set h" for n
    using that h(4) sub_connections_reach[OF reach] by auto
  have "(n, destination) \<in> (edges g)\<^sup>*" if "n \<in> node_set h" for n
    using up[OF that] reach by (meson rtrancl_trans)
  with s(1) h(1-3) up that show thesis by blast
qed

text \<open>\<^bold>\<open>C18.\<close> \<open>findSubgraph\<close> on a well-formed graph with unambiguous keys returns a well-formed
  part of it, in which every node leads to the destination.  It keeps every connection of every
  simple \<open>Main\<close> path from the trigger to the destination, one that enters no node twice and does not
  come back to the trigger, and every connection of another
  type (the sub-nodes of AI nodes) above a node it keeps.\<close>

theorem findSubgraph_correct:
  assumes wf: "wf_graph g" and key: "keys_unambiguous g"
    and d: "destination \<in> node_set g" and t: "trigger \<in> node_set g"
  shows "\<exists>h. findSubgraph g destination trigger = Inr h \<and> wf_graph h
     \<and> node_set h \<subseteq> node_set g \<and> conn_set h \<subseteq> conn_set g
     \<and> (\<forall>n\<in>node_set h. (n, destination) \<in> (edges g)\<^sup>*)
     \<and> (\<forall>p. main_path g trigger p destination \<and> distinct (map to_node p) \<and> trigger \<notin> to_node ` set p
           \<longrightarrow> set p \<subseteq> conn_set h)
     \<and> (\<forall>n\<in>node_set h. \<forall>c\<in>conn_set g. gc_type c \<noteq> Main \<and> (to_node c, n) \<in> (edges g)\<^sup>* \<longrightarrow> c \<in> conn_set h)"
proof -
  have bo: "branch_ok g destination []" by (simp add: branch_ok_def)
  obtain s h where s: "findSubgraphRecursive g destination destination trigger empty_graph [] = Inr s"
    and h: "findSubgraph g destination trigger = Inr h" "part_of g h"
      "conn_set h = sub_connections g (node_set s) \<union> conn_set s"
    and up: "\<And>n. n \<in> node_set h \<Longrightarrow> \<exists>m\<in>node_set s. (n, m) \<in> (edges g)\<^sup>*"
      "\<And>n. n \<in> node_set h \<Longrightarrow> (n, destination) \<in> (edges g)\<^sup>*"
    using findSubgraph_found[OF assms] by blast
  have "c \<in> conn_set h"
    if "n \<in> node_set h" "c \<in> conn_set g" "gc_type c \<noteq> Main" "(to_node c, n) \<in> (edges g)\<^sup>*" for n c
    using up(1)[OF that(1)] that(2-) rtrancl_trans[of "to_node c" n]
    by (auto simp: h(3) sub_connections_def)
  moreover have "set p \<subseteq> conn_set h"
    if "main_path g trigger p destination" "distinct (map to_node p)" "trigger \<notin> to_node ` set p" for p
    using findSubgraphRecursive_complete[OF wf key t that(1) _ that(3) d rtrancl_refl bo part_of_empty s]
      that(2) h(3) by auto
  ultimately show ?thesis using h(1,2) up(2) by (auto simp: part_of_def)
qed

lemma chain3_keys: "keys_unambiguous chain3"
proof (rule keys_unambiguous_dash_free[OF chain3_wf])
  show "\<forall>n\<in>node_set chain3. CHR ''-'' \<notin> set (node_name n)" by code_simp
qed

theorem findSubgraph_correct_witness:
  "wf_graph chain3 \<and> keys_unambiguous chain3
   \<and> (\<exists>h. findSubgraph chain3 (sample_node 2 ''b'') (sample_node 0 ''trigger'') = Inr h \<and> wf_graph h
        \<and> {sample_conn (sample_node 0 ''trigger'') (sample_node 1 ''a''),
           sample_conn (sample_node 1 ''a'') (sample_node 2 ''b'')} \<subseteq> conn_set h)"
proof -
  let ?t = "sample_node 0 ''trigger''" and ?b = "sample_node 2 ''b''"
  let ?p = "[sample_conn ?t (sample_node 1 ''a''), sample_conn (sample_node 1 ''a'') ?b]"
  have m: "?b \<in> node_set chain3" "?t \<in> node_set chain3" by code_simp+
  have p: "main_path chain3 ?t ?p ?b" "distinct (map to_node ?p)" "?t \<notin> to_node ` set ?p"
    by code_simp+
  obtain h where "findSubgraph chain3 ?b ?t = Inr h" "wf_graph h" "set ?p \<subseteq> conn_set h"
    using findSubgraph_correct[OF chain3_wf chain3_keys m] p by blast
  then show ?thesis using chain3_wf chain3_keys by auto
qed

end
