(* ===== verification/Run_Data.thy ===== *)
theory Run_Data
  imports Directed_Graph
begin

text \<open>
  The run data helpers of partial executions: \<^verbatim>\<open>get-incoming-data.ts\<close>,
  \<^verbatim>\<open>run-data-utils.ts\<close> and \<^verbatim>\<open>clean-run-data.ts\<close>.  A read such as
  \<open>data?.[connectionType].at(i)\<close> throws a \<open>TypeError\<close> when \<open>data\<close> is present and the
  connection type is not; the model keeps that branch.
\<close>

section \<open>Reading run data\<close>

definition getIncomingData ::
  "IRunData \<Rightarrow> string \<Rightarrow> int \<Rightarrow> NodeConnectionType \<Rightarrow> int \<Rightarrow> INodeExecutionData list option result" where
  "getIncomingData runData nodeName runIndex connectionType oi =
     (case map_get runData nodeName of
        None \<Rightarrow> Inr None
      | Some tasks \<Rightarrow>
          (case js_at tasks runIndex of
             None \<Rightarrow> Inr None
           | Some task \<Rightarrow>
               (case task_data task of
                  None \<Rightarrow> Inr None
                | Some d \<Rightarrow>
                    (case map_get d connectionType of
                       None \<Rightarrow> Inl TypeError
                     | Some outputs \<Rightarrow> Inr (Option.bind (js_at outputs oi) id)))))"

definition getRunIndexLength :: "IRunData \<Rightarrow> string \<Rightarrow> nat" where
  "getRunIndexLength runData nodeName =
     (case map_get runData nodeName of None \<Rightarrow> 0 | Some tasks \<Rightarrow> length tasks)"

text \<open>The loop over the run indexes; the list holds the indexes still to try.\<close>

fun firstRunWithData ::
  "IRunData \<Rightarrow> string \<Rightarrow> NodeConnectionType \<Rightarrow> nat \<Rightarrow> nat list
     \<Rightarrow> (INodeExecutionData list \<times> nat) option result" where
  "firstRunWithData runData nodeName connectionType oi [] = Inr None"
| "firstRunWithData runData nodeName connectionType oi (runIndex # rest) =
     rbind (getIncomingData runData nodeName (int runIndex) connectionType (int oi)) (\<lambda>d.
       case d of
         Some (x # xs) \<Rightarrow> Inr (Some (x # xs, runIndex))
       | _ \<Rightarrow> firstRunWithData runData nodeName connectionType oi rest)"

definition getIncomingDataFromAnyRun ::
  "IRunData \<Rightarrow> string \<Rightarrow> NodeConnectionType \<Rightarrow> nat \<Rightarrow> (INodeExecutionData list \<times> nat) option result" where
  "getIncomingDataFromAnyRun runData nodeName connectionType oi =
     firstRunWithData runData nodeName connectionType oi [0..<getRunIndexLength runData nodeName]"

text \<open>\<open>Math.max(...xs)\<close> on a non-empty array.\<close>

definition math_max :: "nat list \<Rightarrow> nat" where
  "math_max xs = Max (set xs)"

definition getNextExecutionIndex :: "IRunData \<Rightarrow> nat" where
  "getNextExecutionIndex runData =
     (if map_keys runData = [] then 0
      else let previousIndices =
                 map the (filter (\<lambda>v. v \<noteq> None) (map task_executionIndex (concat (map_values runData))))
           in if previousIndices = [] then 0 else math_max previousIndices + 1)"

section \<open>Cleaning run data\<close>

text \<open>The inner loops of \<open>cleanRunData\<close>: one node with its sub-nodes, and one node to clean
  with its children.\<close>

definition cleanNode :: "DirectedGraph \<Rightarrow> INode \<Rightarrow> IRunData \<Rightarrow> IRunData result" where
  "cleanNode g node rd =
     rbind (getParentConnections g node) (\<lambda>subNodeConnections.
       Inr (fold (\<lambda>c r. if gc_type c = Main then r else map_delete (node_name (from_node c)) r)
              subNodeConnections (map_delete (node_name node) rd)))"

definition cleanNodeAndChildren :: "DirectedGraph \<Rightarrow> INode \<Rightarrow> IRunData \<Rightarrow> IRunData result" where
  "cleanNodeAndChildren g nodeToClean rd =
     rbind (getChildren g nodeToClean) (\<lambda>children.
       rfold (cleanNode g) (nodeToClean # children) (map_delete (node_name nodeToClean) rd))"

definition cleanRunData :: "IRunData \<Rightarrow> DirectedGraph \<Rightarrow> INode list \<Rightarrow> IRunData result" where
  "cleanRunData runData g nodesToClean =
     rbind (rfold (cleanNodeAndChildren g) nodesToClean runData) (\<lambda>newRunData.
       Inr (fold (\<lambda>nodeName r. if \<not> hasNode g nodeName then map_delete nodeName r else r)
              (map_keys newRunData) newRunData))"

section \<open>The reads\<close>

text \<open>Every recorded run of a node that has data has it for the given connection type.\<close>

definition type_recorded :: "IRunData \<Rightarrow> string \<Rightarrow> NodeConnectionType \<Rightarrow> bool" where
  "type_recorded runData nodeName ty \<longleftrightarrow>
     (case map_get runData nodeName of
        None \<Rightarrow> True
      | Some tasks \<Rightarrow>
          (\<forall>task\<in>set tasks. case task_data task of None \<Rightarrow> True | Some d \<Rightarrow> map_get d ty \<noteq> None))"

lemma js_at_mem: "js_at xs i = Some x \<Longrightarrow> x \<in> set xs"
  by (auto simp: js_at_def Let_def split: if_splits)

lemma getIncomingData_total:
  "type_recorded runData name ty \<Longrightarrow> \<exists>d. getIncomingData runData name i ty oi = Inr d"
  by (fastforce simp: getIncomingData_def type_recorded_def dest: js_at_mem split: option.splits)

lemma firstRunWithData_total:
  "type_recorded runData name ty \<Longrightarrow> \<exists>d. firstRunWithData runData name ty oi is = Inr d"
proof (induction "is")
  case Nil
  then show ?case by simp
next
  case (Cons i "is")
  from getIncomingData_total[OF Cons.prems] obtain d
    where "getIncomingData runData name (int i) ty (int oi) = Inr d" by blast
  with Cons show ?case by (auto split: option.splits list.splits)
qed

lemma getIncomingDataFromAnyRun_total:
  "type_recorded runData name ty \<Longrightarrow> \<exists>d. getIncomingDataFromAnyRun runData name ty oi = Inr d"
  by (simp add: getIncomingDataFromAnyRun_def firstRunWithData_total)

lemma firstRunWithData_Some:
  "firstRunWithData runData name ty oi [k..<n] = Inr (Some (items, j)) \<Longrightarrow>
     k \<le> j \<and> j < n \<and> items \<noteq> [] \<and> getIncomingData runData name (int j) ty (int oi) = Inr (Some items)
     \<and> (\<forall>i. k \<le> i \<and> i < j \<longrightarrow> getIncomingData runData name (int i) ty (int oi) \<in> {Inr None, Inr (Some [])})"
proof (induction "n - k" arbitrary: k)
  case 0
  then show ?case by simp
next
  case (Suc m)
  then have u: "[k..<n] = k # [Suc k..<n]" by (simp add: upt_rec)
  from Suc.prems obtain d where d: "getIncomingData runData name (int k) ty (int oi) = Inr d"
    by (auto simp: u rbind_eq_Inr)
  show ?case
  proof (cases "\<exists>x xs. d = Some (x # xs)")
    case True
    with Suc.prems d Suc.hyps(2) show ?thesis by (auto simp: u)
  next
    case False
    then have d': "d = None \<or> d = Some []" by (metis neq_Nil_conv option.exhaust)
    with Suc.prems d have "firstRunWithData runData name ty oi [Suc k..<n] = Inr (Some (items, j))"
      by (auto simp: u)
    moreover have "m = n - Suc k" using Suc.hyps(2) by simp
    ultimately have IH: "Suc k \<le> j \<and> j < n \<and> items \<noteq> []
        \<and> getIncomingData runData name (int j) ty (int oi) = Inr (Some items)
        \<and> (\<forall>i. Suc k \<le> i \<and> i < j \<longrightarrow>
              getIncomingData runData name (int i) ty (int oi) \<in> {Inr None, Inr (Some [])})"
      by (intro Suc.hyps(1))
    have "getIncomingData runData name (int i) ty (int oi) \<in> {Inr None, Inr (Some [])}"
      if "k \<le> i" "i < j" for i
      using IH that d d' by (cases "i = k") auto
    with IH show ?thesis by auto
  qed
qed

lemma firstRunWithData_None:
  "firstRunWithData runData name ty oi is = Inr None \<Longrightarrow> i \<in> set is \<Longrightarrow>
     getIncomingData runData name (int i) ty (int oi) \<in> {Inr None, Inr (Some [])}"
proof (induction "is")
  case Nil
  then show ?case by simp
next
  case (Cons k "is")
  from Cons.prems(1) obtain d where d: "getIncomingData runData name (int k) ty (int oi) = Inr d"
    by (auto simp: rbind_eq_Inr)
  with Cons.prems(1) have "d = None \<or> d = Some []" and "firstRunWithData runData name ty oi is = Inr None"
    by (auto split: option.splits list.splits)
  with Cons d show ?case by auto
qed

text \<open>\<open>getIncomingDataFromAnyRun\<close> returns the data of the first run whose output has
  items, with that run's index; it returns \<open>undefined\<close> exactly when every run of the node has
  an empty or absent output.  It does not throw when every recorded run with data has the
  connection type.\<close>

theorem getIncomingDataFromAnyRun_first:
  assumes "type_recorded runData name ty"
  shows "\<exists>r. getIncomingDataFromAnyRun runData name ty oi = Inr r
    \<and> (\<forall>items j. r = Some (items, j) \<longrightarrow>
         j < getRunIndexLength runData name \<and> items \<noteq> []
         \<and> getIncomingData runData name (int j) ty (int oi) = Inr (Some items)
         \<and> (\<forall>i<j. getIncomingData runData name (int i) ty (int oi) \<in> {Inr None, Inr (Some [])}))
    \<and> (r = None \<longleftrightarrow> (\<forall>i<getRunIndexLength runData name.
         getIncomingData runData name (int i) ty (int oi) \<in> {Inr None, Inr (Some [])}))"
proof -
  let ?n = "getRunIndexLength runData name"
  from getIncomingDataFromAnyRun_total[OF assms] obtain r
    where r: "getIncomingDataFromAnyRun runData name ty oi = Inr r" by blast
  then have f: "firstRunWithData runData name ty oi [0..<?n] = Inr r"
    by (simp add: getIncomingDataFromAnyRun_def)
  show ?thesis
  proof (cases r)
    case None
    with f firstRunWithData_None[of runData name ty oi "[0..<?n]"] r show ?thesis by auto
  next
    case (Some p)
    obtain items j where p: "p = (items, j)" by (cases p)
    from firstRunWithData_Some[of runData name ty oi 0 ?n items j] f r Some p show ?thesis
      by (auto intro!: exI[of _ j])
  qed
qed

definition two_runs :: IRunData where
  "two_runs = [(''a'', [sample_task [], sample_task [sample_item]])]"

theorem getIncomingDataFromAnyRun_first_witness:
  "type_recorded two_runs ''a'' Main
   \<and> (\<exists>r. getIncomingDataFromAnyRun two_runs ''a'' Main 0 = Inr r \<and> r \<noteq> None)"
proof -
  have t: "type_recorded two_runs ''a'' Main"
    by (simp add: type_recorded_def two_runs_def sample_task_def)
  have "getIncomingData two_runs ''a'' 1 Main 0 = Inr (Some [sample_item])"
    and "getRunIndexLength two_runs ''a'' = 2" by code_simp+
  then have "\<not> (\<forall>i<getRunIndexLength two_runs ''a''.
      getIncomingData two_runs ''a'' (int i) Main (int 0) \<in> {Inr None, Inr (Some [])})"
    by (auto intro!: exI[of _ 1])
  with t getIncomingDataFromAnyRun_first[OF t, of 0] show ?thesis by metis
qed

lemma math_max_ge: "x \<in> set xs \<Longrightarrow> x \<le> math_max xs"
  by (simp add: math_max_def)

lemma math_max_mem: "xs \<noteq> [] \<Longrightarrow> math_max xs \<in> set xs"
  by (simp add: math_max_def)

text \<open>The next execution index is fresh and the least fresh one: it is greater than
  every index recorded in the run data, and it is zero or the successor of a recorded one.\<close>

theorem getNextExecutionIndex_fresh:
  "(\<forall>(name, tasks) \<in> set runData. \<forall>task \<in> set tasks. \<forall>i.
      task_executionIndex task = Some i \<longrightarrow> i < getNextExecutionIndex runData)
   \<and> (getNextExecutionIndex runData = 0
      \<or> (\<exists>(name, tasks) \<in> set runData. \<exists>task \<in> set tasks.
           task_executionIndex task = Some (getNextExecutionIndex runData - 1)))"
proof -
  let ?is = "map the (filter (\<lambda>v. v \<noteq> None) (map task_executionIndex (concat (map snd runData))))"
  have mem: "i \<in> set ?is \<longleftrightarrow> (\<exists>(name, tasks) \<in> set runData. \<exists>task \<in> set tasks. task_executionIndex task = Some i)"
    for i by (force simp: image_iff)
  have nx: "getNextExecutionIndex runData = (if ?is = [] then 0 else math_max ?is + 1)"
    by (simp add: getNextExecutionIndex_def Let_def)
  show ?thesis
  proof (cases "?is = []")
    case True
    then have "\<nexists>i. i \<in> set ?is" by simp
    then have "\<forall>(name, tasks) \<in> set runData. \<forall>task \<in> set tasks. \<forall>i. task_executionIndex task \<noteq> Some i"
      unfolding mem by (simp add: case_prod_unfold) (meson not_Some_eq)
    moreover have "getNextExecutionIndex runData = 0" using True unfolding nx by simp
    ultimately show ?thesis by auto
  next
    case False
    then have n: "getNextExecutionIndex runData = math_max ?is + 1" unfolding nx by (rule if_not_P)
    have "\<forall>(name, tasks) \<in> set runData. \<forall>task \<in> set tasks. \<forall>i.
        task_executionIndex task = Some i \<longrightarrow> i \<le> math_max ?is"
      using mem math_max_ge[of _ ?is] by fast
    moreover have "math_max ?is \<in> set ?is" using False by (rule math_max_mem)
    ultimately show ?thesis unfolding n mem by fastforce
  qed
qed

theorem getNextExecutionIndex_fresh_witness:
  "0 < getNextExecutionIndex [(''a'', [sample_task []])]"
  using getNextExecutionIndex_fresh[of "[(''a'', [sample_task []])]"] by (simp add: sample_task_def)

section \<open>What cleaning keeps\<close>

text \<open>Deleting keys one after another keeps the other entries in their order.\<close>

lemma fold_delete_filter:
  "fold (\<lambda>x r. if P x then r else map_delete (f x) r) xs m
     = filter (\<lambda>(k, v). k \<notin> f ` {x \<in> set xs. \<not> P x}) m"
proof (induction xs arbitrary: m)
  case Nil
  then show ?case by simp
next
  case (Cons x xs)
  then show ?case by (auto simp: AList.delete_eq intro!: filter_cong)
qed

text \<open>The names whose entry cleaning one node drops: the node, and every sub-node that feeds it
  or one of its ancestors over a connection that is not \<open>Main\<close>.\<close>

definition cleaned_with :: "DirectedGraph \<Rightarrow> INode \<Rightarrow> string set" where
  "cleaned_with g n = insert (node_name n)
     {node_name (from_node c) | c. c \<in> conn_set g \<and> gc_type c \<noteq> Main \<and> (to_node c, n) \<in> (edges g)\<^sup>*}"

definition cleaned_names :: "DirectedGraph \<Rightarrow> INode set \<Rightarrow> string set" where
  "cleaned_names g N = (\<Union>n \<in> (edges g)\<^sup>* `` N. cleaned_with g n)"

definition drop_names :: "string set \<Rightarrow> IRunData \<Rightarrow> IRunData" where
  "drop_names D rd = filter (\<lambda>(k, v). k \<notin> D) rd"

lemma drop_names_drop: "drop_names D (drop_names E rd) = drop_names (D \<union> E) rd"
  by (auto simp: drop_names_def intro!: filter_cong)

lemma drop_names_delete: "map_delete k rd = drop_names {k} rd"
  by (auto simp: drop_names_def AList.delete_eq intro!: filter_cong)

lemma rfold_drop_names:
  assumes "\<And>x rd. x \<in> set xs \<Longrightarrow> f x rd = Inr (drop_names (D x) rd)"
  shows "rfold f xs rd = Inr (drop_names (\<Union>x\<in>set xs. D x) rd)"
  using assms
proof (induction xs arbitrary: rd)
  case Nil
  then show ?case by (simp add: drop_names_def)
next
  case (Cons x xs)
  then show ?case by (simp add: drop_names_drop Un_commute)
qed

lemma cleanNode_drops:
  assumes "wf_graph g" and "n \<in> node_set g"
  shows "cleanNode g n rd = Inr (drop_names (cleaned_with g n) rd)"
proof -
  from getParentConnections_total[OF assms] obtain cs where cs: "getParentConnections g n = Inr cs"
    by blast
  have "set cs = {c \<in> conn_set g. (to_node c, n) \<in> (edges g)\<^sup>*}"
    using getParentConnections_reach[OF assms(1) cs] by simp
  then have "node_name ` from_node ` {c \<in> set cs. gc_type c \<noteq> Main} \<union> {node_name n} = cleaned_with g n"
    by (auto simp: cleaned_with_def image_iff)
  then show ?thesis
    by (simp add: cleanNode_def cs fold_delete_filter drop_names_delete image_image
        drop_names_drop flip: drop_names_def)
qed

lemma reach_nodes:
  "wf_graph g \<Longrightarrow> N \<subseteq> node_set g \<Longrightarrow> (edges g)\<^sup>* `` N \<subseteq> node_set g"
  using wf_edges by (blast elim: rtranclE)

lemma cleanNodeAndChildren_drops:
  assumes "wf_graph g" and "n \<in> node_set g"
  shows "cleanNodeAndChildren g n rd = Inr (drop_names (cleaned_names g {n}) rd)"
proof -
  from getChildren_total[OF assms] obtain cs where cs: "getChildren g n = Inr cs" by blast
  have set_cs: "set (n # cs) = (edges g)\<^sup>* `` {n}"
    using getChildren_reach(1)[OF assms(1) cs] by (auto dest: rtranclD trancl_into_rtrancl)
  then have "set (n # cs) \<subseteq> node_set g" using reach_nodes[of g "{n}"] assms by simp
  then have "rfold (cleanNode g) (n # cs) (map_delete (node_name n) rd)
      = Inr (drop_names (\<Union>m\<in>set (n # cs). cleaned_with g m) (map_delete (node_name n) rd))"
    using assms(1) by (intro rfold_drop_names cleanNode_drops) auto
  moreover have "node_name n \<in> (\<Union>m \<in> (edges g)\<^sup>* `` {n}. cleaned_with g m)"
    by (auto simp: cleaned_with_def intro!: bexI[of _ n])
  ultimately show ?thesis
    unfolding set_cs
    by (simp add: cleanNodeAndChildren_def cs cleaned_names_def drop_names_delete drop_names_drop
        insert_absorb)
qed

lemma clean_unknown:
  "fold (\<lambda>k r. if \<not> hasNode g k then map_delete k r else r) (map fst m) m = filter (\<lambda>(k, v). hasNode g k) m"
  for m :: IRunData
proof -
  have "fold (\<lambda>k r. if \<not> hasNode g k then map_delete k r else r) (map fst m) m
      = fold (\<lambda>k r. if hasNode g k then r else map_delete (id k) r) (map fst m) m"
    by (intro fold_cong) auto
  also have "\<dots> = filter (\<lambda>(k, v). hasNode g k) m"
    unfolding fold_delete_filter by (rule filter_cong) force+
  finally show ?thesis .
qed

text \<open>On any graph, cleaning that returns has dropped entries only, those of unknown nodes among them.\<close>

definition dropped_from :: "IRunData \<Rightarrow> IRunData \<Rightarrow> bool" where
  "dropped_from rd rd' \<longleftrightarrow> (\<exists>D. rd' = drop_names D rd)"

lemma dropped_from_refl: "dropped_from rd rd"
  unfolding dropped_from_def by (rule exI [of _ "{}"]) (simp add: drop_names_def)

lemma dropped_from_trans: "dropped_from rd rd' \<Longrightarrow> dropped_from rd' rd'' \<Longrightarrow> dropped_from rd rd''"
  by (auto simp: dropped_from_def drop_names_drop)

lemma dropped_from_filter: "dropped_from rd (filter (\<lambda>(k, v). k \<notin> D) rd)"
  by (auto simp: dropped_from_def drop_names_def)

lemma cleanNode_dropped: "cleanNode g n rd = Inr rd' \<Longrightarrow> dropped_from rd rd'"
  by (auto simp: cleanNode_def rbind_eq_Inr fold_delete_filter drop_names_delete dropped_from_def drop_names_drop
      simp flip: drop_names_def)

lemma rfold_dropped:
  assumes "rfold f xs rd = Inr rd'" "\<And>x u v. f x u = Inr v \<Longrightarrow> dropped_from u v"
  shows "dropped_from rd rd'"
  using rfold_invariant [OF assms(1), of "dropped_from rd"] assms(2) dropped_from_refl dropped_from_trans by blast

lemma cleanNodeAndChildren_dropped: "cleanNodeAndChildren g n rd = Inr rd' \<Longrightarrow> dropped_from rd rd'"
proof -
  assume "cleanNodeAndChildren g n rd = Inr rd'"
  then obtain cs where "rfold (cleanNode g) (n # cs) (map_delete (node_name n) rd) = Inr rd'"
    unfolding cleanNodeAndChildren_def rbind_eq_Inr by blast
  then have "dropped_from (map_delete (node_name n) rd) rd'"
    by (rule rfold_dropped) (rule cleanNode_dropped)
  moreover have "dropped_from rd (map_delete (node_name n) rd)"
    by (auto simp: dropped_from_def drop_names_delete)
  ultimately show ?thesis by (rule dropped_from_trans [rotated])
qed

lemma cleanRunData_dropped:
  assumes "cleanRunData rd g ns = Inr rd'"
  shows "dropped_from rd rd'" and "k \<in> fst ` set rd' \<Longrightarrow> hasNode g k"
proof -
  obtain rd1 where 1: "rfold (cleanNodeAndChildren g) ns rd = Inr rd1" and 2: "rd' = filter (\<lambda>(k, v). hasNode g k) rd1"
    using assms unfolding cleanRunData_def rbind_eq_Inr clean_unknown by auto
  have "rd' = filter (\<lambda>(k, v). k \<notin> {k. \<not> hasNode g k}) rd1"
    using 2 by simp
  with dropped_from_filter [of rd1 "{k. \<not> hasNode g k}"] have "dropped_from rd1 rd'"
    by simp
  with rfold_dropped [OF 1 cleanNodeAndChildren_dropped] show "dropped_from rd rd'"
    by (rule dropped_from_trans)
  show "k \<in> fst ` set rd' \<Longrightarrow> hasNode g k"
    using 2 by auto
qed

text \<open>On every well-formed graph, cleaning returns, and drops what \<open>cleaned_names\<close> says.\<close>

lemma cleanRunData_exact:
  assumes "wf_graph g" and "set nodesToClean \<subseteq> node_set g"
  shows "cleanRunData runData g nodesToClean =
    Inr (filter (\<lambda>(name, tasks). hasNode g name \<and> name \<notin> cleaned_names g (set nodesToClean)) runData)"
proof -
  have "rfold (cleanNodeAndChildren g) nodesToClean runData
      = Inr (drop_names (\<Union>n\<in>set nodesToClean. cleaned_names g {n}) runData)"
    using assms by (intro rfold_drop_names cleanNodeAndChildren_drops) auto
  moreover have "(\<Union>n\<in>set nodesToClean. cleaned_names g {n}) = cleaned_names g (set nodesToClean)"
    by (auto simp: cleaned_names_def)
  ultimately show ?thesis
    by (simp add: cleanRunData_def clean_unknown drop_names_def case_prod_unfold conj_commute)
qed

text \<open>The sub-nodes of a set of nodes lead to it over connections that are not \<open>Main\<close>.\<close>

definition sub_edges :: "DirectedGraph \<Rightarrow> (INode \<times> INode) set" where
  "sub_edges g = {(from_node c, to_node c) | c. c \<in> conn_set g \<and> gc_type c \<noteq> Main}"

definition sub_nodes_of :: "DirectedGraph \<Rightarrow> INode set \<Rightarrow> INode set" where
  "sub_nodes_of g M = {x. \<exists>m\<in>M. (x, m) \<in> (sub_edges g)\<^sup>+}"

text \<open>The only sub-nodes above \<open>M\<close> are those of \<open>M\<close> itself: no node upstream of \<open>M\<close> has one.\<close>

definition no_sub_nodes_upstream :: "DirectedGraph \<Rightarrow> INode set \<Rightarrow> bool" where
  "no_sub_nodes_upstream g M \<longleftrightarrow>
     (\<forall>(x, y)\<in>sub_edges g. (\<exists>m\<in>M. (y, m) \<in> (edges g)\<^sup>*) \<longrightarrow> (\<exists>m\<in>M. (y, m) \<in> (sub_edges g)\<^sup>*))"

lemma sub_edges_subset: "sub_edges g \<subseteq> edges g"
  by (auto simp: sub_edges_def edges_def)

lemma cleaned_names_sub_nodes:
  assumes "no_sub_nodes_upstream g ((edges g)\<^sup>* `` N)"
  shows "cleaned_names g N = node_name ` ((edges g)\<^sup>* `` N \<union> sub_nodes_of g ((edges g)\<^sup>* `` N))"
proof -
  let ?M = "(edges g)\<^sup>* `` N"
  have "(\<exists>m\<in>?M. \<exists>y. (x, y) \<in> sub_edges g \<and> (y, m) \<in> (edges g)\<^sup>*) \<longleftrightarrow> x \<in> sub_nodes_of g ?M" for x
  proof
    assume "\<exists>m\<in>?M. \<exists>y. (x, y) \<in> sub_edges g \<and> (y, m) \<in> (edges g)\<^sup>*"
    then obtain y where y: "(x, y) \<in> sub_edges g" "\<exists>m\<in>?M. (y, m) \<in> (edges g)\<^sup>*"
      by blast
    with assms obtain m where "m \<in> ?M" "(y, m) \<in> (sub_edges g)\<^sup>*"
      unfolding no_sub_nodes_upstream_def by blast
    with y(1) show "x \<in> sub_nodes_of g ?M"
      unfolding sub_nodes_of_def using rtrancl_into_trancl2 by fast
  next
    assume "x \<in> sub_nodes_of g ?M"
    then obtain m where "m \<in> ?M" "(x, m) \<in> (sub_edges g)\<^sup>+"
      by (auto simp: sub_nodes_of_def)
    then show "\<exists>m\<in>?M. \<exists>y. (x, y) \<in> sub_edges g \<and> (y, m) \<in> (edges g)\<^sup>*"
      using rtrancl_mono [OF sub_edges_subset] by (blast dest: tranclD)
  qed
  moreover have "cleaned_names g N = node_name ` (?M \<union> {x. \<exists>m\<in>?M. \<exists>y. (x, y) \<in> sub_edges g \<and> (y, m) \<in> (edges g)\<^sup>*})"
    unfolding cleaned_names_def cleaned_with_def sub_edges_def by blast
  ultimately show ?thesis by simp
qed

text \<open>\<^bold>\<open>C21.\<close> On a well-formed graph in which no node upstream of the nodes to clean has sub-nodes of its
  own, cleaning never throws, and the result is the given run data with entries dropped and nothing else
  changed: an entry stays, in its place, exactly when its node is in the graph, is neither a cleaned
  node nor downstream of one, and is not a sub-node of such a node.\<close>

theorem cleanRunData_correct:
  assumes "wf_graph g" and "set nodesToClean \<subseteq> node_set g"
  defines "M \<equiv> (edges g)\<^sup>* `` set nodesToClean"
  assumes "no_sub_nodes_upstream g M"
  shows "cleanRunData runData g nodesToClean =
    Inr (filter (\<lambda>(name, tasks). hasNode g name \<and> name \<notin> node_name ` (M \<union> sub_nodes_of g M)) runData)"
  using cleanRunData_exact [OF assms(1,2)] cleaned_names_sub_nodes assms(4) unfolding M_def by simp

definition agent_graph :: DirectedGraph where
  "agent_graph =
     sample_graph [sample_node 1 ''trigger'', sample_node 2 ''agent'', sample_node 3 ''last'', sample_node 4 ''model'']
       [sample_conn (sample_node 1 ''trigger'') (sample_node 2 ''agent''),
        sample_conn (sample_node 2 ''agent'') (sample_node 3 ''last''),
        (sample_conn (sample_node 4 ''model'') (sample_node 2 ''agent''))\<lparr>gc_type := AiLanguageModel\<rparr>]"

definition agent_run :: IRunData where
  "agent_run = map (\<lambda>n. (n, [sample_task [sample_item]])) [''trigger'', ''agent'', ''model'', ''last'', ''gone'']"

lemma agent_graph_sub_nodes: "no_sub_nodes_upstream agent_graph ((edges agent_graph)\<^sup>* `` set [sample_node 2 ''agent''])"
proof -
  have "sub_edges agent_graph \<subseteq> {(sample_node 4 ''model'', sample_node 2 ''agent'')}"
    by (auto simp: sub_edges_def conn_set_def agent_graph_def sample_graph_def sample_conn_def)
  then show ?thesis
    by (auto simp: no_sub_nodes_upstream_def)
qed

theorem cleanRunData_correct_witness:
  "filter (\<lambda>(name, tasks). hasNode agent_graph name
      \<and> name \<notin> node_name ` ((edges agent_graph)\<^sup>* `` set [sample_node 2 ''agent'']
          \<union> sub_nodes_of agent_graph ((edges agent_graph)\<^sup>* `` set [sample_node 2 ''agent'']))) agent_run
     = [(''trigger'', [sample_task [sample_item]])]"
proof -
  have w: "wf_graph agent_graph" by code_simp
  have s: "set [sample_node 2 ''agent''] \<subseteq> node_set agent_graph" by code_simp
  have "cleanRunData agent_run agent_graph [sample_node 2 ''agent'']
      = Inr [(''trigger'', [sample_task [sample_item]])]" by code_simp
  with cleanRunData_correct [OF w s agent_graph_sub_nodes, of agent_run] show ?thesis by simp
qed

text \<open>Cleaning the last node of a chain also drops the run data of the sub-node of an agent
  upstream of it, although that agent keeps its own run data: the comment says the filter on
  \<open>Main\<close> leaves what is upstream alone, but \<open>getParentConnections\<close> is transitive.\<close>

theorem cleanRunData_drops_upstream_sub_nodes:
  "cleanRunData agent_run agent_graph [sample_node 3 ''last'']
     = Inr [(''trigger'', [sample_task [sample_item]]), (''agent'', [sample_task [sample_item]])]"
  by code_simp

end
