(* ===== verification/Strong_Components.thy ===== *)
theory Strong_Components
  imports Directed_Graph
begin

text \<open>
  \<open>DirectedGraph.getStronglyConnectedComponents\<close>
  (\<^verbatim>\<open>partial-execution-utils/directed-graph.ts\<close>): the closure variables of the method are the
  fields of \<open>tarjan\<close>, the inner arrow function is \<open>followNode\<close>, and its loop over the
  direct children is \<open>followChildren\<close>.
\<close>

section \<open>The algorithm\<close>

record tarjan =
  t_id :: nat
  t_visited :: "INode js_set"
  t_ids :: "(INode, nat) js_map"
  t_low :: "(INode, nat) js_map"
  t_stack :: "INode list"
  t_sccs :: "INode js_set list"

definition tarjan_init :: tarjan where
  "tarjan_init = \<lparr>t_id = 0, t_visited = [], t_ids = [], t_low = [], t_stack = [], t_sccs = []\<rparr>"

definition enterNode :: "INode \<Rightarrow> tarjan \<Rightarrow> tarjan" where
  "enterNode node s =
     s\<lparr>t_visited := set_add node (t_visited s),
       t_low := map_set node (t_id s) (t_low s),
       t_ids := map_set node (t_id s) (t_ids s),
       t_id := t_id s + 1,
       t_stack := t_stack s @ [node]\<rparr>"

definition relaxLow :: "INode \<Rightarrow> INode \<Rightarrow> tarjan \<Rightarrow> tarjan result" where
  "relaxLow node child s =
     (if child \<in> set (t_stack s) then
        (case map_get (t_low s) child of
           None \<Rightarrow> Inl AssertionError
         | Some childLow \<Rightarrow>
             (case map_get (t_low s) node of
                None \<Rightarrow> Inl AssertionError
              | Some ownLow \<Rightarrow> Inr (s\<lparr>t_low := map_set node (min childLow ownLow) (t_low s)\<rparr>)))
      else Inr s)"

text \<open>The \<open>while\<close> loop that pops the stack, on the stack read from its top.\<close>

fun popScc :: "nat \<Rightarrow> (INode, nat) js_map \<Rightarrow> INode list \<Rightarrow> INode js_set \<Rightarrow> INode list \<times> INode js_set" where
  "popScc ownId low [] scc = ([], scc)"
| "popScc ownId low (n # st) scc =
     (if map_get low n = Some ownId then popScc ownId low st (set_add n scc) else (n # st, scc))"

definition finishNode :: "INode \<Rightarrow> tarjan \<Rightarrow> tarjan result" where
  "finishNode node s =
     (case map_get (t_ids s) node of
        None \<Rightarrow> Inl AssertionError
      | Some ownId \<Rightarrow>
          (case map_get (t_low s) node of
             None \<Rightarrow> Inl AssertionError
           | Some ownLow \<Rightarrow>
               Inr (if ownId = ownLow then
                      (let (st, scc) = popScc ownId (t_low s) (rev (t_stack s)) []
                       in s\<lparr>t_stack := rev st,
                            t_sccs := (if scc = [] then t_sccs s else t_sccs s @ [scc])\<rparr>)
                    else s)))"

function (sequential) followNode :: "DirectedGraph \<Rightarrow> INode \<Rightarrow> tarjan \<Rightarrow> tarjan result"
  and followChildren :: "DirectedGraph \<Rightarrow> INode \<Rightarrow> INode list \<Rightarrow> tarjan \<Rightarrow> tarjan result" where
  "followNode g node s =
     (if set_has (t_visited s) node then Inr s
      else rbind (getDirectChildConnections g node) (\<lambda>cs.
           rbind (followChildren g node (map to_node cs) (enterNode node s)) (finishNode node)))"
| "followChildren g node [] s = Inr s"
| "followChildren g node (child # cs) s =
     rbind (followNode g child s) (\<lambda>s1.
     rbind (relaxLow node child s1) (\<lambda>s2. followChildren g node cs s2))"
  by pat_completeness auto

lemma visited_relaxLow: "relaxLow n c s = Inr s' \<Longrightarrow> t_visited s' = t_visited s"
  by (auto simp: relaxLow_def split: if_splits option.splits)

lemma visited_finishNode: "finishNode n s = Inr s' \<Longrightarrow> t_visited s' = t_visited s"
  by (auto simp: finishNode_def Let_def split: option.splits prod.splits if_splits)

lemma set_visited_enterNode: "set (t_visited (enterNode n s)) = insert n (set (t_visited s))"
  by (simp add: enterNode_def)

lemma follow_grows:
  "followNode_followChildren_dom (Inl (g, n, s)) \<Longrightarrow> followNode g n s = Inr s' \<Longrightarrow>
     set (t_visited s) \<subseteq> set (t_visited s')"
  "followNode_followChildren_dom (Inr (g, n, cs, s)) \<Longrightarrow> followChildren g n cs s = Inr s' \<Longrightarrow>
     set (t_visited s) \<subseteq> set (t_visited s')"
proof (induction g n s and g n cs s arbitrary: s' and s' rule: followNode_followChildren.pinduct)
  case (1 g node s)
  show ?case
  proof (cases "node \<in> set (t_visited s)")
    case True
    with 1 show ?thesis by (simp add: followNode.psimps)
  next
    case False
    with 1(1,3) obtain cs s2 where "getDirectChildConnections g node = Inr cs"
      and f: "followChildren g node (map to_node cs) (enterNode node s) = Inr s2"
      and "finishNode node s2 = Inr s'"
      by (auto simp: followNode.psimps rbind_eq_Inr)
    with False 1(2) have "set (t_visited (enterNode node s)) \<subseteq> set (t_visited s2)" by blast
    with \<open>finishNode node s2 = Inr s'\<close> show ?thesis
      by (auto simp: visited_finishNode set_visited_enterNode)
  qed
next
  case (2 g node s)
  then show ?case by (simp add: followChildren.psimps)
next
  case (3 g node child cs s)
  from 3(1,4) obtain s1 s2 where f: "followNode g child s = Inr s1" and r: "relaxLow node child s1 = Inr s2"
    and c: "followChildren g node cs s2 = Inr s'"
    by (auto simp: followChildren.psimps rbind_eq_Inr)
  from 3(2)[OF f] 3(3)[OF f r c] visited_relaxLow[OF r] show ?case by auto
qed

definition follow_work :: "DirectedGraph \<Rightarrow> INode list \<Rightarrow> tarjan \<Rightarrow> nat" where
  "follow_work g cs s = card ((to_node ` conn_set g \<union> set cs) - set (t_visited s))"

termination followNode
proof (relation "measures [\<lambda>x. case x of Inl (g, n, s) \<Rightarrow> follow_work g [n] s | Inr (g, n, cs, s) \<Rightarrow> follow_work g cs s,
                           \<lambda>x. case x of Inl _ \<Rightarrow> 0 | Inr _ \<Rightarrow> 1,
                           \<lambda>x. case x of Inl _ \<Rightarrow> 0 | Inr (g, n, cs, s) \<Rightarrow> length cs]", goal_cases)
  case 1
  show ?case by simp
next
  case (2 g node s cs)
  then have "set (map to_node cs) \<subseteq> to_node ` conn_set g" by (auto simp: set_child_connections)
  with 2 have "follow_work g (map to_node cs) (enterNode node s) < follow_work g [node] s"
    unfolding follow_work_def set_visited_enterNode by (intro psubset_card_mono) auto
  then show ?case by simp
next
  case (3 g node child cs s)
  have "follow_work g [child] s \<le> follow_work g (child # cs) s"
    unfolding follow_work_def by (intro card_mono) auto
  then show ?case by auto
next
  case (4 g node child cs s s1 s2)
  have "set (t_visited s) \<subseteq> set (t_visited s2)"
    using follow_grows(1)[OF 4(3,1)] visited_relaxLow[OF 4(2)] by simp
  then have "follow_work g cs s2 \<le> follow_work g (child # cs) s"
    unfolding follow_work_def by (intro card_mono) auto
  then show ?case by auto
qed

declare followNode.simps [simp del]

definition getStronglyConnectedComponents :: "DirectedGraph \<Rightarrow> INode js_set list result" where
  "getStronglyConnectedComponents g =
     rbind (rfold (\<lambda>node s. followNode g node s) (map_values (nodes g)) tarjan_init) (\<lambda>s. Inr (t_sccs s))"

section \<open>Soundness\<close>

text \<open>A set of nodes is strongly connected when each of its nodes reaches each other one.\<close>

definition strongly_connected :: "DirectedGraph \<Rightarrow> INode set \<Rightarrow> bool" where
  "strongly_connected g C \<longleftrightarrow> (\<forall>x\<in>C. \<forall>y\<in>C. (x, y) \<in> (edges g)\<^sup>*)"

text \<open>The invariant of the search: both tables are defined on the visited nodes, identifiers
  are fresh and distinct, and a low-link is at most the identifier and names a node that can be
  reached.\<close>

definition tarjan_inv :: "DirectedGraph \<Rightarrow> tarjan \<Rightarrow> bool" where
  "tarjan_inv g s \<longleftrightarrow>
     (\<forall>v. v \<in> set (t_visited s) \<longleftrightarrow> map_get (t_ids s) v \<noteq> None)
     \<and> (\<forall>v. v \<in> set (t_visited s) \<longleftrightarrow> map_get (t_low s) v \<noteq> None)
     \<and> (\<forall>u v i. map_get (t_ids s) u = Some i \<longrightarrow> map_get (t_ids s) v = Some i \<longrightarrow> u = v)
     \<and> (\<forall>v i. map_get (t_ids s) v = Some i \<longrightarrow> i < t_id s)
     \<and> (\<forall>v i l. map_get (t_ids s) v = Some i \<longrightarrow> map_get (t_low s) v = Some l \<longrightarrow> l \<le> i)
     \<and> (\<forall>v l. map_get (t_low s) v = Some l \<longrightarrow> (\<exists>w. map_get (t_ids s) w = Some l \<and> (v, w) \<in> (edges g)\<^sup>*))
     \<and> set (t_stack s) \<subseteq> set (t_visited s)
     \<and> (\<forall>C\<in>set (t_sccs s). strongly_connected g (set C))"

lemma tarjan_invD:
  assumes "tarjan_inv g s"
  shows "v \<in> set (t_visited s) \<longleftrightarrow> (\<exists>i. map_get (t_ids s) v = Some i)"
    and "v \<in> set (t_visited s) \<longleftrightarrow> (\<exists>l. map_get (t_low s) v = Some l)"
    and "map_get (t_ids s) u = Some i \<Longrightarrow> map_get (t_ids s) v = Some i \<Longrightarrow> u = v"
    and "map_get (t_ids s) v = Some i \<Longrightarrow> i < t_id s"
    and "map_get (t_ids s) v = Some i \<Longrightarrow> map_get (t_low s) v = Some l \<Longrightarrow> l \<le> i"
    and "map_get (t_low s) v = Some l \<Longrightarrow> \<exists>w. map_get (t_ids s) w = Some l \<and> (v, w) \<in> (edges g)\<^sup>*"
    and "x \<in> set (t_stack s) \<Longrightarrow> x \<in> set (t_visited s)"
    and "C \<in> set (t_sccs s) \<Longrightarrow> strongly_connected g (set C)"
  using assms unfolding tarjan_inv_def by blast+

text \<open>What a call leaves alone: identifiers of visited nodes, and low-links outside \<open>X\<close>.\<close>

definition keeps :: "INode set \<Rightarrow> tarjan \<Rightarrow> tarjan \<Rightarrow> bool" where
  "keeps X s s' \<longleftrightarrow>
     set (t_visited s) \<subseteq> set (t_visited s')
     \<and> (\<forall>v\<in>set (t_visited s). map_get (t_ids s') v = map_get (t_ids s) v)
     \<and> (\<forall>v\<in>set (t_visited s) - X. map_get (t_low s') v = map_get (t_low s) v)"

lemma keeps_refl [simp]: "keeps X s s"
  by (simp add: keeps_def)

lemma keeps_trans: "keeps X s t \<Longrightarrow> keeps Y t u \<Longrightarrow> keeps (X \<union> Y) s u"
  unfolding keeps_def by (blast intro: trans)

lemma keeps_mono: "keeps X s t \<Longrightarrow> X \<subseteq> Y \<Longrightarrow> keeps Y s t"
  by (auto simp: keeps_def)

text \<open>The stack after a call on \<open>n\<close> extends the stack before it with nodes below \<open>n\<close>.\<close>

definition grows_below :: "DirectedGraph \<Rightarrow> INode \<Rightarrow> tarjan \<Rightarrow> tarjan \<Rightarrow> bool" where
  "grows_below g n s s' \<longleftrightarrow>
     (\<exists>ext. t_stack s' = t_stack s @ ext \<and> (\<forall>x\<in>set ext. (n, x) \<in> (edges g)\<^sup>*))"

lemma grows_below_trans: "grows_below g n s t \<Longrightarrow> grows_below g n t u \<Longrightarrow> grows_below g n s u"
  unfolding grows_below_def by fastforce

lemma grows_below_edge: "grows_below g c s t \<Longrightarrow> (n, c) \<in> edges g \<Longrightarrow> grows_below g n s t"
  unfolding grows_below_def by (meson converse_rtrancl_into_rtrancl)

lemma grows_below_same: "t_stack t = t_stack s \<Longrightarrow> grows_below g n s t"
  by (simp add: grows_below_def)

lemma tarjan_inv_init: "tarjan_inv g tarjan_init"
  by (simp add: tarjan_inv_def tarjan_init_def)

lemma tarjan_inv_enter:
  assumes "tarjan_inv g s" and "n \<notin> set (t_visited s)"
  shows "tarjan_inv g (enterNode n s)"
proof -
  note d = tarjan_invD[OF assms(1)]
  have new: "map_get (t_ids s) n = None" using assms(2) d(1) by (metis not_None_eq)
  have low: "\<exists>w. map_get (t_ids (enterNode n s)) w = Some l \<and> (v, w) \<in> (edges g)\<^sup>*"
    if l: "map_get (t_low (enterNode n s)) v = Some l" for v l
  proof (cases "v = n")
    case True
    with l show ?thesis by (auto simp: enterNode_def)
  next
    case False
    with l obtain w where "map_get (t_ids s) w = Some l" "(v, w) \<in> (edges g)\<^sup>*"
      using d(6) by (auto simp: enterNode_def)
    with new show ?thesis by (intro exI[of _ w]) (auto simp: enterNode_def)
  qed
  have fresh: "map_get (t_ids s) v \<noteq> Some (t_id s)" for v using d(4) by blast
  show ?thesis
    unfolding tarjan_inv_def
    using d(1-5) fresh low d(7,8)
    by (auto simp: enterNode_def less_Suc_eq split: if_splits)
qed

lemma keeps_enter: "n \<notin> set (t_visited s) \<Longrightarrow> keeps X s (enterNode n s)"
  by (auto simp: keeps_def enterNode_def)

lemma relaxLow_Inr:
  assumes "relaxLow n c s = Inr s'"
  shows "s' = s \<or> (\<exists>a b. map_get (t_low s) c = Some a \<and> map_get (t_low s) n = Some b
            \<and> s' = s\<lparr>t_low := map_set n (min a b) (t_low s)\<rparr>)"
  using assms by (auto simp: relaxLow_def split: if_splits option.splits)

lemma tarjan_inv_relax:
  assumes inv: "tarjan_inv g s" and "relaxLow n c s = Inr s'" and "(n, c) \<in> edges g"
  shows "tarjan_inv g s'" and "keeps {n} s s'" and "t_stack s' = t_stack s"
proof -
  note d = tarjan_invD[OF inv]
  consider "s' = s"
    | a b where "map_get (t_low s) c = Some a" "map_get (t_low s) n = Some b"
        "s' = s\<lparr>t_low := map_set n (min a b) (t_low s)\<rparr>"
    using relaxLow_Inr[OF assms(2)] by blast
  then have "tarjan_inv g s' \<and> keeps {n} s s' \<and> t_stack s' = t_stack s"
  proof cases
    case 1
    with inv show ?thesis by simp
  next
    case (2 a b)
    from d(6)[OF 2(1)] obtain w where "map_get (t_ids s) w = Some a" "(c, w) \<in> (edges g)\<^sup>*" by blast
    with assms(3) have a: "\<exists>w. map_get (t_ids s) w = Some a \<and> (n, w) \<in> (edges g)\<^sup>*"
      by (meson converse_rtrancl_into_rtrancl)
    have m: "\<exists>w. map_get (t_ids s) w = Some (min a b) \<and> (n, w) \<in> (edges g)\<^sup>*"
      using a d(6)[OF 2(2)] by (simp add: min_def)
    have le: "min a b \<le> i" if "map_get (t_ids s) n = Some i" for i
      using d(5)[OF that 2(2)] by simp
    have L: "map_get (t_low s') v = (if v = n then Some (min a b) else map_get (t_low s) v)" for v
      by (simp add: 2(3))
    have dom: "v \<in> set (t_visited s) \<longleftrightarrow> map_get (t_low s') v \<noteq> None" for v
      using d(2)[of v] 2(2) by (auto simp: L)
    have bound: "k \<le> i" if "map_get (t_ids s) v = Some i" "map_get (t_low s') v = Some k" for v i k
      using that le d(5)[of v i k] by (auto simp: L split: if_splits)
    have reach: "\<exists>w. map_get (t_ids s) w = Some k \<and> (v, w) \<in> (edges g)\<^sup>*"
      if "map_get (t_low s') v = Some k" for v k
      using that m d(6)[of v k] by (auto simp: L split: if_splits)
    have same: "t_visited s' = t_visited s" "t_ids s' = t_ids s" "t_id s' = t_id s"
      "t_stack s' = t_stack s" "t_sccs s' = t_sccs s" by (simp_all add: 2(3))
    have "tarjan_inv g s'"
      using inv unfolding tarjan_inv_def same using dom bound reach by blast
    moreover have "keeps {n} s s'" by (auto simp: keeps_def 2(3))
    ultimately show ?thesis by (simp add: 2(3))
  qed
  then show "tarjan_inv g s'" and "keeps {n} s s'" and "t_stack s' = t_stack s" by blast+
qed

lemma popScc_split:
  "popScc i low st scc = (st', scc') \<Longrightarrow>
     \<exists>pre. st = pre @ st' \<and> (\<forall>x\<in>set pre. map_get low x = Some i) \<and> set scc' = set scc \<union> set pre"
proof (induction i low st scc arbitrary: st' scc' rule: popScc.induct)
  case (1 i low scc)
  then show ?case by simp
next
  case (2 i low n st scc)
  show ?case
  proof (cases "map_get low n = Some i")
    case True
    with 2 obtain pre where "st = pre @ st'" "\<forall>x\<in>set pre. map_get low x = Some i"
      "set scc' = set (set_add n scc) \<union> set pre" by auto
    with True show ?thesis by (intro exI[of _ "n # pre"]) auto
  next
    case False
    with 2 show ?thesis by auto
  qed
qed

text \<open>A prefix that meets no element of \<open>zs\<close> stays in front of it.\<close>

lemma prefix_before:
  "pre @ ys = xs @ zs \<Longrightarrow> set pre \<inter> set zs = {} \<Longrightarrow> \<exists>us. ys = us @ zs \<and> xs = pre @ us"
proof (induction pre arbitrary: xs)
  case Nil
  then show ?case by auto
next
  case (Cons p pre)
  then show ?case by (cases xs) auto
qed

lemma tarjan_inv_finish:
  assumes inv: "tarjan_inv g s2" and fin: "finishNode n s2 = Inr s'"
    and old: "\<forall>x\<in>set (t_stack s). \<exists>i j. map_get (t_ids s2) x = Some i \<and> map_get (t_ids s2) n = Some j \<and> i < j"
    and stk: "t_stack s2 = t_stack s @ ext" and ext: "\<forall>x\<in>set ext. (n, x) \<in> (edges g)\<^sup>*"
  shows "tarjan_inv g s'" and "keeps {} s2 s'" and "grows_below g n s s'"
proof -
  note d = tarjan_invD[OF inv]
  from fin obtain i l where i: "map_get (t_ids s2) n = Some i" and l: "map_get (t_low s2) n = Some l"
    and s': "s' = (if i = l then
                      (let (st, scc) = popScc i (t_low s2) (rev (t_stack s2)) []
                       in s2\<lparr>t_stack := rev st,
                            t_sccs := (if scc = [] then t_sccs s2 else t_sccs s2 @ [scc])\<rparr>)
                    else s2)"
    by (auto simp: finishNode_def split: option.splits)
  have "tarjan_inv g s' \<and> keeps {} s2 s' \<and> grows_below g n s s'"
  proof (cases "i = l")
    case False
    with s' inv stk ext show ?thesis by (auto simp: grows_below_def)
  next
    case True
    obtain st scc where p: "popScc i (t_low s2) (rev (t_stack s2)) [] = (st, scc)" by fastforce
    from popScc_split[OF p] obtain pre where pre: "rev (t_stack s2) = pre @ st"
      "\<forall>x\<in>set pre. map_get (t_low s2) x = Some i" "set scc = set pre" by auto
    have "x \<notin> set (t_stack s)" if "x \<in> set pre" for x
    proof
      assume "x \<in> set (t_stack s)"
      with old i obtain k where k: "map_get (t_ids s2) x = Some k" "k < i" by auto
      from d(5)[OF k(1)] pre(2) that k(2) show False by fastforce
    qed
    then have "set pre \<inter> set (rev (t_stack s)) = {}" by auto
    with prefix_before[of pre st "rev ext" "rev (t_stack s)"] pre(1) stk
    obtain us where us: "st = us @ rev (t_stack s)" "rev ext = pre @ us" by auto
    have sub: "set pre \<subseteq> set ext" "set us \<subseteq> set ext" using us(2) by (metis Un_iff set_append set_rev subsetI)+
    have eq: "s' = s2\<lparr>t_stack := t_stack s @ rev us,
                        t_sccs := (if scc = [] then t_sccs s2 else t_sccs s2 @ [scc])\<rparr>"
      using s' True p us(1) by simp
    have home: "(x, n) \<in> (edges g)\<^sup>*" if "x \<in> set pre" for x
      using d(6)[of x i] pre(2) that d(3)[OF i] by blast
    have "strongly_connected g (set scc)"
      unfolding strongly_connected_def pre(3)
    proof (intro ballI)
      fix x y assume "x \<in> set pre" and "y \<in> set pre"
      with home sub(1) ext have "(x, n) \<in> (edges g)\<^sup>*" and "(n, y) \<in> (edges g)\<^sup>*" by auto
      then show "(x, y) \<in> (edges g)\<^sup>*" by (rule rtrancl_trans)
    qed
    moreover have "set (t_stack s @ rev us) \<subseteq> set (t_visited s2)"
      using d(7) sub(2) by (auto simp: stk)
    ultimately have "tarjan_inv g s'"
      using inv by (auto simp: tarjan_inv_def eq)
    moreover have "keeps {} s2 s'" by (simp add: keeps_def eq)
    moreover have "grows_below g n s s'" using sub(2) ext by (auto simp: grows_below_def eq)
    ultimately show ?thesis by blast
  qed
  then show "tarjan_inv g s'" and "keeps {} s2 s'" and "grows_below g n s s'" by blast+
qed

lemma follow_sound:
  "tarjan_inv g s \<Longrightarrow> followNode g n s = Inr s' \<Longrightarrow>
     tarjan_inv g s' \<and> keeps {} s s' \<and> grows_below g n s s'"
  "tarjan_inv g s \<Longrightarrow> n \<in> set (t_visited s) \<Longrightarrow> \<forall>c\<in>set cs. (n, c) \<in> edges g \<Longrightarrow> followChildren g n cs s = Inr s' \<Longrightarrow>
     tarjan_inv g s' \<and> keeps {n} s s' \<and> grows_below g n s s'"
proof (induction g n s and g n cs s arbitrary: s' and s' rule: followNode_followChildren.induct)
  case (1 g node s)
  show ?case
  proof (cases "node \<in> set (t_visited s)")
    case True
    with 1 show ?thesis by (auto simp: followNode.simps grows_below_def)
  next
    case False
    with 1(3) obtain cs s2 where c: "getDirectChildConnections g node = Inr cs"
      and f: "followChildren g node (map to_node cs) (enterNode node s) = Inr s2"
      and fin: "finishNode node s2 = Inr s'"
      by (auto simp: followNode.simps rbind_eq_Inr)
    let ?e = "enterNode node s"
    have e: "\<forall>c\<in>set (map to_node cs). (node, c) \<in> edges g"
      using c by (auto simp: set_child_connections edges_def)
    from 1(1)[OF False c tarjan_inv_enter[OF 1(2) False] _ e f]
    have inv2: "tarjan_inv g s2" and k2: "keeps {node} ?e s2" and g2: "grows_below g node ?e s2"
      by (auto simp: set_visited_enterNode)
    from g2 obtain ext where ext: "t_stack s2 = t_stack s @ node # ext" "\<forall>x\<in>set (node # ext). (node, x) \<in> (edges g)\<^sup>*"
      by (auto simp: grows_below_def enterNode_def)
    have old: "\<forall>x\<in>set (t_stack s). \<exists>i j. map_get (t_ids s2) x = Some i \<and> map_get (t_ids s2) node = Some j \<and> i < j"
    proof
      fix x assume "x \<in> set (t_stack s)"
      with 1(2) have x: "x \<in> set (t_visited s)" by (rule tarjan_invD(7))
      with tarjan_invD(1)[OF 1(2)] obtain i where i: "map_get (t_ids s) x = Some i" by blast
      with x False k2 have "map_get (t_ids s2) x = Some i" "map_get (t_ids s2) node = Some (t_id s)"
        by (auto simp: keeps_def enterNode_def)
      with tarjan_invD(4)[OF 1(2) i]
      show "\<exists>i j. map_get (t_ids s2) x = Some i \<and> map_get (t_ids s2) node = Some j \<and> i < j" by blast
    qed
    note r = tarjan_inv_finish[OF inv2 fin old ext]
    have "keeps {node} s s'"
      using keeps_trans[OF keeps_enter[OF False, of "{}"] keeps_trans[OF k2 r(2)]] by simp
    with False have "keeps {} s s'" by (auto simp: keeps_def)
    with r show ?thesis by blast
  qed
next
  case (2 g node s)
  then show ?case by (auto simp: grows_below_def)
next
  case (3 g node child cs s)
  from 3(6) obtain s1 s2 where f: "followNode g child s = Inr s1" and r: "relaxLow node child s1 = Inr s2"
    and c: "followChildren g node cs s2 = Inr s'"
    by (auto simp: rbind_eq_Inr)
  from 3(5) have e: "(node, child) \<in> edges g" by simp
  from 3(1)[OF 3(3) f] have s1: "tarjan_inv g s1" "keeps {} s s1" "grows_below g child s s1" by auto
  note s2 = tarjan_inv_relax[OF s1(1) r e]
  have "node \<in> set (t_visited s2)" using 3(4) s1(2) s2(2) by (auto simp: keeps_def)
  from 3(2)[OF f r s2(1) this _ c] 3(5)
  have s': "tarjan_inv g s'" "keeps {node} s2 s'" "grows_below g node s2 s'" by auto
  have "keeps {node} s s'"
    using keeps_trans[OF s1(2) keeps_trans[OF s2(2) s'(2)]] by simp
  moreover have "grows_below g node s s'"
    using grows_below_trans[OF grows_below_edge[OF s1(3) e]
        grows_below_trans[OF grows_below_same[OF s2(3)] s'(3)]] .
  ultimately show ?case using s'(1) by blast
qed

lemma scc_sound:
  assumes "getStronglyConnectedComponents g = Inr sccs" and "C \<in> set sccs"
  shows "strongly_connected g (set C)"
proof -
  from assms(1) obtain s where r: "rfold (\<lambda>node s. followNode g node s) (map snd (nodes g)) tarjan_init = Inr s"
    and "sccs = t_sccs s"
    by (auto simp: getStronglyConnectedComponents_def rbind_eq_Inr)
  have "tarjan_inv g s"
    using r tarjan_inv_init by (rule rfold_invariant) (blast dest: follow_sound(1))
  with assms(2) \<open>sccs = t_sccs s\<close> show ?thesis by (simp add: tarjan_invD(8))
qed

section \<open>The search does not throw\<close>

lemma relaxLow_total:
  assumes "tarjan_inv g s" and "n \<in> set (t_visited s)"
  shows "\<exists>s'. relaxLow n c s = Inr s'"
proof -
  have "\<exists>a. map_get (t_low s) c = Some a" if "c \<in> set (t_stack s)"
    using tarjan_invD(2,7)[OF assms(1)] that by blast
  moreover have "\<exists>b. map_get (t_low s) n = Some b"
    using tarjan_invD(2)[OF assms(1)] assms(2) by blast
  ultimately show ?thesis by (auto simp: relaxLow_def)
qed

lemma finishNode_total:
  assumes "tarjan_inv g s" and "n \<in> set (t_visited s)"
  shows "\<exists>s'. finishNode n s = Inr s'"
proof -
  from assms obtain i l where "map_get (t_ids s) n = Some i" and "map_get (t_low s) n = Some l"
    using tarjan_invD(1,2)[OF assms(1)] by blast
  then show ?thesis by (simp add: finishNode_def)
qed

lemma follow_total:
  "wf_graph g \<Longrightarrow> tarjan_inv g s \<Longrightarrow> n \<in> node_set g \<Longrightarrow> \<exists>s'. followNode g n s = Inr s'"
  "wf_graph g \<Longrightarrow> tarjan_inv g s \<Longrightarrow> n \<in> set (t_visited s) \<Longrightarrow> \<forall>c\<in>set cs. (n, c) \<in> edges g \<Longrightarrow>
     \<exists>s'. followChildren g n cs s = Inr s'"
proof (induction g n s and g n cs s rule: followNode_followChildren.induct)
  case (1 g node s)
  show ?case
  proof (cases "node \<in> set (t_visited s)")
    case True
    then show ?thesis by (simp add: followNode.simps)
  next
    case False
    obtain cs where c: "getDirectChildConnections g node = Inr cs"
      using 1(2,4) by (simp add: wf_child_connections)
    have e: "\<forall>c\<in>set (map to_node cs). (node, c) \<in> edges g"
      using c by (auto simp: set_child_connections edges_def)
    note inv = tarjan_inv_enter[OF 1(3) False]
    have v: "node \<in> set (t_visited (enterNode node s))" by (simp add: set_visited_enterNode)
    from 1(1)[OF False c 1(2) inv v e]
    obtain s2 where f: "followChildren g node (map to_node cs) (enterNode node s) = Inr s2" by blast
    from follow_sound(2)[OF inv v e f] v have "tarjan_inv g s2" "node \<in> set (t_visited s2)"
      by (auto simp: keeps_def)
    from finishNode_total[OF this] False c f show ?thesis by (simp add: followNode.simps)
  qed
next
  case (2 g node s)
  then show ?case by simp
next
  case (3 g node child cs s)
  from 3(6) have e: "(node, child) \<in> edges g" by simp
  with wf_edges[OF 3(3)] have "child \<in> node_set g" by auto
  from 3(1)[OF 3(3,4) this] obtain s1 where f: "followNode g child s = Inr s1" by blast
  from follow_sound(1)[OF 3(4) f] 3(5) have s1: "tarjan_inv g s1" "node \<in> set (t_visited s1)"
    by (auto simp: keeps_def)
  from relaxLow_total[OF s1] obtain s2 where r: "relaxLow node child s1 = Inr s2" by blast
  note s2 = tarjan_inv_relax[OF s1(1) r e]
  from s1(2) s2(2) have "node \<in> set (t_visited s2)" by (auto simp: keeps_def)
  from 3(2)[OF f r 3(3) s2(1) this] 3(6) obtain s' where "followChildren g node cs s2 = Inr s'" by auto
  with f r show ?case by simp
qed

lemma scc_total:
  assumes "wf_graph g"
  shows "\<exists>sccs. getStronglyConnectedComponents g = Inr sccs"
proof -
  have "\<exists>t. rfold (\<lambda>node s. followNode g node s) (map snd (nodes g)) tarjan_init = Inr t \<and> tarjan_inv g t"
  proof (rule rfold_total[where P = "tarjan_inv g"])
    show "tarjan_inv g tarjan_init" by (rule tarjan_inv_init)
  next
    fix n s assume "n \<in> set (map snd (nodes g))" and inv: "tarjan_inv g s"
    then have "n \<in> node_set g" by (simp add: node_set_def)
    from follow_total(1)[OF assms inv this] obtain v where "followNode g n s = Inr v" by blast
    with follow_sound(1)[OF inv this] show "\<exists>v. followNode g n s = Inr v \<and> tarjan_inv g v" by blast
  qed
  then show ?thesis by (auto simp: getStronglyConnectedComponents_def)
qed

section \<open>The components are disjoint\<close>

text \<open>A node is on the stack or in a component at most once.\<close>

definition placed_once :: "tarjan \<Rightarrow> bool" where
  "placed_once s \<longleftrightarrow> distinct (concat (t_sccs s) @ t_stack s)
     \<and> set (concat (t_sccs s) @ t_stack s) \<subseteq> set (t_visited s) \<and> [] \<notin> set (t_sccs s)"

lemma distinct_popScc:
  "popScc i low st scc = (st', scc') \<Longrightarrow> distinct scc \<Longrightarrow> distinct scc'"
proof (induction i low st scc arbitrary: st' scc' rule: popScc.induct)
  case (1 i low scc)
  then show ?case by simp
next
  case (2 i low n st scc)
  then show ?case by (cases "map_get low n = Some i") auto
qed

lemma placed_once_enter: "placed_once s \<Longrightarrow> n \<notin> set (t_visited s) \<Longrightarrow> placed_once (enterNode n s)"
  by (auto simp: placed_once_def enterNode_def)

lemma placed_once_relax: "placed_once s \<Longrightarrow> relaxLow n c s = Inr s' \<Longrightarrow> placed_once s'"
proof -
  assume s: "placed_once s" and r: "relaxLow n c s = Inr s'"
  from r have "t_sccs s' = t_sccs s \<and> t_stack s' = t_stack s \<and> t_visited s' = t_visited s"
    by (auto simp: relaxLow_def split: if_splits option.splits)
  with s show ?thesis by (simp add: placed_once_def)
qed

lemma placed_once_pop:
  assumes "placed_once s" and "popScc i low (rev (t_stack s)) [] = (st, scc)"
  shows "placed_once (s\<lparr>t_stack := rev st, t_sccs := (if scc = [] then t_sccs s else t_sccs s @ [scc])\<rparr>)"
proof -
  from popScc_split[OF assms(2)] obtain pre where pre: "rev (t_stack s) = pre @ st" "set scc = set pre" by auto
  have st: "t_stack s = rev st @ rev pre" using arg_cong[OF pre(1), of rev] by simp
  have "distinct scc" using distinct_popScc[OF assms(2)] by simp
  with assms(1) pre(2) st show ?thesis unfolding placed_once_def by auto
qed

lemma placed_once_finish:
  assumes "placed_once s" and "finishNode n s = Inr s'"
  shows "placed_once s'"
proof -
  from assms(2) obtain i l where "s' = (if i = l then
      (let (st, scc) = popScc i (t_low s) (rev (t_stack s)) []
       in s\<lparr>t_stack := rev st, t_sccs := (if scc = [] then t_sccs s else t_sccs s @ [scc])\<rparr>) else s)"
    by (auto simp: finishNode_def split: option.splits)
  moreover obtain st scc where "popScc i (t_low s) (rev (t_stack s)) [] = (st, scc)" by fastforce
  ultimately show ?thesis
    using placed_once_pop[OF assms(1), of i "t_low s" st scc] assms(1) by (cases "i = l") auto
qed

lemma follow_placed_once:
  "placed_once s \<Longrightarrow> followNode g n s = Inr s' \<Longrightarrow> placed_once s'"
  "placed_once s \<Longrightarrow> followChildren g n cs s = Inr s' \<Longrightarrow> placed_once s'"
proof (induction g n s and g n cs s arbitrary: s' and s' rule: followNode_followChildren.induct)
  case (1 g node s)
  then show ?case
    by (auto simp: followNode.simps rbind_eq_Inr split: if_splits
        intro: placed_once_finish placed_once_enter)
next
  case (2 g node s)
  then show ?case by simp
next
  case (3 g node child cs s)
  from 3(4) obtain s1 s2 where f: "followNode g child s = Inr s1" and r: "relaxLow node child s1 = Inr s2"
    and c: "followChildren g node cs s2 = Inr s'" by (auto simp: rbind_eq_Inr)
  from placed_once_relax[OF 3(1)[OF 3(3) f] r] 3(2)[OF f r _ c] show ?case by blast
qed

lemma scc_disjoint:
  assumes "getStronglyConnectedComponents g = Inr sccs"
  shows "distinct (concat sccs)" and "[] \<notin> set sccs"
proof -
  from assms obtain s where r: "rfold (\<lambda>node s. followNode g node s) (map snd (nodes g)) tarjan_init = Inr s"
    and s: "sccs = t_sccs s"
    by (auto simp: getStronglyConnectedComponents_def rbind_eq_Inr)
  have "placed_once tarjan_init" by (simp add: placed_once_def tarjan_init_def)
  then have "placed_once s"
    by (rule rfold_invariant[OF r, where P = placed_once]) (rule follow_placed_once(1))
  then show "distinct (concat sccs)" and "[] \<notin> set sccs" by (auto simp: placed_once_def s)
qed

section \<open>Properties\<close>

text \<open>\<^bold>\<open>C24.\<close> On a well-formed graph the search for strongly connected components returns (no
  assertion fails); the sets it returns are non-empty and pairwise disjoint, and each is strongly
  connected: any two of its nodes reach each other.\<close>

theorem getStronglyConnectedComponents_sound:
  assumes "wf_graph g"
  shows "\<exists>sccs. getStronglyConnectedComponents g = Inr sccs
           \<and> distinct (concat sccs) \<and> [] \<notin> set sccs
           \<and> (\<forall>C\<in>set sccs. strongly_connected g (set C))"
proof -
  from scc_total[OF assms] obtain sccs where "getStronglyConnectedComponents g = Inr sccs" by blast
  with scc_sound scc_disjoint show ?thesis by blast
qed

definition ring3 :: DirectedGraph where
  "ring3 = (let r = sample_node 0 ''r''; a = sample_node 1 ''a''; b = sample_node 2 ''b''
     in sample_graph [r, a, b] [sample_conn r a, sample_conn a b, sample_conn b r])"

theorem getStronglyConnectedComponents_sound_witness:
  "wf_graph ring3 \<and> (\<exists>sccs. getStronglyConnectedComponents ring3 = Inr sccs
      \<and> distinct (concat sccs) \<and> list_all (\<lambda>C. strongly_connected ring3 (set C)) sccs)"
proof -
  have "wf_graph ring3" by code_simp
  with getStronglyConnectedComponents_sound[OF this] show ?thesis by (auto simp: list_all_iff)
qed

definition missed_cycle :: DirectedGraph where
  "missed_cycle = (let r = sample_node 0 ''r''; a = sample_node 1 ''a''; b = sample_node 2 ''b''
     in sample_graph [r, a, b] [sample_conn r a, sample_conn a b, sample_conn b a, sample_conn a r])"

lemma missed_cycle_edges:
  "(sample_node 0 ''r'', sample_node 1 ''a'') \<in> edges missed_cycle"
  "(sample_node 1 ''a'', sample_node 2 ''b'') \<in> edges missed_cycle"
  "(sample_node 2 ''b'', sample_node 1 ''a'') \<in> edges missed_cycle"
  "(sample_node 1 ''a'', sample_node 0 ''r'') \<in> edges missed_cycle"
  by (force simp: edges_def conn_set_def missed_cycle_def sample_graph_def sample_conn_def Let_def)+

lemma missed_cycle_nodes:
  "node_set missed_cycle = {sample_node 0 ''r'', sample_node 1 ''a'', sample_node 2 ''b''}"
  by (auto simp: node_set_def missed_cycle_def sample_graph_def Let_def)

text \<open>The components are not all found.  In the graph \<open>r \<rightarrow> a\<close>, \<open>a \<rightarrow> b\<close>,
  \<open>b \<rightarrow> a\<close>, \<open>a \<rightarrow> r\<close> all three nodes reach each other, but the method returns no component at
  all: the low-link of \<open>b\<close> is fixed when \<open>a\<close>'s is still 1, and the loop that pops the stack
  stops at the first node whose low-link differs from the root's identifier.\<close>

theorem getStronglyConnectedComponents_misses_cycles:
  "wf_graph missed_cycle \<and> strongly_connected missed_cycle (node_set missed_cycle)
     \<and> getStronglyConnectedComponents missed_cycle = Inr []"
proof (intro conjI)
  show "wf_graph missed_cycle" by code_simp
  show "getStronglyConnectedComponents missed_cycle = Inr []" by code_simp
  note e = missed_cycle_edges[THEN r_into_rtrancl]
  have "(sample_node 0 ''r'', sample_node 2 ''b'') \<in> (edges missed_cycle)\<^sup>*"
    "(sample_node 2 ''b'', sample_node 0 ''r'') \<in> (edges missed_cycle)\<^sup>*"
    using rtrancl_trans[OF e(1) e(2)] rtrancl_trans[OF e(3) e(4)] by blast+
  with e show "strongly_connected missed_cycle (node_set missed_cycle)"
    by (auto simp: strongly_connected_def missed_cycle_nodes)
qed

end
