(* ===== verification/Start_Nodes.thy ===== *)
theory Start_Nodes
  imports Run_Data Strong_Components
begin

text \<open>
  \<^verbatim>\<open>find-start-nodes.ts\<close> and \<^verbatim>\<open>handle-cycles.ts\<close>: where a partial execution starts.  The
  search walks from the trigger over connections that carried data, and stops on a branch at
  the first dirty node, at the destination, or at a loop node whose last run did not finish.
  The set \<open>seen\<close> is local to a branch, so the recursion is bounded by the number of nodes not
  yet on the branch.
\<close>

section \<open>Dirty nodes\<close>

definition isDirty :: "INode \<Rightarrow> IRunData \<Rightarrow> IPinData \<Rightarrow> bool" where
  "isDirty node runData pinData =
     (let hasAnError = (case map_get runData (node_name node) of
                          None \<Rightarrow> False
                        | Some tasks \<Rightarrow> (\<exists>t\<in>set tasks. task_error t \<noteq> None))
      in if hasAnError then True
         else if map_get pinData (node_name node) \<noteq> None then False
         else if map_get runData (node_name node) \<noteq> None then False
         else True)"

section \<open>The search\<close>

definition isALoop :: "DirectedGraph \<Rightarrow> INode \<Rightarrow> bool result" where
  "isALoop g node = rbind (getChildren g node) (\<lambda>cs. Inr (set_has cs node))"

text \<open>The check on \<open>splitInBatches\<close> nodes, and the check on an outgoing connection.\<close>

definition unfinishedLoop :: "DirectedGraph \<Rightarrow> IRunData \<Rightarrow> INode \<Rightarrow> bool result" where
  "unfinishedLoop g runData current =
     (if node_type current = ''n8n-nodes-base.splitInBatches'' then
        rbind (isALoop g current) (\<lambda>l.
        rbind (getIncomingData runData (node_name current) (- 1) Main (if l then 0 else 1)) (\<lambda>d.
          Inr (d = None \<or> d = Some [])))
      else Inr False)"

definition carriedData :: "IRunData \<Rightarrow> IPinData \<Rightarrow> GraphConnection \<Rightarrow> bool result" where
  "carriedData runData pinData c =
     rbind (getIncomingDataFromAnyRun runData (node_name (from_node c)) (gc_type c) (outputIndex c)) (\<lambda>d.
       let hasNoRunData = (case d of None \<Rightarrow> True | Some (items, i) \<Rightarrow> items = []);
           hasNoPinnedData = (map_get pinData (node_name (from_node c)) = None)
       in Inr (\<not> (hasNoRunData \<and> hasNoPinnedData)))"

function findStartNodesRecursive ::
  "DirectedGraph \<Rightarrow> INode \<Rightarrow> INode \<Rightarrow> IRunData \<Rightarrow> IPinData \<Rightarrow> INode js_set \<Rightarrow> INode js_set
     \<Rightarrow> INode js_set result" where
  "findStartNodesRecursive g current destination runData pinData startNodes seen =
     (if isDirty current runData pinData then Inr (set_add current startNodes)
      else if current = destination then Inr (set_add current startNodes)
      else rbind (unfinishedLoop g runData current) (\<lambda>unfinished.
        if unfinished then Inr (set_add current startNodes)
        else if set_has seen current then Inr startNodes
        else rbind (getDirectChildConnections g current) (\<lambda>outGoingConnections.
          rfold (\<lambda>c found.
              rbind (carriedData runData pinData c) (\<lambda>carried.
                if \<not> carried then Inr found
                else findStartNodesRecursive g (to_node c) destination runData pinData found
                       (set_add current seen)))
            outGoingConnections startNodes)))"
  by pat_completeness auto

termination
proof (relation "measure (\<lambda>(g, current, destination, runData, pinData, startNodes, seen).
    card (node_set g - set seen))", goal_cases)
  case 1
  show ?case by simp
next
  case (2 g current destination runData pinData startNodes seen u cs c found carried)
  then have "current \<in> node_set g - set seen"
    by (auto simp: getDirectChildConnections_Inr node_exists_node_set)
  then have "card (node_set g - insert current (set seen)) < card (node_set g - set seen)"
    by (intro psubset_card_mono) (auto simp: node_set_def)
  then show ?case by simp
qed

declare findStartNodesRecursive.simps [simp del]

definition findStartNodes ::
  "DirectedGraph \<Rightarrow> INode \<Rightarrow> INode \<Rightarrow> IPinData \<Rightarrow> IRunData \<Rightarrow> INode js_set result" where
  "findStartNodes g trigger destination pinData runData =
     findStartNodesRecursive g trigger destination runData pinData [] []"

section \<open>Cycles\<close>

text \<open>The two nested loops of \<open>handleCycles\<close>.\<close>

definition replaceByCycleStart ::
  "DirectedGraph \<Rightarrow> INode \<Rightarrow> INode \<Rightarrow> INode js_set \<Rightarrow> INode js_set \<Rightarrow> INode js_set result" where
  "replaceByCycleStart g trigger startNode cycle newStartNodes =
     (if set_has cycle startNode then
        rbind (depthFirstSearch g trigger (\<lambda>n. set_has cycle n)) (\<lambda>firstNode.
          case firstNode of
            None \<Rightarrow> Inl AssertionError
          | Some f \<Rightarrow> Inr (set_add f (set_delete startNode newStartNodes)))
      else Inr newStartNodes)"

definition handleCycles :: "DirectedGraph \<Rightarrow> INode js_set \<Rightarrow> INode \<Rightarrow> INode js_set result" where
  "handleCycles g startNodes trigger =
     rbind (getStronglyConnectedComponents g) (\<lambda>sccs.
       let cycles = filter (\<lambda>c. length c \<ge> 1) sccs
       in if cycles = [] then Inr startNodes
          else rfold (\<lambda>startNode ns.
                 rfold (replaceByCycleStart g trigger startNode) cycles ns) startNodes startNodes)"

section \<open>What the search returns\<close>

text \<open>A node at which a branch ends, and the connections the search follows.\<close>

definition stops :: "DirectedGraph \<Rightarrow> INode \<Rightarrow> IRunData \<Rightarrow> IPinData \<Rightarrow> INode \<Rightarrow> bool" where
  "stops g destination runData pinData n \<longleftrightarrow>
     isDirty n runData pinData \<or> n = destination \<or> unfinishedLoop g runData n = Inr True"

definition follows :: "DirectedGraph \<Rightarrow> INode \<Rightarrow> IRunData \<Rightarrow> IPinData \<Rightarrow> (INode \<times> INode) set" where
  "follows g destination runData pinData =
     {(from_node c, to_node c) | c. c \<in> conn_set g
        \<and> \<not> stops g destination runData pinData (from_node c) \<and> carriedData runData pinData c = Inr True}"

text \<open>The recorded run data has the connection types the search reads.\<close>

definition outputs_recorded :: "DirectedGraph \<Rightarrow> IRunData \<Rightarrow> bool" where
  "outputs_recorded g runData \<longleftrightarrow>
     (\<forall>c\<in>conn_set g. type_recorded runData (node_name (from_node c)) (gc_type c))
     \<and> (\<forall>n\<in>node_set g. node_type n = ''n8n-nodes-base.splitInBatches'' \<longrightarrow>
          type_recorded runData (node_name n) Main)"

lemma carriedData_total:
  "outputs_recorded g runData \<Longrightarrow> c \<in> conn_set g \<Longrightarrow> \<exists>b. carriedData runData pinData c = Inr b"
proof -
  assume "outputs_recorded g runData" and "c \<in> conn_set g"
  then have "type_recorded runData (node_name (from_node c)) (gc_type c)" by (simp add: outputs_recorded_def)
  from getIncomingDataFromAnyRun_total[OF this, of "outputIndex c"] show ?thesis
    by (auto simp: carriedData_def Let_def)
qed

lemma unfinishedLoop_total:
  assumes "wf_graph g" and "outputs_recorded g runData" and "n \<in> node_set g"
  shows "\<exists>b. unfinishedLoop g runData n = Inr b"
proof (cases "node_type n = ''n8n-nodes-base.splitInBatches''")
  case True
  with assms have t: "type_recorded runData (node_name n) Main" by (simp add: outputs_recorded_def)
  from getChildren_total[OF assms(1,3)] obtain cs where "getChildren g n = Inr cs" by blast
  with getIncomingData_total[OF t, of "- 1" "if n \<in> set cs then 0 else 1"] show ?thesis
    by (auto simp: unfinishedLoop_def isALoop_def)
next
  case False
  then have "unfinishedLoop g runData n = Inr False" by (simp add: unfinishedLoop_def)
  then show ?thesis by blast
qed

text \<open>The four ways the body ends.\<close>

lemma findStartNodesRecursive_stop:
  assumes "stops g destination runData pinData current"
    and "findStartNodesRecursive g current destination runData pinData found seen = Inr S"
  shows "S = set_add current found"
  using assms by (auto simp: findStartNodesRecursive.simps stops_def split: if_splits)

lemma findStartNodesRecursive_go:
  assumes "\<not> stops g destination runData pinData current"
    and "findStartNodesRecursive g current destination runData pinData found seen = Inr S"
  obtains "current \<in> set seen" "S = found"
  | cs where "current \<notin> set seen" "getDirectChildConnections g current = Inr cs"
      "rfold (\<lambda>c found. rbind (carriedData runData pinData c) (\<lambda>carried.
          if \<not> carried then Inr found
          else findStartNodesRecursive g (to_node c) destination runData pinData found
                 (set_add current seen))) cs found = Inr S"
  using assms
  by (auto simp: findStartNodesRecursive.simps[of g current] stops_def rbind_eq_Inr split: if_splits)

abbreviation start_nodes_below ::
  "DirectedGraph \<Rightarrow> INode \<Rightarrow> IRunData \<Rightarrow> IPinData \<Rightarrow> INode \<Rightarrow> INode set" where
  "start_nodes_below g destination runData pinData current \<equiv>
     {n. (current, n) \<in> (follows g destination runData pinData)\<^sup>* \<and> stops g destination runData pinData n}"

lemma findStartNodesRecursive_sound:
  "findStartNodesRecursive g current destination runData pinData found seen = Inr S \<Longrightarrow>
     set found \<subseteq> set S \<and> (distinct found \<longrightarrow> distinct S)
     \<and> set S \<subseteq> set found \<union> start_nodes_below g destination runData pinData current"
proof (induction g current destination runData pinData found seen arbitrary: S
    rule: findStartNodesRecursive.induct)
  case (1 g current destination runData pinData found seen)
  let ?F = "follows g destination runData pinData" and ?stops = "stops g destination runData pinData"
  show ?case
  proof (cases "?stops current")
    case True
    from findStartNodesRecursive_stop[OF True "1.prems"] True show ?thesis by auto
  next
    case False
    from False "1.prems" show ?thesis
    proof (cases rule: findStartNodesRecursive_go)
      case 1
      then show ?thesis by auto
    next
      case (2 cs)
      from False have nd: "\<not> isDirty current runData pinData" "current \<noteq> destination" by (auto simp: stops_def)
      from "1.prems" nd have u: "unfinishedLoop g runData current = Inr False"
        using False by (auto simp: findStartNodesRecursive.simps[of g current] stops_def rbind_eq_Inr split: if_splits)
      from 2(3) show ?thesis
      proof (rule rfold_invariant[where P = "\<lambda>T. set found \<subseteq> set T \<and> (distinct found \<longrightarrow> distinct T)
          \<and> set T \<subseteq> set found \<union> start_nodes_below g destination runData pinData current"], goal_cases)
        case 1
        then show ?case by simp
      next
        case (2 c T T')
        from 2(3) obtain b where b: "carriedData runData pinData c = Inr b" by (auto simp: rbind_eq_Inr)
        show ?case
        proof (cases b)
          case True
          with 2(3) b have rec: "findStartNodesRecursive g (to_node c) destination runData pinData T
              (set_add current seen) = Inr T'" by simp
          from \<open>getDirectChildConnections g current = Inr cs\<close> 2(1) have c: "c \<in> conn_set g" "from_node c = current"
            by (auto simp: set_child_connections)
          with False b True have "(current, to_node c) \<in> ?F" by (auto simp: follows_def)
          then have "start_nodes_below g destination runData pinData (to_node c)
              \<subseteq> start_nodes_below g destination runData pinData current"
            by (auto intro: converse_rtrancl_into_rtrancl)
          with "1.IH"[OF nd u _ \<open>current \<notin> set seen\<close> \<open>getDirectChildConnections g current = Inr cs\<close> 2(1) b _ rec]
            True 2(2) show ?thesis by auto
        next
          case False
          with 2 b show ?thesis by simp
        qed
      qed
    qed
  qed
qed

text \<open>A path that leaves a node for the last time does not come back to it.\<close>

lemma rtrancl_leave_last:
  assumes "(a, b) \<in> R\<^sup>*"
  shows "a = b \<or> (\<exists>c. (a, c) \<in> R \<and> (c, b) \<in> (R \<inter> (- {a}) \<times> UNIV)\<^sup>*)"
  using assms
proof (induction rule: rtrancl_induct)
  case base
  then show ?case by simp
next
  case (step b d)
  show ?case
  proof (cases "b = a")
    case True
    with step.hyps(2) show ?thesis by auto
  next
    case False
    with step.IH obtain c where c: "(a, c) \<in> R" "(c, b) \<in> (R \<inter> (- {a}) \<times> UNIV)\<^sup>*" by auto
    from False step.hyps(2) have "(b, d) \<in> R \<inter> (- {a}) \<times> UNIV" by simp
    with c show ?thesis by (meson rtrancl_into_rtrancl)
  qed
qed

lemma rfold_member:
  assumes "rfold f xs s = Inr t" and "x \<in> set xs"
    and "\<And>y u v. y \<in> set xs \<Longrightarrow> f y u = Inr v \<Longrightarrow> set u \<subseteq> set v"
    and "\<And>u v. f x u = Inr v \<Longrightarrow> n \<in> set v"
  shows "n \<in> set t"
  using assms
proof (induction xs arbitrary: s)
  case Nil
  then show ?case by simp
next
  case (Cons y xs)
  from Cons.prems(1) obtain u where u: "f y s = Inr u" "rfold f xs u = Inr t" by (auto simp: rbind_eq_Inr)
  have mono: "set u \<subseteq> set t"
    by (rule rfold_invariant[OF u(2), where P = "\<lambda>v. set u \<subseteq> set v"]) (use Cons.prems(3) in fastforce)+
  show ?case
  proof (cases "x = y")
    case True
    with Cons.prems(4) u(1) mono show ?thesis by auto
  next
    case False
    with Cons.prems have "x \<in> set xs" by simp
    from Cons.IH[OF u(2) this] Cons.prems(3,4) show ?thesis by fastforce
  qed
qed

lemma findStartNodesRecursive_complete:
  "findStartNodesRecursive g current destination runData pinData found seen = Inr S \<Longrightarrow>
     (current, n) \<in> (follows g destination runData pinData \<inter> (- set seen) \<times> UNIV)\<^sup>* \<Longrightarrow>
     stops g destination runData pinData n \<Longrightarrow> n \<in> set S"
proof (induction "card (node_set g - set seen)" arbitrary: current found seen S rule: less_induct)
  case less
  let ?F = "follows g destination runData pinData" and ?stops = "stops g destination runData pinData"
  let ?R = "?F \<inter> (- set seen) \<times> UNIV"
  show ?case
  proof (cases "?stops current")
    case True
    then have "(current, d) \<notin> ?R" for d by (auto simp: follows_def)
    with less.prems(2) have "n = current" by (auto elim: converse_rtranclE)
    with findStartNodesRecursive_stop[OF True less.prems(1)] show ?thesis by simp
  next
    case False
    with less.prems(3) have "current \<noteq> n" by auto
    with rtrancl_leave_last[OF less.prems(2)] obtain d where d: "(current, d) \<in> ?R"
      and dn: "(d, n) \<in> (?R \<inter> (- {current}) \<times> UNIV)\<^sup>*" by auto
    then obtain c where c: "c \<in> conn_set g" "from_node c = current" "to_node c = d"
      and carried: "carriedData runData pinData c = Inr True" and fresh: "current \<notin> set seen"
      by (auto simp: follows_def)
    from False less.prems(1) show ?thesis
    proof (cases rule: findStartNodesRecursive_go)
      case 1
      with fresh show ?thesis by simp
    next
      case (2 cs)
      then have "current \<in> node_set g" by (auto simp: getDirectChildConnections_Inr node_exists_node_set)
      with fresh have small: "card (node_set g - set (set_add current seen)) < card (node_set g - set seen)"
        by (intro psubset_card_mono) (auto simp: node_set_def)
      have sub: "(?R \<inter> (- {current}) \<times> UNIV) = ?F \<inter> (- set (set_add current seen)) \<times> UNIV" by auto
      from 2(3) show ?thesis
      proof (rule rfold_member[where x = c], goal_cases)
        case 1
        from 2(2) c show ?case by (simp add: set_child_connections)
      next
        case (2 y u v)
        then show ?case
          using findStartNodesRecursive_sound by (fastforce simp: rbind_eq_Inr split: if_splits)
      next
        case (3 u v)
        with carried have "findStartNodesRecursive g d destination runData pinData u (set_add current seen) = Inr v"
          by (simp add: c)
        from less.hyps[OF small this] dn less.prems(3) show ?case by (simp only: sub)
      qed
    qed
  qed
qed

lemma findStartNodesRecursive_total:
  assumes "wf_graph g" and "outputs_recorded g runData" and "current \<in> node_set g"
  shows "\<exists>S. findStartNodesRecursive g current destination runData pinData found seen = Inr S"
  using assms
proof (induction g current destination runData pinData found seen rule: findStartNodesRecursive.induct)
  case (1 g current destination runData pinData found seen)
  from unfinishedLoop_total[OF "1.prems"] obtain u where u: "unfinishedLoop g runData current = Inr u" by blast
  from wf_child_connections[OF "1.prems"(1,3)] obtain cs
    where cs: "getDirectChildConnections g current = Inr cs" by auto
  show ?case
  proof (cases "isDirty current runData pinData \<or> current = destination \<or> u \<or> current \<in> set seen")
    case True
    with u show ?thesis by (auto simp: findStartNodesRecursive.simps[of g current])
  next
    case False
    have "\<exists>T. rfold (\<lambda>c found. rbind (carriedData runData pinData c) (\<lambda>carried.
        if \<not> carried then Inr found
        else findStartNodesRecursive g (to_node c) destination runData pinData found
               (set_add current seen))) cs found = Inr T \<and> True"
    proof (rule rfold_total, goal_cases)
      case 1
      then show ?case by simp
    next
      case (2 c T)
      with cs have c: "c \<in> conn_set g" by (auto simp: set_child_connections)
      from carriedData_total[OF "1.prems"(2) c] obtain b where b: "carriedData runData pinData c = Inr b" by blast
      from c "1.prems"(1) have "to_node c \<in> node_set g"
        by (auto dest: wf_edges edgesI)
      from False "1.IH"[OF _ _ u _ _ cs 2(1) b _ "1.prems"(1,2) this, of T] show ?case by (cases b) (auto simp: b)
    qed
    with False u cs show ?thesis by (simp add: findStartNodesRecursive.simps[of g current])
  qed
qed

text \<open>\<^bold>\<open>C16.\<close> On a well-formed graph whose run data has the connection types of the graph,
  \<open>findStartNodes\<close> returns, without duplicates, exactly the nodes at which a walk from the
  trigger first stops: every node before it on the walk is clean, is not the destination and is
  not an unfinished loop, every connection of the walk carried data, and the node itself is dirty,
  is the destination or is an unfinished loop.  Cutting a branch at a node already on it loses
  no start node.\<close>

theorem findStartNodes_correct:
  assumes "wf_graph g" and "trigger \<in> node_set g" and "outputs_recorded g runData"
  shows "\<exists>S. findStartNodes g trigger destination pinData runData = Inr S \<and> distinct S
    \<and> set S = {n. (trigger, n) \<in> (follows g destination runData pinData)\<^sup>*
                  \<and> stops g destination runData pinData n}"
proof -
  from findStartNodesRecursive_total[OF assms(1,3,2)] obtain S
    where S: "findStartNodesRecursive g trigger destination runData pinData [] [] = Inr S" by blast
  from findStartNodesRecursive_sound[OF S] findStartNodesRecursive_complete[OF S] show ?thesis
    by (auto simp: findStartNodes_def S)
qed

definition stale_run :: IRunData where
  "stale_run = [(''a'', [sample_task [sample_item]])]"

lemma stale_run_recorded: "outputs_recorded chain3 stale_run"
  by code_simp

theorem findStartNodes_correct_witness:
  "wf_graph chain3 \<and> sample_node 1 ''a'' \<in> node_set chain3 \<and> outputs_recorded chain3 stale_run
   \<and> {n. (sample_node 1 ''a'', n) \<in> (follows chain3 (sample_node 3 ''c'') stale_run [])\<^sup>*
         \<and> stops chain3 (sample_node 3 ''c'') stale_run [] n} = {sample_node 2 ''b''}"
proof -
  have "findStartNodes chain3 (sample_node 1 ''a'') (sample_node 3 ''c'') [] stale_run = Inr [sample_node 2 ''b'']"
    by code_simp
  with findStartNodes_correct[OF chain3_wf chain3_node stale_run_recorded, of "sample_node 3 ''c''" "[]"]
    chain3_wf chain3_node stale_run_recorded show ?thesis by simp
qed

section \<open>Cycles are entered at one node\<close>

text \<open>The node \<open>handleCycles\<close> puts in place of the start nodes of a component.\<close>

definition cycle_start :: "DirectedGraph \<Rightarrow> INode \<Rightarrow> INode js_set \<Rightarrow> INode" where
  "cycle_start g trigger C =
     (case depthFirstSearch g trigger (\<lambda>n. set_has C n) of Inr (Some f) \<Rightarrow> f | _ \<Rightarrow> trigger)"

lemma depthFirstSearch_reaches:
  assumes "wf_graph g" and "trigger \<in> node_set g" and "(trigger, n) \<in> (edges g)\<^sup>*" and "n \<in> set C"
  shows "depthFirstSearch g trigger (\<lambda>n. set_has C n) = Inr (Some (cycle_start g trigger C))"
    and "cycle_start g trigger C \<in> set C"
proof -
  from depthFirstSearch_total[OF assms(1,2)] obtain r
    where r: "depthFirstSearch g trigger (\<lambda>n. set_has C n) = Inr r" by blast
  with depthFirstSearch_None[OF assms(1) _ assms(3), of "\<lambda>n. set_has C n"] assms(4) obtain f
    where f: "r = Some f" by (cases r) auto
  with r show "depthFirstSearch g trigger (\<lambda>n. set_has C n) = Inr (Some (cycle_start g trigger C))"
    by (simp add: cycle_start_def)
  from depthFirstSearch_Some(1)[OF assms(1) r[unfolded f]] r f show "cycle_start g trigger C \<in> set C"
    by (simp add: cycle_start_def)
qed

lemma cycles_loop:
  assumes "wf_graph g" and "trigger \<in> node_set g" and "(trigger, s) \<in> (edges g)\<^sup>*"
    and "distinct (concat cycles)"
  shows "rfold (replaceByCycleStart g trigger s) cycles ns
    = Inr (case find (\<lambda>C. s \<in> set C) cycles of
             None \<Rightarrow> ns | Some C \<Rightarrow> set_add (cycle_start g trigger C) (set_delete s ns))"
  using assms(4)
proof (induction cycles arbitrary: ns)
  case Nil
  then show ?case by simp
next
  case (Cons C cycles)
  show ?case
  proof (cases "s \<in> set C")
    case True
    with Cons.prems have "s \<notin> set (concat cycles)" by auto
    then have "find (\<lambda>C. s \<in> set C) cycles = None" by (auto simp: find_None_iff)
    with True Cons depthFirstSearch_reaches(1)[OF assms(1-3) True] show ?thesis
      by (simp add: replaceByCycleStart_def)
  next
    case False
    with Cons show ?thesis by (simp add: replaceByCycleStart_def)
  qed
qed

text \<open>The loop over the start nodes, after those of the set \<open>P\<close>.\<close>

definition cycles_handled ::
  "DirectedGraph \<Rightarrow> INode \<Rightarrow> INode js_set list \<Rightarrow> INode set \<Rightarrow> INode set \<Rightarrow> INode set \<Rightarrow> bool" where
  "cycles_handled g trigger cycles S P R \<longleftrightarrow>
     R - set (concat cycles) = S - set (concat cycles)
     \<and> (\<forall>C\<in>set cycles.
          if set C \<inter> P = {} then R \<inter> set C = S \<inter> set C
          else cycle_start g trigger C \<in> R \<inter> set C \<and> R \<inter> set C \<subseteq> insert (cycle_start g trigger C) (S \<inter> set C - P))"

lemma concat_disjoint:
  "distinct (concat cs) \<Longrightarrow> C \<in> set cs \<Longrightarrow> D \<in> set cs \<Longrightarrow> x \<in> set C \<Longrightarrow> x \<in> set D \<Longrightarrow> C = D"
  by (induction cs) auto

lemma cycles_handled_step:
  assumes "wf_graph g" and "trigger \<in> node_set g" and "(trigger, s) \<in> (edges g)\<^sup>*"
    and "distinct (concat cycles)" and "cycles_handled g trigger cycles S P (set ns)" and "s \<in> S"
  shows "\<exists>ns'. rfold (replaceByCycleStart g trigger s) cycles ns = Inr ns'
           \<and> cycles_handled g trigger cycles S (insert s P) (set ns')"
proof (cases "find (\<lambda>C. s \<in> set C) cycles")
  case None
  then have "set C \<inter> insert s P = set C \<inter> P \<and> S \<inter> set C - insert s P = S \<inter> set C - P" if "C \<in> set cycles" for C
    using that by (auto simp: find_None_iff)
  with assms(5) have "cycles_handled g trigger cycles S (insert s P) (set ns)"
    unfolding cycles_handled_def by (metis (no_types, lifting))
  with None show ?thesis unfolding cycles_loop[OF assms(1-4)] by simp
next
  case (Some C)
  then have C: "C \<in> set cycles" "s \<in> set C" by (auto simp: find_Some_iff)
  let ?f = "cycle_start g trigger C"
  have f: "?f \<in> set C" using assms(1-3) C(2) by (rule depthFirstSearch_reaches(2))
  let ?R = "insert ?f (set ns - {s})"
  have other: "s \<notin> set D" "?f \<notin> set D" if "D \<in> set cycles" "D \<noteq> C" for D
    using concat_disjoint[OF assms(4) that(1) C(1)] that(2) C(2) f by blast+
  have "cycles_handled g trigger cycles S (insert s P) ?R"
    unfolding cycles_handled_def
  proof (intro conjI ballI)
    from f C assms(5) show "?R - set (concat cycles) = S - set (concat cycles)"
      by (auto simp: cycles_handled_def)
  next
    fix D assume D: "D \<in> set cycles"
    show "if set D \<inter> insert s P = {} then ?R \<inter> set D = S \<inter> set D
          else cycle_start g trigger D \<in> ?R \<inter> set D
            \<and> ?R \<inter> set D \<subseteq> insert (cycle_start g trigger D) (S \<inter> set D - insert s P)"
    proof (cases "D = C")
      case True
      from assms(5) D have h: "if set D \<inter> P = {} then set ns \<inter> set D = S \<inter> set D
          else cycle_start g trigger D \<in> set ns \<inter> set D
            \<and> set ns \<inter> set D \<subseteq> insert (cycle_start g trigger D) (S \<inter> set D - P)"
        unfolding cycles_handled_def by blast
      have "set ns \<inter> set D \<subseteq> insert (cycle_start g trigger D) (S \<inter> set D - P)"
        using h by (cases "set D \<inter> P = {}") auto
      with True C(2) f show ?thesis by auto
    next
      case False
      from D assms(5) have "if set D \<inter> P = {} then set ns \<inter> set D = S \<inter> set D
          else cycle_start g trigger D \<in> set ns \<inter> set D
            \<and> set ns \<inter> set D \<subseteq> insert (cycle_start g trigger D) (S \<inter> set D - P)"
        unfolding cycles_handled_def by blast
      moreover have "set D \<inter> insert s P = set D \<inter> P" "?R \<inter> set D = set ns \<inter> set D"
        "S \<inter> set D - insert s P = S \<inter> set D - P" using other[OF D False] by auto
      ultimately show ?thesis by (simp only:)
    qed
  qed
  with Some show ?thesis unfolding cycles_loop[OF assms(1-4)] by simp
qed

lemma cycles_handled_loop:
  assumes "wf_graph g" and "trigger \<in> node_set g" and "distinct (concat cycles)"
    and "\<forall>s\<in>set ss. (trigger, s) \<in> (edges g)\<^sup>*" and "cycles_handled g trigger cycles S P (set ns)"
    and "set ss \<subseteq> S"
  shows "\<exists>ns'. rfold (\<lambda>s ns. rfold (replaceByCycleStart g trigger s) cycles ns) ss ns = Inr ns'
           \<and> cycles_handled g trigger cycles S (P \<union> set ss) (set ns')"
  using assms(4-6)
proof (induction ss arbitrary: P ns)
  case Nil
  then show ?case by simp
next
  case (Cons s ss)
  from cycles_handled_step[OF assms(1,2) _ assms(3) Cons.prems(2), of s] Cons.prems
  obtain ns1 where n: "rfold (replaceByCycleStart g trigger s) cycles ns = Inr ns1"
    and h: "cycles_handled g trigger cycles S (insert s P) (set ns1)" by auto
  from Cons.IH[OF _ h] Cons.prems n show ?case by auto
qed

text \<open>Every component the search returned that contains a start node is entered at exactly one node;
  components without a start node get none; start nodes outside all returned components stay.\<close>

lemma handleCycles_components:
  assumes "wf_graph g" and "trigger \<in> node_set g" and "\<forall>s\<in>set startNodes. (trigger, s) \<in> (edges g)\<^sup>*"
  shows "\<exists>cycles R. getStronglyConnectedComponents g = Inr cycles \<and> handleCycles g startNodes trigger = Inr R
    \<and> (\<forall>C\<in>set cycles. set R \<inter> set C =
          (if set C \<inter> set startNodes = {} then {} else {cycle_start g trigger C}))
    \<and> set R - set (concat cycles) = set startNodes - set (concat cycles)"
proof -
  from scc_total[OF assms(1)] obtain cycles where c: "getStronglyConnectedComponents g = Inr cycles" by blast
  note d = scc_disjoint[OF c]
  have all: "filter (\<lambda>c. length c \<ge> 1) cycles = cycles"
    using d(2) by (auto simp: filter_id_conv Suc_le_eq)
  have start: "cycles_handled g trigger cycles (set startNodes) {} (set startNodes)"
    by (simp add: cycles_handled_def)
  from cycles_handled_loop[OF assms(1,2) d(1) assms(3) start subset_refl] obtain R
    where R: "rfold (\<lambda>s ns. rfold (replaceByCycleStart g trigger s) cycles ns) startNodes startNodes = Inr R"
      and h: "cycles_handled g trigger cycles (set startNodes) (set startNodes) (set R)" by auto
  have "handleCycles g startNodes trigger = Inr (if cycles = [] then startNodes else R)"
    using R by (simp add: handleCycles_def c Let_def all[simplified])
  moreover from R have "cycles = [] \<Longrightarrow> R = startNodes" by (auto simp: rfold_pure[where g = "\<lambda>x s. s"] fold_invariant[where Q = "\<lambda>x. True" and P = "\<lambda>s. s = startNodes"])
  ultimately have "handleCycles g startNodes trigger = Inr R" by auto
  moreover have "set R \<inter> set C = (if set C \<inter> set startNodes = {} then {} else {cycle_start g trigger C})"
    if "C \<in> set cycles" for C
    using h that by (fastforce simp: cycles_handled_def split: if_splits)
  ultimately show ?thesis using c h by (auto simp: cycles_handled_def)
qed

text \<open>The nodes on a cycle through a node, and the one of them that a depth-first search from the
  trigger meets first.\<close>

definition cycle_of :: "DirectedGraph \<Rightarrow> INode \<Rightarrow> INode set" where
  "cycle_of g s = {n. (s, n) \<in> (edges g)\<^sup>* \<and> (n, s) \<in> (edges g)\<^sup>*}"

definition on_cycle :: "DirectedGraph \<Rightarrow> INode \<Rightarrow> bool" where
  "on_cycle g s \<longleftrightarrow> (s, s) \<in> (edges g)\<^sup>+"

definition cycle_entry :: "DirectedGraph \<Rightarrow> INode \<Rightarrow> INode \<Rightarrow> INode" where
  "cycle_entry g trigger s =
     (case depthFirstSearch g trigger (\<lambda>n. n \<in> cycle_of g s) of Inr (Some f) \<Rightarrow> f | _ \<Rightarrow> s)"

text \<open>The component search missed no cycle: two nodes that reach each other are in one returned set.\<close>

definition cycles_found :: "DirectedGraph \<Rightarrow> bool" where
  "cycles_found g \<longleftrightarrow> (\<forall>m n. (m, n) \<in> (edges g)\<^sup>+ \<and> (n, m) \<in> (edges g)\<^sup>+ \<longrightarrow>
     (case getStronglyConnectedComponents g of
        Inl e \<Rightarrow> False
      | Inr cycles \<Rightarrow> \<exists>C\<in>set cycles. m \<in> set C \<and> n \<in> set C))"

lemma on_cycle_class:
  assumes "on_cycle g s" "n \<in> cycle_of g s"
  shows "(s, n) \<in> (edges g)\<^sup>+ \<and> (n, s) \<in> (edges g)\<^sup>+"
proof (cases "n = s")
  case False
  with assms(2) show ?thesis
    by (auto simp: cycle_of_def rtrancl_eq_or_trancl)
qed (use assms in \<open>simp add: on_cycle_def\<close>)

lemma component_class:
  assumes c: "getStronglyConnectedComponents g = Inr cycles" and C: "C \<in> set cycles" "s \<in> set C" and "cycles_found g"
  shows "set C = cycle_of g s"
proof
  show "set C \<subseteq> cycle_of g s"
    using scc_sound [OF c C(1)] C(2) by (auto simp: strongly_connected_def cycle_of_def)
  show "cycle_of g s \<subseteq> set C"
  proof
    fix n
    assume n: "n \<in> cycle_of g s"
    show "n \<in> set C"
    proof (cases "n = s")
      case False
      with n have "(s, n) \<in> (edges g)\<^sup>+" "(n, s) \<in> (edges g)\<^sup>+"
        by (auto simp: cycle_of_def rtrancl_eq_or_trancl)
      with assms(4) c obtain D where D: "D \<in> set cycles" "s \<in> set D" "n \<in> set D"
        by (fastforce simp: cycles_found_def)
      with concat_disjoint [OF scc_disjoint(1) [OF c] C(1) D(1) C(2)] show ?thesis
        by simp
    qed (use C(2) in simp)
  qed
qed

lemma cycle_start_entry:
  assumes "wf_graph g" "trigger \<in> node_set g" "(trigger, s) \<in> (edges g)\<^sup>*" "s \<in> set C" "set C = cycle_of g s"
  shows "cycle_start g trigger C = cycle_entry g trigger s"
  using depthFirstSearch_reaches(1) [OF assms(1-4)] by (simp add: cycle_entry_def assms(5))

lemma entry_off_cycle:
  assumes "\<not> on_cycle g s" "cycle_start g trigger C \<in> set C" "set C = cycle_of g s"
  shows "cycle_start g trigger C = s"
proof -
  have "(cycle_start g trigger C, s) \<in> (edges g)\<^sup>*" "(s, cycle_start g trigger C) \<in> (edges g)\<^sup>*"
    using assms(2,3) by (auto simp: cycle_of_def)
  with assms(1) show ?thesis
    by (auto simp: on_cycle_def rtrancl_eq_or_trancl dest: trancl_trans)
qed

text \<open>\<^bold>\<open>C22.\<close> On a well-formed graph whose trigger reaches every start node, and in which the
  search for components missed no cycle, \<open>handleCycles\<close> returns (its assertion holds), and it does what
  its comment says: every start node on a cycle is replaced by the start of that cycle, the node of
  it that a depth-first search from the trigger meets first; the start nodes on no cycle stay; and
  there are no others.\<close>

theorem handleCycles_correct:
  assumes "wf_graph g" and "trigger \<in> node_set g" and "\<forall>s\<in>set startNodes. (trigger, s) \<in> (edges g)\<^sup>*"
    and "cycles_found g"
  shows "\<exists>R. handleCycles g startNodes trigger = Inr R
    \<and> set R = cycle_entry g trigger ` {s \<in> set startNodes. on_cycle g s} \<union> {s \<in> set startNodes. \<not> on_cycle g s}"
proof -
  obtain cycles R where c: "getStronglyConnectedComponents g = Inr cycles" and R: "handleCycles g startNodes trigger = Inr R"
    and inside: "\<And>C. C \<in> set cycles \<Longrightarrow> set R \<inter> set C = (if set C \<inter> set startNodes = {} then {} else {cycle_start g trigger C})"
    and outside: "set R - set (concat cycles) = set startNodes - set (concat cycles)"
    using handleCycles_components [OF assms(1-3)] by blast
  have same: "set C = cycle_of g s" if "C \<in> set cycles" "s \<in> set C" for C s
    using component_class [OF c that assms(4)] .
  have found: "\<exists>C\<in>set cycles. s \<in> set C" if "on_cycle g s" for s
    using assms(4) c that by (fastforce simp: cycles_found_def on_cycle_def)
  have entry: "cycle_start g trigger C = (if on_cycle g s then cycle_entry g trigger s else s)"
    if "C \<in> set cycles" "s \<in> set C" "s \<in> set startNodes" for C s
  proof (cases "on_cycle g s")
    case True
    with cycle_start_entry [OF assms(1,2) _ that(2) same [OF that(1,2)]] assms(3) that(3) show ?thesis
      by simp
  next
    case False
    have "cycle_start g trigger C \<in> set C"
      using depthFirstSearch_reaches(2) [OF assms(1,2) _ that(2)] assms(3) that(3) by blast
    with False entry_off_cycle [OF False _ same [OF that(1,2)]] show ?thesis
      by simp
  qed
  let ?A = "cycle_entry g trigger ` {s \<in> set startNodes. on_cycle g s} \<union> {s \<in> set startNodes. \<not> on_cycle g s}"
  have "r \<in> ?A" if r: "r \<in> set R" for r
  proof (cases "\<exists>C\<in>set cycles. r \<in> set C")
    case True
    then obtain C where C: "C \<in> set cycles" "r \<in> set C" by blast
    with inside [OF C(1)] r obtain s where "s \<in> set C" "s \<in> set startNodes" "r = cycle_start g trigger C"
      by (auto split: if_splits)
    with entry [OF C(1)] show ?thesis by auto
  next
    case False
    with r outside found [of r] show ?thesis by auto
  qed
  then have "set R \<subseteq> ?A" by blast
  have in_R: "(if on_cycle g s then cycle_entry g trigger s else s) \<in> set R" if s: "s \<in> set startNodes" for s
  proof (cases "\<exists>C\<in>set cycles. s \<in> set C")
    case True
    then obtain C where C: "C \<in> set cycles" "s \<in> set C" by blast
    with s have "set C \<inter> set startNodes \<noteq> {}" by blast
    with inside [OF C(1)] have "set R \<inter> set C = {cycle_start g trigger C}" by simp
    then have "cycle_start g trigger C \<in> set R" by blast
    then show ?thesis unfolding entry [OF C s] .
  next
    case False
    with s outside found [of s] show ?thesis by auto
  qed
  have "r \<in> set R" if "r \<in> ?A" for r
    using that in_R by (fastforce split: if_splits)
  with \<open>set R \<subseteq> ?A\<close> have "set R = ?A" by blast
  with R show ?thesis by (intro exI [of _ R]) simp
qed

text \<open>A trigger that leads into a loop of two nodes; the search finds the loop.\<close>

definition loop_graph :: DirectedGraph where
  "loop_graph = (let t = sample_node 0 ''t''; a = sample_node 1 ''a''; b = sample_node 2 ''b''
     in sample_graph [t, a, b] [sample_conn t a, sample_conn a b, sample_conn b a])"

lemma loop_graph_edges:
  "edges loop_graph = {(sample_node 0 ''t'', sample_node 1 ''a''), (sample_node 1 ''a'', sample_node 2 ''b''),
     (sample_node 2 ''b'', sample_node 1 ''a'')}"
proof -
  have "edges g = (\<lambda>c. (from_node c, to_node c)) ` conn_set g" for g
    by (auto simp: edges_def)
  then show ?thesis
    by (simp add: conn_set_def loop_graph_def sample_graph_def sample_conn_def Let_def)
qed

lemma loop_graph_cycles: "cycles_found loop_graph"
proof -
  have "n \<in> {sample_node 1 ''a'', sample_node 2 ''b''}" if "(m, n) \<in> (edges loop_graph)\<^sup>+" for m n
    using that by (induction rule: trancl_induct) (auto simp: loop_graph_edges)
  moreover have "getStronglyConnectedComponents loop_graph = Inr [[sample_node 2 ''b'', sample_node 1 ''a''], [sample_node 0 ''t'']]"
    by code_simp
  ultimately show ?thesis
    by (fastforce simp: cycles_found_def)
qed

theorem handleCycles_correct_witness:
  "\<exists>R. handleCycles loop_graph [sample_node 2 ''b''] (sample_node 0 ''t'') = Inr R \<and>
     set R = {cycle_entry loop_graph (sample_node 0 ''t'') (sample_node 2 ''b'')} \<and> sample_node 2 ''b'' \<notin> set R"
proof -
  have w: "wf_graph loop_graph" and n: "sample_node 0 ''t'' \<in> node_set loop_graph"
    and R: "handleCycles loop_graph [sample_node 2 ''b''] (sample_node 0 ''t'') = Inr [sample_node 1 ''a'']"
    by code_simp+
  have e: "(sample_node 0 ''t'', sample_node 1 ''a'') \<in> edges loop_graph" "(sample_node 1 ''a'', sample_node 2 ''b'') \<in> edges loop_graph"
    "(sample_node 2 ''b'', sample_node 1 ''a'') \<in> edges loop_graph"
    by (simp_all add: loop_graph_edges)
  then have "\<forall>s\<in>set [sample_node 2 ''b'']. (sample_node 0 ''t'', s) \<in> (edges loop_graph)\<^sup>*" "on_cycle loop_graph (sample_node 2 ''b'')"
    by (auto simp: on_cycle_def intro: rtrancl_trans)
  moreover from this have "{s \<in> set [sample_node 2 ''b'']. on_cycle loop_graph s} = {sample_node 2 ''b''}"
    "{s \<in> set [sample_node 2 ''b'']. \<not> on_cycle loop_graph s} = {}"
    by auto
  moreover have "sample_node 2 ''b'' \<notin> set [sample_node 1 ''a'']"
    by (simp add: sample_node_def)
  ultimately show ?thesis
    using handleCycles_correct [OF w n _ loop_graph_cycles, of "[sample_node 2 ''b'']"] R by simp
qed

end
