(* ===== verification/Execution_Stack.thy ===== *)
theory Execution_Stack
  imports Start_Nodes
begin

text \<open>
  \<^verbatim>\<open>get-source-data-groups.ts\<close> and \<^verbatim>\<open>recreate-node-execution-stack.ts\<close>: the incoming connections
  of a start node are grouped, one connection per input, and each group becomes an entry of the
  execution stack or, when it is incomplete, of the waiting executions.

  \<open>String.prototype.localeCompare\<close> depends on the host's collation; it is the parameter
  \<open>localeCompare\<close>.
\<close>

section \<open>Groups of source connections\<close>

definition sortByInputIndexThenByName ::
  "(string \<Rightarrow> string \<Rightarrow> int) \<Rightarrow> GraphConnection \<Rightarrow> GraphConnection \<Rightarrow> int" where
  "sortByInputIndexThenByName localeCompare c1 c2 =
     (if inputIndex c1 = inputIndex c2
      then localeCompare (node_name (from_node c1)) (node_name (from_node c2))
      else int (inputIndex c1) - int (inputIndex c2))"

record SourceConnectionGroup =
  complete :: bool
  group_connections :: "GraphConnection list"

definition newGroup :: SourceConnectionGroup where
  "newGroup = \<lparr>complete = True, group_connections = []\<rparr>"

text \<open>\<open>Math.min(...xs)\<close> on a non-empty array.\<close>

definition math_min :: "nat list \<Rightarrow> nat" where
  "math_min xs = Min (set xs)"

definition beforeFirstInput :: "GraphConnection list \<Rightarrow> GraphConnection list \<Rightarrow> int" where
  "beforeFirstInput withData withoutData =
     int (math_min (map inputIndex withData @ map inputIndex withoutData)) - 1"

definition at_input :: "int \<Rightarrow> GraphConnection \<Rightarrow> bool" where
  "at_input i c = (int (inputIndex c) = i)"

text \<open>The \<open>while\<close> loop.\<close>

function groupLoop ::
  "GraphConnection list \<Rightarrow> GraphConnection list \<Rightarrow> SourceConnectionGroup \<Rightarrow> int
     \<Rightarrow> SourceConnectionGroup list \<Rightarrow> SourceConnectionGroup list" where
  "groupLoop withData withoutData currentGroup currentInputIndex groups =
     (if withData = [] \<and> withoutData = [] then groups @ [currentGroup]
      else
        let i = currentInputIndex + 1
        in case findIndex (at_input i) withData of
             Some k \<Rightarrow>
               groupLoop (removeAt k withData) withoutData
                 (currentGroup\<lparr>group_connections := group_connections currentGroup @ [withData ! k]\<rparr>)
                 i groups
           | None \<Rightarrow>
               (case findIndex (at_input i) withoutData of
                  Some k \<Rightarrow>
                    groupLoop withData (removeAt k withoutData)
                      (currentGroup\<lparr>group_connections := group_connections currentGroup @ [withoutData ! k],
                                    complete := False\<rparr>)
                      i groups
                | None \<Rightarrow>
                    groupLoop withData withoutData newGroup (beforeFirstInput withData withoutData)
                      (groups @ [currentGroup])))"
  by pat_completeness auto

lemma beforeFirstInput_hits:
  assumes "withData \<noteq> [] \<or> withoutData \<noteq> []"
  shows "\<exists>c\<in>set withData \<union> set withoutData. at_input (beforeFirstInput withData withoutData + 1) c"
proof -
  have "Min (set (map inputIndex withData @ map inputIndex withoutData))
      \<in> set (map inputIndex withData @ map inputIndex withoutData)"
    using assms by (intro Min_in) auto
  then show ?thesis by (force simp: at_input_def beforeFirstInput_def math_min_def)
qed

definition hits :: "GraphConnection list \<Rightarrow> GraphConnection list \<Rightarrow> int \<Rightarrow> bool" where
  "hits withData withoutData i = (\<exists>c\<in>set withData \<union> set withoutData. at_input i c)"

lemma removeAt_shorter: "findIndex P xs = Some k \<Longrightarrow> length (removeAt k xs) < length xs"
  using findIndex_Some[of P xs k] by auto

termination groupLoop
proof (relation "measures [\<lambda>(wd, wo, g, i, gs). length wd + length wo,
    \<lambda>(wd, wo, g, i, gs). if hits wd wo (i + 1) then 0 else 1 :: nat]", goal_cases)
  case 1
  show ?case by simp
next
  case (2 wd wo g i gs j)
  then show ?case using beforeFirstInput_hits[of wd wo] by (auto simp: hits_def findIndex_None)
next
  case (3 wd wo g i gs j k)
  then show ?case using removeAt_shorter by fastforce
next
  case (4 wd wo g i gs j k)
  then show ?case using removeAt_shorter by fastforce
qed

declare groupLoop.simps [simp del]

definition hasData :: "IRunData \<Rightarrow> IPinData \<Rightarrow> GraphConnection \<Rightarrow> bool" where
  "hasData runData pinnedData c =
     (map_get runData (node_name (from_node c)) \<noteq> None \<or> map_get pinnedData (node_name (from_node c)) \<noteq> None)"

definition getSourceDataGroups ::
  "(string \<Rightarrow> string \<Rightarrow> int) \<Rightarrow> DirectedGraph \<Rightarrow> INode \<Rightarrow> IRunData \<Rightarrow> IPinData \<Rightarrow> SourceConnectionGroup list" where
  "getSourceDataGroups localeCompare g node runData pinnedData =
     (let conns = getConnections g (Some node);
          withData = filter (hasData runData pinnedData) conns;
          withoutData = filter (\<lambda>c. \<not> hasData runData pinnedData c \<and> gc_type c = Main) conns
      in if withData = [] \<and> withoutData = [] then []
         else
           let withData = js_sort (sortByInputIndexThenByName localeCompare) withData;
               withoutData = js_sort (sortByInputIndexThenByName localeCompare) withoutData
           in groupLoop withData withoutData newGroup (beforeFirstInput withData withoutData) [])"

section \<open>What the groups are\<close>

fun consecutive :: "int \<Rightarrow> GraphConnection list \<Rightarrow> bool" where
  "consecutive k [] = True"
| "consecutive k (c # cs) = (int (inputIndex c) = k \<and> consecutive (k + 1) cs)"

text \<open>An earlier group uses a connection without data at an input only when no later group
  has one with data for it.\<close>

definition data_first :: "(GraphConnection \<Rightarrow> bool) \<Rightarrow> GraphConnection list \<Rightarrow> GraphConnection list \<Rightarrow> bool" where
  "data_first D cs ds = (\<forall>c\<in>set cs. \<forall>d\<in>set ds. \<not> D c \<and> D d \<longrightarrow> inputIndex c \<noteq> inputIndex d)"

definition group_ok :: "(GraphConnection \<Rightarrow> bool) \<Rightarrow> SourceConnectionGroup \<Rightarrow> bool" where
  "group_ok D grp \<longleftrightarrow> group_connections grp \<noteq> []
     \<and> consecutive (int (inputIndex (hd (group_connections grp)))) (group_connections grp)
     \<and> complete grp = (\<forall>c\<in>set (group_connections grp). D c)"

definition loop_result ::
  "(GraphConnection \<Rightarrow> bool) \<Rightarrow> GraphConnection list \<Rightarrow> GraphConnection list \<Rightarrow> SourceConnectionGroup \<Rightarrow> int
     \<Rightarrow> GraphConnection list \<Rightarrow> SourceConnectionGroup list \<Rightarrow> bool" where
  "loop_result D wd wo cur i ext gs \<longleftrightarrow>
     consecutive (i + 1) ext \<and> (hits wd wo (i + 1) \<longrightarrow> ext \<noteq> [])
     \<and> mset ext + mset (concat (map group_connections gs)) = mset wd + mset wo
     \<and> (\<forall>grp\<in>set gs. group_ok D grp)
     \<and> sorted_wrt (data_first D) (ext # map group_connections gs)"

lemma groupLoop_result:
  assumes "\<forall>c\<in>set wd. D c" and "\<forall>c\<in>set wo. \<not> D c"
  shows "\<exists>ext gs. groupLoop wd wo cur i groups = groups
           @ \<lparr>complete = (complete cur \<and> (\<forall>c\<in>set ext. D c)), group_connections = group_connections cur @ ext\<rparr> # gs
         \<and> loop_result D wd wo cur i ext gs"
  using assms
proof (induction wd wo cur i groups rule: groupLoop.induct)
  case (1 wd wo cur i groups)
  show ?case
  proof (cases "wd = [] \<and> wo = []")
    case True
    then show ?thesis
      by (intro exI[of _ "[]"]) (simp add: groupLoop.simps loop_result_def hits_def)
  next
    case False
    consider (data) k where "findIndex (at_input (i + 1)) wd = Some k"
      | (nodata) k where "findIndex (at_input (i + 1)) wd = None" "findIndex (at_input (i + 1)) wo = Some k"
      | (reset) "findIndex (at_input (i + 1)) wd = None" "findIndex (at_input (i + 1)) wo = None"
      by (cases "findIndex (at_input (i + 1)) wd"; cases "findIndex (at_input (i + 1)) wo") auto
    then show ?thesis
    proof cases
      case data
      then have k: "k < length wd" "int (inputIndex (wd ! k)) = i + 1"
        using findIndex_Some by (fastforce simp: at_input_def)+
      have rest: "\<forall>c\<in>set (removeAt k wd). D c" using 1(4) set_removeAt[of k wd] by blast
      from 1(3)[OF False refl data rest 1(5)] obtain ext gs where
        eq: "groupLoop (removeAt k wd) wo (cur\<lparr>group_connections := group_connections cur @ [wd ! k]\<rparr>) (i + 1) groups
          = groups @ \<lparr>complete = (complete cur \<and> (\<forall>c\<in>set ext. D c)),
              group_connections = group_connections cur @ wd ! k # ext\<rparr> # gs"
        and r: "loop_result D (removeAt k wd) wo (cur\<lparr>group_connections := group_connections cur @ [wd ! k]\<rparr>) (i + 1) ext gs"
        by auto
      have d: "D (wd ! k)" using 1(4) k(1) by simp
      have step: "groupLoop wd wo cur i groups
          = groupLoop (removeAt k wd) wo (cur\<lparr>group_connections := group_connections cur @ [wd ! k]\<rparr>) (i + 1) groups"
        using False data by (subst groupLoop.simps) auto
      have "loop_result D wd wo cur i (wd ! k # ext) gs"
        using r k d mset_removeAt[OF k(1)] by (auto simp: loop_result_def data_first_def)
      with d show ?thesis
        unfolding step eq by (intro exI[of _ "wd ! k # ext"] exI[of _ gs]) simp
    next
      case nodata
      then have k: "k < length wo" "int (inputIndex (wo ! k)) = i + 1"
        using findIndex_Some by (fastforce simp: at_input_def)+
      have rest: "\<forall>c\<in>set (removeAt k wo). \<not> D c" using 1(5) set_removeAt[of k wo] by blast
      from 1(2)[OF False refl nodata 1(4) rest] obtain ext gs where
        eq: "groupLoop wd (removeAt k wo) (cur\<lparr>group_connections := group_connections cur @ [wo ! k], complete := False\<rparr>)
             (i + 1) groups
          = groups @ \<lparr>complete = False, group_connections = group_connections cur @ wo ! k # ext\<rparr> # gs"
        and r: "loop_result D wd (removeAt k wo)
              (cur\<lparr>group_connections := group_connections cur @ [wo ! k], complete := False\<rparr>) (i + 1) ext gs"
        by auto
      have nd: "\<not> D (wo ! k)" using 1(5) k(1) by simp
      have prio: "inputIndex (wo ! k) \<noteq> inputIndex d" if "grp \<in> set gs" "d \<in> set (group_connections grp)" "D d" for grp d
      proof -
        have "d \<in># mset ext + mset (concat (map group_connections gs))" using that by auto
        with r have "d \<in> set wd \<union> set (removeAt k wo)" by (simp add: loop_result_def)
        with that(3) 1(5) set_removeAt have "d \<in> set wd" by fastforce
        with nodata(1) k(2) show ?thesis by (auto simp: findIndex_None at_input_def)
      qed
      have step: "groupLoop wd wo cur i groups
          = groupLoop wd (removeAt k wo)
              (cur\<lparr>group_connections := group_connections cur @ [wo ! k], complete := False\<rparr>) (i + 1) groups"
        using False nodata by (subst groupLoop.simps) auto
      have "loop_result D wd wo cur i (wo ! k # ext) gs"
        using r k prio mset_removeAt[OF k(1)] by (auto simp: loop_result_def data_first_def)
      with nd show ?thesis
        unfolding step eq by (intro exI[of _ "wo ! k # ext"] exI[of _ gs]) simp
    next
      case reset
      then have nohit: "\<not> hits wd wo (i + 1)" by (auto simp: hits_def findIndex_None)
      let ?j = "beforeFirstInput wd wo"
      from 1(1)[OF False refl reset 1(4,5)] obtain ext gs where
        eq: "groupLoop wd wo newGroup ?j (groups @ [cur])
          = (groups @ [cur]) @ \<lparr>complete = (\<forall>c\<in>set ext. D c), group_connections = ext\<rparr> # gs"
        and r: "loop_result D wd wo newGroup ?j ext gs"
        by (auto simp: newGroup_def)
      have "hits wd wo (?j + 1)" using False beforeFirstInput_hits by (simp add: hits_def)
      with r obtain c ext' where ext: "ext = c # ext'" "int (inputIndex c) = ?j + 1"
        by (cases ext) (auto simp: loop_result_def)
      with r have "group_ok D \<lparr>complete = (\<forall>c\<in>set ext. D c), group_connections = ext\<rparr>"
        by (auto simp: group_ok_def loop_result_def)
      with r nohit have "loop_result D wd wo cur i [] (\<lparr>complete = (\<forall>c\<in>set ext. D c), group_connections = ext\<rparr> # gs)"
        by (auto simp: loop_result_def data_first_def)
      moreover have "groupLoop wd wo cur i groups = groupLoop wd wo newGroup ?j (groups @ [cur])"
        using False reset by (subst groupLoop.simps) auto
      ultimately show ?thesis
        by (intro exI[of _ "[]"] exI[of _ "\<lparr>complete = (\<forall>c\<in>set ext. D c), group_connections = ext\<rparr> # gs"])
          (simp add: eq)
    qed
  qed
qed

lemma getSourceDataGroups_spec:
  fixes g node runData pinnedData localeCompare
  defines "groups \<equiv> getSourceDataGroups localeCompare g node runData pinnedData"
    and "D \<equiv> hasData runData pinnedData"
  shows "mset (concat (map group_connections groups))
           = mset (filter (\<lambda>c. D c \<or> gc_type c = Main) (getConnections g (Some node)))
         \<and> (\<forall>grp\<in>set groups. group_ok D grp)
         \<and> sorted_wrt (data_first D) (map group_connections groups)"
proof -
  let ?cs = "getConnections g (Some node)"
  let ?wd = "filter D ?cs" and ?wo = "filter (\<lambda>c. \<not> D c \<and> gc_type c = Main) ?cs"
  let ?swd = "js_sort (sortByInputIndexThenByName localeCompare) ?wd"
    and ?swo = "js_sort (sortByInputIndexThenByName localeCompare) ?wo"
  have parts: "mset ?wd + mset ?wo = mset (filter (\<lambda>c. D c \<or> gc_type c = Main) cs)"
    if "cs = ?cs" for cs
    unfolding that[symmetric] by (induction cs) auto
  show ?thesis
  proof (cases "?wd = [] \<and> ?wo = []")
    case True
    then have "groups = []" by (simp add: groups_def getSourceDataGroups_def D_def Let_def)
    moreover from True parts[OF refl] have "filter (\<lambda>c. D c \<or> gc_type c = Main) ?cs = []" by simp
    ultimately show ?thesis by simp
  next
    case False
    let ?j = "beforeFirstInput ?swd ?swo"
    have "groups = groupLoop ?swd ?swo newGroup ?j []"
      using False by (auto simp: groups_def getSourceDataGroups_def D_def Let_def)
    moreover have "\<exists>ext gs. groupLoop ?swd ?swo newGroup ?j [] = []
           @ \<lparr>complete = (complete newGroup \<and> (\<forall>c\<in>set ext. D c)),
              group_connections = group_connections newGroup @ ext\<rparr> # gs
         \<and> loop_result D ?swd ?swo newGroup ?j ext gs"
      by (rule groupLoop_result) auto
    ultimately obtain ext gs where
      g: "groups = \<lparr>complete = (\<forall>c\<in>set ext. D c), group_connections = ext\<rparr> # gs"
      and r: "loop_result D ?swd ?swo newGroup ?j ext gs" by (auto simp: newGroup_def)
    have "?swd \<noteq> [] \<or> ?swo \<noteq> []" using False by (metis mset_js_sort mset_zero_iff)
    then have "hits ?swd ?swo (?j + 1)" unfolding hits_def by (rule beforeFirstInput_hits)
    with r obtain c ext' where ext: "ext = c # ext'" "int (inputIndex c) = ?j + 1"
      by (cases ext) (auto simp: loop_result_def)
    with r have "group_ok D \<lparr>complete = (\<forall>c\<in>set ext. D c), group_connections = ext\<rparr>"
      by (auto simp: group_ok_def loop_result_def)
    with r parts[OF refl] show ?thesis by (simp add: g loop_result_def)
  qed
qed

text \<open>\<^bold>\<open>C20.\<close> The groups partition the incoming connections that have data or are of type \<open>Main\<close>:
  every such connection is in exactly one group.  A group is not empty, it has one connection per
  input and its inputs are consecutive, and it is marked complete exactly when all its
  connections have run data or pinned data.  A connection without data is used at an input only
  when no later group has one with data for that input.\<close>

theorem getSourceDataGroups_partition:
  "mset (concat (map group_connections (getSourceDataGroups localeCompare g node runData pinnedData)))
     = mset (filter (\<lambda>c. hasData runData pinnedData c \<or> gc_type c = Main) (getConnections g (Some node)))
   \<and> (\<forall>grp\<in>set (getSourceDataGroups localeCompare g node runData pinnedData).
        group_ok (hasData runData pinnedData) grp)
   \<and> sorted_wrt (data_first (hasData runData pinnedData))
        (map group_connections (getSourceDataGroups localeCompare g node runData pinnedData))"
  by (rule getSourceDataGroups_spec)

definition name_order :: "string \<Rightarrow> string \<Rightarrow> int" where
  "name_order a b = (if a = b then 0 else if ord.lexordp (\<lambda>c d. of_char c < (of_char d :: nat)) a b then - 1 else 1)"

definition fan_in :: DirectedGraph where
  "fan_in = (let a = sample_node 1 ''a''; b = sample_node 2 ''b''; c = sample_node 3 ''c''; m = sample_node 4 ''m''
     in sample_graph [a, b, c, m]
          [sample_conn a m, sample_conn b m, (sample_conn c m)\<lparr>inputIndex := 1\<rparr>])"

definition fan_in_run :: IRunData where
  "fan_in_run = [(''b'', [sample_task [sample_item]]), (''c'', [sample_task [sample_item]])]"

theorem getSourceDataGroups_partition_witness:
  "list_all (group_ok (hasData fan_in_run []))
     (getSourceDataGroups name_order fan_in (sample_node 4 ''m'') fan_in_run [])
   \<and> map (\<lambda>grp. (complete grp, map (node_name \<circ> from_node) (group_connections grp)))
       (getSourceDataGroups name_order fan_in (sample_node 4 ''m'') fan_in_run [])
     = [(True, [''b'', ''c'']), (False, [''a''])]"
proof -
  have "map (\<lambda>grp. (complete grp, map (node_name \<circ> from_node) (group_connections grp)))
       (getSourceDataGroups name_order fan_in (sample_node 4 ''m'') fan_in_run [])
     = [(True, [''b'', ''c'']), (False, [''a''])]" by code_simp
  with getSourceDataGroups_partition[of name_order fan_in "sample_node 4 ''m''" fan_in_run "[]"]
  show ?thesis by (simp add: list_all_iff)
qed

section \<open>Recreating the execution stack\<close>

record IExecuteData =
  exec_node :: INode
  exec_data :: ITaskDataConnections
  exec_source :: "ITaskDataConnectionsSource option"
  exec_runIndex :: "nat option"
  exec_metadata :: "ITaskMetadata option"

text \<open>
  An array of the waiting executions is written by index.  A position no assignment has reached is
  a hole, which reads as \<open>undefined\<close> and not as \<open>null\<close>; the engine tests for \<open>null\<close>, so the two
  are kept apart.
\<close>

datatype 'a slot = Hole | Null | Held 'a

fun slot_of :: "'a option \<Rightarrow> 'a slot" where
  "slot_of None = Null"
| "slot_of (Some x) = Held x"

type_synonym 'a waiting = "(string, (nat, (NodeConnectionType, 'a slot list) js_map) js_map) js_map"
type_synonym IWaitingForExecution = "INodeExecutionData list waiting"
type_synonym IWaitingForExecutionSource = "ISourceData waiting"

text \<open>\<open>addWaitingExecution\<close> and \<open>addWaitingExecutionSource\<close> have the same body at two types.\<close>

definition put_waiting ::
  "string \<Rightarrow> nat \<Rightarrow> NodeConnectionType \<Rightarrow> nat \<Rightarrow> 'a option \<Rightarrow> 'a waiting \<Rightarrow> 'a waiting" where
  "put_waiting nodeName runIndex inputType ii v w =
     (let waitingObject = (case map_get w nodeName of None \<Rightarrow> [] | Some x \<Rightarrow> x);
          taskData = (case map_get waitingObject runIndex of None \<Rightarrow> [] | Some x \<Rightarrow> x);
          dataList = (case map_get taskData inputType of None \<Rightarrow> [] | Some x \<Rightarrow> x);
          dataList = js_array_set Hole dataList ii (slot_of v)
      in map_set nodeName (map_set runIndex (map_set inputType dataList taskData) waitingObject) w)"

definition addWaitingExecution ::
  "IWaitingForExecution \<Rightarrow> string \<Rightarrow> nat \<Rightarrow> NodeConnectionType \<Rightarrow> nat \<Rightarrow> INodeExecutionData list option
     \<Rightarrow> IWaitingForExecution" where
  "addWaitingExecution w nodeName runIndex inputType ii executionData =
     put_waiting nodeName runIndex inputType ii executionData w"

definition addWaitingExecutionSource ::
  "IWaitingForExecutionSource \<Rightarrow> string \<Rightarrow> nat \<Rightarrow> NodeConnectionType \<Rightarrow> nat \<Rightarrow> ISourceData option
     \<Rightarrow> IWaitingForExecutionSource" where
  "addWaitingExecutionSource w nodeName runIndex inputType ii sourceData =
     put_waiting nodeName runIndex inputType ii sourceData w"

record ExecutionStack =
  nodeExecutionStack :: "IExecuteData list"
  waitingExecution :: IWaitingForExecution
  waitingExecutionSource :: IWaitingForExecutionSource

text \<open>One connection of a complete group: the arrays \<open>incomingData\<close> and
  \<open>incomingSourceData.main\<close> after it.\<close>

definition addIncoming ::
  "IRunData \<Rightarrow> IPinData \<Rightarrow> GraphConnection \<Rightarrow> INodeExecutionData list option list \<times> ISourceData option list
     \<Rightarrow> (INodeExecutionData list option list \<times> ISourceData option list) result" where
  "addIncoming runData pinData c acc =
     (let (incomingData, sources) = acc;
          name = node_name (from_node c);
          source = (\<lambda>r. Some \<lparr>previousNode = name, previousNodeOutput = outputIndex c, previousNodeRun = r\<rparr>)
      in case map_get pinData name of
           Some items \<Rightarrow> Inr (incomingData @ [Some items], sources @ [source 0])
         | None \<Rightarrow>
             assert_ok (map_get runData name \<noteq> None)
               (rbind (getIncomingDataFromAnyRun runData name (gc_type c) (outputIndex c)) (\<lambda>d.
                  case d of
                    Some (items, r) \<Rightarrow> Inr (incomingData @ [Some items], sources @ [source r])
                  | None \<Rightarrow> Inr (incomingData, sources @ [source 0]))))"

definition addStackEntry ::
  "IRunData \<Rightarrow> IPinData \<Rightarrow> INode \<Rightarrow> GraphConnection list \<Rightarrow> ExecutionStack \<Rightarrow> ExecutionStack result" where
  "addStackEntry runData pinData startNode conns st =
     rbind (rfold (addIncoming runData pinData) conns ([], [])) (\<lambda>(incomingData, sources).
       Inr (st\<lparr>nodeExecutionStack := nodeExecutionStack st @
         [\<lparr>exec_node = startNode, exec_data = [(Main, incomingData)], exec_source = Some [(Main, sources)],
           exec_runIndex = None, exec_metadata = None\<rparr>]\<rparr>))"

text \<open>One connection of an incomplete group.\<close>

definition addWaiting ::
  "IRunData \<Rightarrow> string \<Rightarrow> nat \<Rightarrow> GraphConnection \<Rightarrow> ExecutionStack \<Rightarrow> ExecutionStack result" where
  "addWaiting runData nodeName nextRunIndex c st =
     rbind (getIncomingDataFromAnyRun runData (node_name (from_node c)) (gc_type c) (outputIndex c)) (\<lambda>d.
       case d of
         None \<Rightarrow> Inr st
       | Some (items, r) \<Rightarrow>
           Inr (st\<lparr>waitingExecution :=
                     addWaitingExecution (waitingExecution st) nodeName nextRunIndex (gc_type c) (inputIndex c) (Some items),
                   waitingExecutionSource :=
                     addWaitingExecutionSource (waitingExecutionSource st) nodeName nextRunIndex (gc_type c) (inputIndex c)
                       (Some \<lparr>previousNode = node_name (from_node c), previousNodeOutput = outputIndex c,
                              previousNodeRun = nextRunIndex\<rparr>)\<rparr>))"

definition addGroup ::
  "IRunData \<Rightarrow> IPinData \<Rightarrow> INode \<Rightarrow> SourceConnectionGroup \<Rightarrow> ExecutionStack \<Rightarrow> ExecutionStack result" where
  "addGroup runData pinData startNode grp st =
     (if complete grp then addStackEntry runData pinData startNode (group_connections grp) st
      else
        let nodeName = node_name startNode;
            nextRunIndex = (case map_get (waitingExecution st) nodeName of
                              Some runs \<Rightarrow> length (map_keys runs) | None \<Rightarrow> 0)
        in rfold (addWaiting runData nodeName nextRunIndex) (group_connections grp) st)"

definition empty_item :: INodeExecutionData where
  "empty_item = \<lparr>item_json = [], item_pairedItem = None, item_error = None\<rparr>"

definition addStartNode ::
  "(string \<Rightarrow> string \<Rightarrow> int) \<Rightarrow> DirectedGraph \<Rightarrow> IRunData \<Rightarrow> IPinData \<Rightarrow> INode \<Rightarrow> ExecutionStack
     \<Rightarrow> ExecutionStack result" where
  "addStartNode localeCompare g runData pinData startNode st =
     rbind (getDirectParentConnections g startNode) (\<lambda>parents.
       if filter (\<lambda>c. gc_type c = Main) parents = [] then
         Inr (st\<lparr>nodeExecutionStack := nodeExecutionStack st @
           [\<lparr>exec_node = startNode, exec_data = [(Main, [Some [empty_item]])], exec_source = None,
             exec_runIndex = None, exec_metadata = None\<rparr>]\<rparr>)
       else rfold (addGroup runData pinData startNode)
              (getSourceDataGroups localeCompare g startNode runData pinData) st)"

definition recreateNodeExecutionStack ::
  "(string \<Rightarrow> string \<Rightarrow> int) \<Rightarrow> DirectedGraph \<Rightarrow> INode list \<Rightarrow> IRunData \<Rightarrow> IPinData \<Rightarrow> ExecutionStack result" where
  "recreateNodeExecutionStack localeCompare g startNodes runData pinData =
     assert_ok (\<forall>n\<in>set (map_values (getNodes g)). \<not> is_disabled n)
       (rfold (addStartNode localeCompare g runData pinData) startNodes
          \<lparr>nodeExecutionStack = [], waitingExecution = [], waitingExecutionSource = []\<rparr>)"

section \<open>What the stack holds\<close>

text \<open>The data a connection of a complete group contributes, and its source entry.\<close>

definition incoming_of :: "IRunData \<Rightarrow> IPinData \<Rightarrow> GraphConnection \<Rightarrow> INodeExecutionData list option \<times> nat" where
  "incoming_of runData pinData c =
     (case map_get pinData (node_name (from_node c)) of
        Some items \<Rightarrow> (Some items, 0)
      | None \<Rightarrow>
          (case getIncomingDataFromAnyRun runData (node_name (from_node c)) (gc_type c) (outputIndex c) of
             Inr (Some (items, r)) \<Rightarrow> (Some items, r)
           | _ \<Rightarrow> (None, 0)))"

definition source_of :: "IRunData \<Rightarrow> IPinData \<Rightarrow> GraphConnection \<Rightarrow> ISourceData" where
  "source_of runData pinData c =
     \<lparr>previousNode = node_name (from_node c), previousNodeOutput = outputIndex c,
      previousNodeRun = snd (incoming_of runData pinData c)\<rparr>"

definition pushed :: "IRunData \<Rightarrow> IPinData \<Rightarrow> GraphConnection \<Rightarrow> INodeExecutionData list option list" where
  "pushed runData pinData c = (case fst (incoming_of runData pinData c) of Some items \<Rightarrow> [Some items] | None \<Rightarrow> [])"

definition entry_of :: "IRunData \<Rightarrow> IPinData \<Rightarrow> INode \<Rightarrow> GraphConnection list \<Rightarrow> IExecuteData" where
  "entry_of runData pinData startNode conns =
     \<lparr>exec_node = startNode, exec_data = [(Main, concat (map (pushed runData pinData) conns))],
      exec_source = Some [(Main, map (\<lambda>c. Some (source_of runData pinData c)) conns)], exec_runIndex = None, exec_metadata = None\<rparr>"

definition entries_of ::
  "(string \<Rightarrow> string \<Rightarrow> int) \<Rightarrow> DirectedGraph \<Rightarrow> IRunData \<Rightarrow> IPinData \<Rightarrow> INode \<Rightarrow> IExecuteData list" where
  "entries_of localeCompare g runData pinData s =
     (if \<exists>c\<in>conn_set g. to_node c = s \<and> gc_type c = Main then
        map (\<lambda>grp. entry_of runData pinData s (group_connections grp))
          (filter complete (getSourceDataGroups localeCompare g s runData pinData))
      else [\<lparr>exec_node = s, exec_data = [(Main, [Some [empty_item]])], exec_source = None, exec_runIndex = None, exec_metadata = None\<rparr>])"

lemma addIncoming_ok:
  assumes "hasData runData pinData c" and "type_recorded runData (node_name (from_node c)) (gc_type c)"
  shows "addIncoming runData pinData c (ds, ss)
    = Inr (ds @ pushed runData pinData c, ss @ [Some (source_of runData pinData c)])"
proof (cases "map_get pinData (node_name (from_node c))")
  case None
  from getIncomingDataFromAnyRun_total[OF assms(2), of "outputIndex c"] obtain d
    where "getIncomingDataFromAnyRun runData (node_name (from_node c)) (gc_type c) (outputIndex c) = Inr d" by blast
  with None assms(1) show ?thesis
    by (auto simp: addIncoming_def pushed_def source_of_def incoming_of_def hasData_def split: option.splits)
next
  case (Some items)
  then show ?thesis by (simp add: addIncoming_def pushed_def source_of_def incoming_of_def)
qed

lemma addIncoming_all:
  assumes "\<forall>c\<in>set cs. hasData runData pinData c"
    and "\<forall>c\<in>set cs. type_recorded runData (node_name (from_node c)) (gc_type c)"
  shows "rfold (addIncoming runData pinData) cs (ds, ss)
    = Inr (ds @ concat (map (pushed runData pinData) cs), ss @ map (\<lambda>c. Some (source_of runData pinData c)) cs)"
  using assms by (induction cs arbitrary: ds ss) (auto simp: addIncoming_ok)

text \<open>The positions at which a waiting structure holds a value.\<close>

definition waiting_shape :: "'a waiting \<Rightarrow> unit waiting" where
  "waiting_shape w = map (\<lambda>(n, runs). (n, map (\<lambda>(r, types). (r, map (\<lambda>(t, xs).
     (t, map (map_slot (\<lambda>_. ())) xs)) types)) runs)) w"

lemma update_map_values:
  "map (\<lambda>(k, v). (k, f v)) (map_set k v m) = map_set k (f v) (map (\<lambda>(k, v). (k, f v)) m)"
  by (induction m) auto

lemma map_get_map_values: "map_get (map (\<lambda>(k, v). (k, f v)) m) k = map_option f (map_get m k)"
  by (induction m) auto

lemma map_js_array_set: "map f (js_array_set h xs i v) = js_array_set (f h) (map f xs) i (f v)"
  by (simp add: js_array_set_def map_update)

lemma waiting_shape_put:
  "waiting_shape (put_waiting n r t i v w) = put_waiting n r t i (map_option (\<lambda>_. ()) v) (waiting_shape w)"
  by (cases v) (simp_all add: waiting_shape_def put_waiting_def Let_def update_map_values map_get_map_values
      map_js_array_set split: option.split)

definition tracks :: "ExecutionStack \<Rightarrow> bool" where
  "tracks st \<longleftrightarrow> waiting_shape (waitingExecution st) = waiting_shape (waitingExecutionSource st)"

definition waits :: "ExecutionStack \<Rightarrow> string set" where
  "waits st = set (map_keys (waitingExecution st))"

lemma keys_put_waiting: "set (map_keys (put_waiting n r t i v w)) = insert n (set (map_keys w))"
  by (simp add: put_waiting_def Let_def dom_update)

lemma addWaiting_ok:
  assumes "type_recorded runData (node_name (from_node c)) (gc_type c)"
  shows "\<exists>st'. addWaiting runData name r c st = Inr st'
    \<and> nodeExecutionStack st' = nodeExecutionStack st \<and> (tracks st \<longrightarrow> tracks st')
    \<and> waits st' \<subseteq> insert name (waits st)"
proof -
  from getIncomingDataFromAnyRun_total[OF assms, of "outputIndex c"] obtain d
    where "getIncomingDataFromAnyRun runData (node_name (from_node c)) (gc_type c) (outputIndex c) = Inr d" by blast
  then show ?thesis
    by (cases d) (auto simp: addWaiting_def tracks_def waits_def addWaitingExecution_def
        addWaitingExecutionSource_def waiting_shape_put keys_put_waiting
        simp del: set_map)
qed

lemma addWaiting_all:
  assumes "\<forall>c\<in>set cs. type_recorded runData (node_name (from_node c)) (gc_type c)"
  shows "\<exists>st'. rfold (addWaiting runData name r) cs st = Inr st'
    \<and> nodeExecutionStack st' = nodeExecutionStack st \<and> (tracks st \<longrightarrow> tracks st')
    \<and> waits st' \<subseteq> insert name (waits st)"
  using assms
proof (induction cs arbitrary: st)
  case Nil
  then show ?case by auto
next
  case (Cons c cs)
  from addWaiting_ok[of runData c name r st] Cons.prems obtain st1 where
    1: "addWaiting runData name r c st = Inr st1" "nodeExecutionStack st1 = nodeExecutionStack st"
      "tracks st \<longrightarrow> tracks st1" "waits st1 \<subseteq> insert name (waits st)" by auto
  from Cons.IH[of st1] Cons.prems obtain st2 where
    2: "rfold (addWaiting runData name r) cs st1 = Inr st2" "nodeExecutionStack st2 = nodeExecutionStack st1"
      "tracks st1 \<longrightarrow> tracks st2" "waits st2 \<subseteq> insert name (waits st1)" by auto
  from 1 2 show ?case by auto
qed

text \<open>The effect of a step on the state: the entries it pushes and the names it may add to the
  waiting executions.\<close>

definition pushes :: "ExecutionStack \<Rightarrow> ExecutionStack \<Rightarrow> IExecuteData list \<Rightarrow> string set \<Rightarrow> bool" where
  "pushes st st' es names \<longleftrightarrow> nodeExecutionStack st' = nodeExecutionStack st @ es
     \<and> (tracks st \<longrightarrow> tracks st') \<and> waits st' \<subseteq> waits st \<union> names"

lemma pushes_refl: "pushes st st [] {}"
  by (simp add: pushes_def)

lemma pushes_trans: "pushes s t es ns \<Longrightarrow> pushes t u fs ms \<Longrightarrow> pushes s u (es @ fs) (ns \<union> ms)"
  by (auto simp: pushes_def)

lemma rfold_pushes:
  assumes "\<And>x st. x \<in> set xs \<Longrightarrow> \<exists>st'. f x st = Inr st' \<and> pushes st st' (es x) (ns x)"
  shows "\<exists>st'. rfold f xs st = Inr st' \<and> pushes st st' (concat (map es xs)) (\<Union>x\<in>set xs. ns x)"
  using assms
proof (induction xs arbitrary: st)
  case Nil
  then show ?case by (simp add: pushes_refl)
next
  case (Cons x xs)
  from Cons.prems[of x st] obtain st1 where 1: "f x st = Inr st1" "pushes st st1 (es x) (ns x)" by auto
  from Cons.IH[of st1] Cons.prems obtain st2 where
    2: "rfold f xs st1 = Inr st2" "pushes st1 st2 (concat (map es xs)) (\<Union>x\<in>set xs. ns x)" by auto
  from pushes_trans[OF 1(2) 2(2)] 1(1) 2(1) show ?case by auto
qed

lemma addGroup_ok:
  assumes "group_ok (hasData runData pinData) grp"
    and "\<forall>c\<in>set (group_connections grp). type_recorded runData (node_name (from_node c)) (gc_type c)"
  shows "\<exists>st'. addGroup runData pinData s grp st = Inr st'
    \<and> pushes st st' (if complete grp then [entry_of runData pinData s (group_connections grp)] else [])
        (if complete grp then {} else {node_name s})"
proof (cases "complete grp")
  case True
  with assms(1) have "\<forall>c\<in>set (group_connections grp). hasData runData pinData c" by (simp add: group_ok_def)
  from addIncoming_all[OF this assms(2), of "[]" "[]"] True show ?thesis
    by (simp add: addGroup_def addStackEntry_def entry_of_def pushes_def tracks_def waits_def)
next
  case False
  from addWaiting_all[OF assms(2), of "node_name s" _ st] False show ?thesis
    by (auto simp: addGroup_def pushes_def Let_def)
qed

lemma group_connections_of:
  assumes "grp \<in> set (getSourceDataGroups lc g s runData pinData)" and "c \<in> set (group_connections grp)"
  shows "c \<in> conn_set g" and "to_node c = s"
proof -
  have "c \<in># mset (concat (map group_connections (getSourceDataGroups lc g s runData pinData)))"
    using assms by auto
  then have "c \<in> set (getConnections g (Some s))"
    unfolding getSourceDataGroups_spec[THEN conjunct1] by simp
  then show "c \<in> conn_set g" and "to_node c = s" by (auto simp: getConnections_def conn_set_def)
qed

lemma concat_map_if: "concat (map (\<lambda>x. if P x then [f x] else []) xs) = map f (filter P xs)"
  by (induction xs) auto

lemma addStartNode_ok:
  assumes "wf_graph g" and "s \<in> node_set g"
    and rec: "\<forall>c\<in>conn_set g. type_recorded runData (node_name (from_node c)) (gc_type c)"
  shows "\<exists>st'. addStartNode lc g runData pinData s st = Inr st'
    \<and> pushes st st' (entries_of lc g runData pinData s)
        (if \<exists>grp\<in>set (getSourceDataGroups lc g s runData pinData). \<not> complete grp then {node_name s} else {})"
proof -
  let ?groups = "getSourceDataGroups lc g s runData pinData"
  let ?ps = "filter (\<lambda>c. to_node c = s) (map snd (connections g))"
  have ps: "getDirectParentConnections g s = Inr ?ps" using assms(1,2) by (rule wf_parent_connections)
  have main: "filter (\<lambda>c. gc_type c = Main) ?ps = [] \<longleftrightarrow> \<not> (\<exists>c\<in>conn_set g. to_node c = s \<and> gc_type c = Main)"
    by (auto simp: conn_set_def filter_empty_conv)
  show ?thesis
  proof (cases "\<exists>c\<in>conn_set g. to_node c = s \<and> gc_type c = Main")
    case False
    with main ps show ?thesis
      by (auto simp: addStartNode_def entries_of_def pushes_def tracks_def waits_def)
  next
    case True
    have "\<exists>st'. addGroup runData pinData s grp st = Inr st'
        \<and> pushes st st' (if complete grp then [entry_of runData pinData s (group_connections grp)] else [])
            (if complete grp then {} else {node_name s})" if "grp \<in> set ?groups" for grp st
      using rec that getSourceDataGroups_spec group_connections_of(1)[OF that] by (intro addGroup_ok) blast+
    from rfold_pushes[of ?groups "addGroup runData pinData s", OF this] obtain st'
      where "rfold (addGroup runData pinData s) ?groups st = Inr st'"
        and "pushes st st' (concat (map (\<lambda>grp. if complete grp
               then [entry_of runData pinData s (group_connections grp)] else []) ?groups))
             (\<Union>grp\<in>set ?groups. if complete grp then {} else {node_name s})" by blast
    moreover have "(\<Union>grp\<in>set ?groups. if complete grp then {} else {node_name s})
        = (if \<exists>grp\<in>set ?groups. \<not> complete grp then {node_name s} else {})" by auto
    moreover have "addStartNode lc g runData pinData s st = rfold (addGroup runData pinData s) ?groups st"
      using True main ps by (simp add: addStartNode_def)
    ultimately show ?thesis using True by (auto simp: concat_map_if entries_of_def)
  qed
qed

text \<open>\<^bold>\<open>C15.\<close> On a well-formed graph without disabled nodes, with start nodes of the graph and
  run data that has the connection types of the graph, recreating the stack never throws: in
  particular the assertion that every connection of a complete group has run data holds.  The
  stack is, start node by start node, one entry with an empty item for a node without \<open>Main\<close>
  parents, otherwise one entry per complete group; the waiting executions and their sources have
  values at the same positions, and only start nodes with an incomplete group wait.\<close>

theorem recreateNodeExecutionStack_correct:
  assumes "wf_graph g" and "\<forall>n\<in>node_set g. \<not> is_disabled n" and "set startNodes \<subseteq> node_set g"
    and "\<forall>c\<in>conn_set g. type_recorded runData (node_name (from_node c)) (gc_type c)"
  shows "\<exists>st. recreateNodeExecutionStack localeCompare g startNodes runData pinData = Inr st
    \<and> nodeExecutionStack st = concat (map (entries_of localeCompare g runData pinData) startNodes)
    \<and> waiting_shape (waitingExecution st) = waiting_shape (waitingExecutionSource st)
    \<and> set (map_keys (waitingExecution st)) \<subseteq> {node_name s | s. s \<in> set startNodes
          \<and> (\<exists>grp\<in>set (getSourceDataGroups localeCompare g s runData pinData). \<not> complete grp)}"
proof -
  let ?init = "\<lparr>nodeExecutionStack = [], waitingExecution = [], waitingExecutionSource = []\<rparr>"
  have "\<exists>st'. addStartNode localeCompare g runData pinData s st = Inr st'
    \<and> pushes st st' (entries_of localeCompare g runData pinData s)
        (if \<exists>grp\<in>set (getSourceDataGroups localeCompare g s runData pinData). \<not> complete grp
         then {node_name s} else {})" if "s \<in> set startNodes" for s st
    using that assms by (intro addStartNode_ok) auto
  from rfold_pushes[of startNodes "addStartNode localeCompare g runData pinData", OF this] obtain st
    where st: "rfold (addStartNode localeCompare g runData pinData) startNodes ?init = Inr st"
      and p: "pushes ?init st (concat (map (entries_of localeCompare g runData pinData) startNodes))
        (\<Union>s\<in>set startNodes.
          if \<exists>grp\<in>set (getSourceDataGroups localeCompare g s runData pinData). \<not> complete grp
          then {node_name s} else {})" by blast
  have "recreateNodeExecutionStack localeCompare g startNodes runData pinData = Inr st"
    using assms(2) st by (simp add: recreateNodeExecutionStack_def getNodes_def node_set_def)
  moreover from p have "set (map_keys (waitingExecution st)) \<subseteq> {node_name s | s. s \<in> set startNodes
      \<and> (\<exists>grp\<in>set (getSourceDataGroups localeCompare g s runData pinData). \<not> complete grp)}"
    unfolding pushes_def waits_def by (force split: if_splits)
  moreover have "tracks ?init" by (simp add: tracks_def waiting_shape_def)
  ultimately show ?thesis using p by (simp add: pushes_def tracks_def)
qed

theorem recreateNodeExecutionStack_correct_witness:
  "wf_graph fan_in \<and> set [sample_node 4 ''m''] \<subseteq> node_set fan_in
   \<and> (\<exists>st. recreateNodeExecutionStack name_order fan_in [sample_node 4 ''m''] fan_in_run [] = Inr st
       \<and> nodeExecutionStack st = entries_of name_order fan_in fan_in_run [] (sample_node 4 ''m''))"
proof -
  have w: "wf_graph fan_in" and d: "\<forall>n\<in>node_set fan_in. \<not> is_disabled n"
    and s: "set [sample_node 4 ''m''] \<subseteq> node_set fan_in"
    and r: "\<forall>c\<in>conn_set fan_in. type_recorded fan_in_run (node_name (from_node c)) (gc_type c)"
    by code_simp+
  from recreateNodeExecutionStack_correct[OF w d s r, of name_order "[]"] obtain st
    where "recreateNodeExecutionStack name_order fan_in [sample_node 4 ''m''] fan_in_run [] = Inr st"
      and "nodeExecutionStack st = entries_of name_order fan_in fan_in_run [] (sample_node 4 ''m'')" by auto
  with w s show ?thesis by blast
qed

definition shifted_run :: IRunData where
  "shifted_run = [(''b'', [sample_task []]), (''c'', [sample_task [sample_item]])]"

text \<open>The data array of a stack entry is filled by \<open>push\<close>, so a connection whose source ran
  without producing items on that output leaves no gap: here input 0 of \<open>m\<close> is fed by \<open>b\<close>,
  which returned no items, and input 1 by \<open>c\<close>; the entry has the items of \<open>c\<close> at input 0,
  while the source array still names \<open>b\<close> there.\<close>

theorem recreateNodeExecutionStack_shifts_inputs:
  "\<exists>st. recreateNodeExecutionStack name_order fan_in [sample_node 4 ''m''] shifted_run [] = Inr st
   \<and> map exec_data (nodeExecutionStack st) = [[(Main, [Some [sample_item]])]]
   \<and> map (\<lambda>e. map_option (map (\<lambda>(t, ss). map (map_option previousNode) ss)) (exec_source e)) (nodeExecutionStack st)
       = [Some [[Some ''b'', Some ''c'']]]"
proof -
  have "(case recreateNodeExecutionStack name_order fan_in [sample_node 4 ''m''] shifted_run [] of
     Inl _ \<Rightarrow> False
   | Inr st \<Rightarrow> map exec_data (nodeExecutionStack st) = [[(Main, [Some [sample_item]])]]
       \<and> map (\<lambda>e. map_option (map (\<lambda>(t, ss). map (map_option previousNode) ss)) (exec_source e)) (nodeExecutionStack st)
       = [Some [[Some ''b'', Some ''c'']]])" by code_simp
  then show ?thesis by (simp split: sum.splits)
qed

end
