(* ===== verification/Workflow_Search.thy ===== *)
theory Workflow_Search
  imports Workflow_Connections
begin

text \<open>
  The breadth-first searches of the class \<open>Workflow\<close>: \<open>searchNodesBFS\<close> with
  \<open>getParentNodesByDepth\<close>, and \<open>getNodeConnectionIndexes\<close>.  The search by depth visits
  level by level; an entry of its result is the object the table of visited nodes holds, so
  later additions to its indexes show in the result, and the model keeps the entry in the table
  only.  The theorems: both loops end, the nodes found are the reachable ones, the depth of a node
  is its distance, and an index pair is found exactly if the parent is reachable.
\<close>

section \<open>Definitions\<close>

record IConnectedNode =
  cn_name :: string
  cn_indicies :: "nat list"
  cn_depth :: nat

record bfs_state =
  bfs_visited :: "(string, IConnectedNode) js_map"
  bfs_found :: "string list"
  bfs_queue :: "IConnectedNode list"

definition main_connections :: "IConnections \<Rightarrow> string \<Rightarrow> IConnection list" where
  "main_connections connections name = followed (OfType Main) (own_or [] connections name)"

definition visitNode :: "IConnections \<Rightarrow> string \<Rightarrow> nat \<Rightarrow> IConnectedNode \<Rightarrow> bfs_state \<Rightarrow> bfs_state" where
  "visitNode connections sourceNode depth cur st =
    (case map_get (bfs_visited st) (cn_name cur) of
       Some v \<Rightarrow> st\<lparr>bfs_visited := map_set (cn_name cur)
           (v\<lparr>cn_indicies := set_of_array (cn_indicies v @ cn_indicies cur)\<rparr>) (bfs_visited st)\<rparr>
     | None \<Rightarrow> st\<lparr>bfs_visited := map_set (cn_name cur) cur (bfs_visited st),
           bfs_found := bfs_found st @ (if cn_name cur \<noteq> sourceNode then [cn_name cur] else []),
           bfs_queue := bfs_queue st @ map (\<lambda>c. \<lparr>cn_name = conn_node c, cn_indicies = [conn_index c],
             cn_depth = depth\<rparr>) (main_connections connections (cn_name cur))\<rparr>)"

definition visitLevel :: "IConnections \<Rightarrow> string \<Rightarrow> nat \<Rightarrow> bfs_state \<Rightarrow> bfs_state" where
  "visitLevel connections sourceNode depth st =
    fold (visitNode connections sourceNode depth) (bfs_queue st) (st\<lparr>bfs_queue := []\<rparr>)"

subsection \<open>The effect of a level\<close>

definition bfs_keys :: "bfs_state \<Rightarrow> string set" where
  "bfs_keys st = {n. map_get (bfs_visited st) n \<noteq> None}"

lemma keys_visitNode [simp]: "bfs_keys (visitNode C src d cur st) = insert (cn_name cur) (bfs_keys st)"
  by (auto simp: visitNode_def bfs_keys_def split: option.split)

lemma keys_visitNodes: "bfs_keys (fold (visitNode C src d) es st) = cn_name ` set es \<union> bfs_keys st"
  by (induction es arbitrary: st) auto

lemma queue_visitNodes:
  "cn_name ` set (bfs_queue (fold (visitNode C src d) es st)) = cn_name ` set (bfs_queue st) \<union>
    (\<Union>n\<in>cn_name ` set es - bfs_keys st. conn_node ` set (main_connections C n))"
proof (induction es arbitrary: st)
  case (Cons e es)
  have "cn_name ` set (bfs_queue (visitNode C src d e st)) = cn_name ` set (bfs_queue st) \<union>
      (if cn_name e \<in> bfs_keys st then {} else conn_node ` set (main_connections C (cn_name e)))"
    by (cases "map_get (bfs_visited st) (cn_name e)")
      (simp_all add: visitNode_def bfs_keys_def image_Un image_image)
  then show ?case
    using Cons by auto
qed simp

lemma keys_visitLevel: "bfs_keys (visitLevel C src d st) = cn_name ` set (bfs_queue st) \<union> bfs_keys st"
  by (simp add: visitLevel_def keys_visitNodes) (simp add: bfs_keys_def)

lemma queue_visitLevel:
  "cn_name ` set (bfs_queue (visitLevel C src d st)) =
    (\<Union>n\<in>cn_name ` set (bfs_queue st) - bfs_keys st. conn_node ` set (main_connections C n))"
  by (simp add: visitLevel_def queue_visitNodes) (simp add: bfs_keys_def)

text \<open>All nodes a search can meet.\<close>

definition bfs_nodes :: "IConnections \<Rightarrow> bfs_state \<Rightarrow> string set" where
  "bfs_nodes C st = cn_name ` set (bfs_queue st) \<union> (\<Union>n\<in>fst ` set C. conn_node ` set (main_connections C n))"

lemma finite_bfs_nodes [simp]: "finite (bfs_nodes C st)"
  by (simp add: bfs_nodes_def)

lemma main_connections_outside: "n \<notin> fst ` set C \<Longrightarrow> main_connections C n = []"
  by (simp add: main_connections_def own_or_def map_of_eq_None_iff [THEN iffD2] followed_def filter_types_def)

lemma bfs_measure:
  assumes "bfs_queue st \<noteq> []"
  shows "(visitLevel C src d st, st) \<in> measures [\<lambda>st. card (bfs_nodes C st - bfs_keys st), \<lambda>st. length (bfs_queue st)]"
proof -
  let ?st = "visitLevel C src d st"
  have sub: "bfs_nodes C ?st - bfs_keys ?st \<subseteq> bfs_nodes C st - bfs_keys st"
    using main_connections_outside by (fastforce simp: bfs_nodes_def queue_visitLevel keys_visitLevel)
  show ?thesis
  proof (cases "cn_name ` set (bfs_queue st) \<subseteq> bfs_keys st")
    case True
    then have "cn_name ` set (bfs_queue ?st) = {}"
      by (auto simp: queue_visitLevel)
    then have "bfs_queue ?st = []"
      by simp
    moreover have "card (bfs_nodes C ?st - bfs_keys ?st) \<le> card (bfs_nodes C st - bfs_keys st)"
      using sub by (intro card_mono) simp_all
    ultimately show ?thesis
      using assms by auto
  next
    case False
    then obtain n where "n \<in> cn_name ` set (bfs_queue st)" "n \<notin> bfs_keys st"
      by blast
    then have "n \<in> bfs_nodes C st - bfs_keys st" "n \<notin> bfs_nodes C ?st - bfs_keys ?st"
      by (auto simp: bfs_nodes_def keys_visitLevel)
    with sub have "card (bfs_nodes C ?st - bfs_keys ?st) < card (bfs_nodes C st - bfs_keys st)"
      by (intro psubset_card_mono) auto
    then show ?thesis
      by simp
  qed
qed

subsection \<open>The search\<close>

function bfsLoop :: "IConnections \<Rightarrow> string \<Rightarrow> int \<Rightarrow> nat \<Rightarrow> bfs_state \<Rightarrow> bfs_state" where
  "bfsLoop connections sourceNode maxDepth depth st =
    (if bfs_queue st = [] then st
     else if maxDepth \<noteq> -1 \<and> int depth > maxDepth then st
     else bfsLoop connections sourceNode maxDepth (Suc depth)
       (visitLevel connections sourceNode (Suc depth) st))"
  by pat_completeness auto

termination bfsLoop
  by (relation "inv_image (measures [\<lambda>(C, st). card (bfs_nodes C st - bfs_keys st), \<lambda>(C, st). length (bfs_queue st)])
      (\<lambda>(C, _, _, _, st). (C, st))")
    (use bfs_measure in \<open>auto simp: measures_def\<close>)

declare bfsLoop.simps [simp del]

definition searchNodesBFS :: "IConnections \<Rightarrow> string \<Rightarrow> int \<Rightarrow> IConnectedNode list" where
  "searchNodesBFS connections sourceNode maxDepth =
    (let st = bfsLoop connections sourceNode maxDepth 0
         \<lparr>bfs_visited = [], bfs_found = [],
          bfs_queue = [\<lparr>cn_name = sourceNode, cn_indicies = [], cn_depth = 0\<rparr>]\<rparr>
     in List.map_filter (\<lambda>n. map_get (bfs_visited st) n) (bfs_found st))"

definition getParentNodesByDepth :: "IConnections \<Rightarrow> string \<Rightarrow> int \<Rightarrow> IConnectedNode list" where
  "getParentNodesByDepth byDestination nodeName maxDepth = searchNodesBFS byDestination nodeName maxDepth"

section \<open>Depth is distance\<close>

abbreviation main_edges_of :: "IConnections \<Rightarrow> (string \<times> string) set" where
  "main_edges_of C \<equiv> conn_edges C (OfType Main)"

lemma main_edges_iff: "(a, b) \<in> main_edges_of C \<longleftrightarrow> b \<in> conn_node ` set (main_connections C a)"
  by (cases "map_get C a") (auto simp: conn_edges_def main_connections_def own_or_def followed_def filter_types_def)

text \<open>Nodes at a distance less than \<open>k\<close>.\<close>

definition nearer :: "('a \<times> 'a) set \<Rightarrow> 'a \<Rightarrow> nat \<Rightarrow> 'a set" where
  "nearer E src k = {y. \<exists>j<k. (src, y) \<in> E ^^ j}"

lemma nearer_0 [simp]: "nearer E src 0 = {}"
  by (simp add: nearer_def)

lemma nearer_Suc: "nearer E src (Suc k) = nearer E src k \<union> {y. (src, y) \<in> E ^^ k}"
  by (auto simp: nearer_def less_Suc_eq)

lemma nearer_mono: "j \<le> k \<Longrightarrow> nearer E src j \<subseteq> nearer E src k"
  unfolding nearer_def using less_le_trans by blast

text \<open>The next level: what the last level leads to, beyond what is nearer.\<close>

lemma nearer_step:
  "nearer E src (Suc (Suc k)) =
    nearer E src (Suc k) \<union> (\<Union>n\<in>nearer E src (Suc k) - nearer E src k. {y. (n, y) \<in> E})"
proof
  show "nearer E src (Suc (Suc k)) \<subseteq>
      nearer E src (Suc k) \<union> (\<Union>n\<in>nearer E src (Suc k) - nearer E src k. {y. (n, y) \<in> E})"
  proof
    fix y
    assume "y \<in> nearer E src (Suc (Suc k))"
    then consider "y \<in> nearer E src (Suc k)" | z where "(src, z) \<in> E ^^ k" "(z, y) \<in> E"
      by (auto simp: nearer_Suc)
    then show "y \<in> nearer E src (Suc k) \<union> (\<Union>n\<in>nearer E src (Suc k) - nearer E src k. {y. (n, y) \<in> E})"
    proof cases
      case 2
      show ?thesis
      proof (cases "z \<in> nearer E src k")
        case True
        then obtain j where "j < k" "(src, z) \<in> E ^^ j"
          by (auto simp: nearer_def)
        then have "(src, y) \<in> E ^^ Suc j" "Suc j < Suc k"
          using 2(2) by auto
        then show ?thesis
          unfolding nearer_def by blast
      next
        case False
        with 2 show ?thesis
          by (auto simp: nearer_Suc)
      qed
    qed simp
  qed
  show "nearer E src (Suc k) \<union> (\<Union>n\<in>nearer E src (Suc k) - nearer E src k. {y. (n, y) \<in> E})
      \<subseteq> nearer E src (Suc (Suc k))"
  proof -
    have "y \<in> nearer E src (Suc (Suc k))" if n: "n \<in> nearer E src (Suc k)" "(n, y) \<in> E" for n y
    proof -
      obtain j where "j < Suc k" "(src, n) \<in> E ^^ j"
        using n(1) by (auto simp: nearer_def)
      then have "(src, y) \<in> E ^^ Suc j" "Suc j < Suc (Suc k)"
        using n(2) by auto
      then show ?thesis
        unfolding nearer_def by blast
    qed
    then show ?thesis
      using nearer_mono [of "Suc k" "Suc (Suc k)" E src] by auto
  qed
qed

lemma nearer_closed:
  assumes "nearer E src (Suc k) \<subseteq> nearer E src k"
  shows "(src, y) \<in> E ^^ j \<Longrightarrow> y \<in> nearer E src k"
proof (induction j arbitrary: y)
  case 0
  have "src \<in> nearer E src (Suc k)"
    unfolding nearer_def by (auto intro: exI [of _ 0])
  with 0 assms show ?case
    by auto
next
  case (Suc j)
  then obtain z where "(src, z) \<in> E ^^ j" "(z, y) \<in> E"
    by auto
  with Suc.IH obtain i where "i < k" "(src, z) \<in> E ^^ i"
    by (auto simp: nearer_def)
  then have "(src, y) \<in> E ^^ Suc i" "Suc i < Suc k"
    using \<open>(z, y) \<in> E\<close> by auto
  then have "y \<in> nearer E src (Suc k)"
    unfolding nearer_def by blast
  with assms show ?case
    by blast
qed

subsection \<open>The invariant of the search\<close>

definition bfs_entry :: "bfs_state \<Rightarrow> string \<Rightarrow> (string \<times> nat) option" where
  "bfs_entry st y = map_option (\<lambda>v. (cn_name v, cn_depth v)) (map_get (bfs_visited st) y)"

lemma bfs_keys_entry: "y \<in> bfs_keys st \<longleftrightarrow> bfs_entry st y \<noteq> None"
  by (simp add: bfs_keys_def bfs_entry_def)

lemma entry_visitNode:
  "bfs_entry (visitNode C src d e st) y =
    (if y = cn_name e \<and> y \<notin> bfs_keys st then Some (cn_name e, cn_depth e) else bfs_entry st y)"
  by (auto simp: visitNode_def bfs_entry_def bfs_keys_def split: option.split)

lemma entry_visitNodes:
  "\<forall>e\<in>set es. cn_depth e = k \<Longrightarrow> bfs_entry (fold (visitNode C src d) es st) y =
    (if y \<in> cn_name ` set es - bfs_keys st then Some (y, k) else bfs_entry st y)"
  by (induction es arbitrary: st) (auto simp: entry_visitNode)

lemma found_visitNode:
  "bfs_found (visitNode C src d e st) =
    bfs_found st @ (if cn_name e \<in> bfs_keys st \<or> cn_name e = src then [] else [cn_name e])"
  by (simp add: visitNode_def bfs_keys_def split: option.split)

lemma found_visitNodes:
  assumes "distinct (bfs_found st)" "set (bfs_found st) = bfs_keys st - {src}"
  shows "\<exists>zs. bfs_found (fold (visitNode C src d) es st) = bfs_found st @ zs \<and>
    distinct (bfs_found st @ zs) \<and> set zs = cn_name ` set es - bfs_keys st - {src}"
  using assms
proof (induction es arbitrary: st)
  case (Cons e es)
  let ?st = "visitNode C src d e st"
  have "distinct (bfs_found ?st)" "set (bfs_found ?st) = bfs_keys ?st - {src}"
    using Cons.prems by (auto simp: found_visitNode)
  from Cons.IH [OF this] obtain zs where zs: "bfs_found (fold (visitNode C src d) es ?st) = bfs_found ?st @ zs"
    "distinct (bfs_found ?st @ zs)" "set zs = cn_name ` set es - bfs_keys ?st - {src}"
    by blast
  then show ?case
    by (intro exI [of _ "(if cn_name e \<in> bfs_keys st \<or> cn_name e = src then [] else [cn_name e]) @ zs"])
      (auto simp: found_visitNode)
qed simp

lemma queue_depth_visitNodes:
  "\<forall>e\<in>set (bfs_queue st). cn_depth e = d \<Longrightarrow> \<forall>e\<in>set (bfs_queue (fold (visitNode C src d) es st)). cn_depth e = d"
proof (induction es arbitrary: st)
  case (Cons e es)
  have "\<forall>x\<in>set (bfs_queue (visitNode C src d e st)). cn_depth x = d"
    using Cons.prems by (auto simp: visitNode_def split: option.split)
  with Cons.IH show ?case
    by simp
qed simp

definition depth_of :: "bfs_state \<Rightarrow> string \<Rightarrow> nat" where
  "depth_of st n = (case bfs_entry st n of Some (_, k) \<Rightarrow> k | None \<Rightarrow> 0)"

definition bfs_inv :: "IConnections \<Rightarrow> string \<Rightarrow> nat \<Rightarrow> bfs_state \<Rightarrow> bool" where
  "bfs_inv C src k st =
    (let E = main_edges_of C in
     bfs_keys st = nearer E src k \<and>
     cn_name ` set (bfs_queue st) \<union> bfs_keys st = nearer E src (Suc k) \<and>
     (\<forall>y m d. bfs_entry st y = Some (m, d) \<longrightarrow> m = y \<and> d < k \<and> (src, y) \<in> E ^^ d \<and> y \<notin> nearer E src d) \<and>
     (\<forall>e\<in>set (bfs_queue st). cn_depth e = k) \<and>
     distinct (bfs_found st) \<and> set (bfs_found st) = bfs_keys st - {src} \<and>
     sorted (map (depth_of st) (bfs_found st)))"

lemma bfs_inv_init:
  "bfs_inv C src 0 \<lparr>bfs_visited = [], bfs_found = [], bfs_queue = [\<lparr>cn_name = src, cn_indicies = is, cn_depth = 0\<rparr>]\<rparr>"
  by (simp add: bfs_inv_def bfs_keys_def bfs_entry_def nearer_Suc)

lemma bfs_inv_level:
  assumes "bfs_inv C src k st"
  shows "bfs_inv C src (Suc k) (visitLevel C src (Suc k) st)"
proof -
  let ?E = "main_edges_of C" and ?st = "visitLevel C src (Suc k) st" and ?cleared = "st\<lparr>bfs_queue := []\<rparr>"
  have keys: "bfs_keys st = nearer ?E src k" "cn_name ` set (bfs_queue st) \<union> bfs_keys st = nearer ?E src (Suc k)"
    and entry: "\<And>y m d. bfs_entry st y = Some (m, d) \<Longrightarrow> m = y \<and> d < k \<and> (src, y) \<in> ?E ^^ d \<and> y \<notin> nearer ?E src d"
    and depth: "\<forall>e\<in>set (bfs_queue st). cn_depth e = k"
    and found: "distinct (bfs_found st)" "set (bfs_found st) = bfs_keys st - {src}" "sorted (map (depth_of st) (bfs_found st))"
    using assms by (auto simp: bfs_inv_def Let_def)
  have st0: "bfs_keys ?cleared = bfs_keys st" "bfs_entry ?cleared = bfs_entry st"
    by (auto simp: bfs_keys_def bfs_entry_def)
  have new: "cn_name ` set (bfs_queue st) - bfs_keys st = nearer ?E src (Suc k) - nearer ?E src k"
    using keys by blast
  have keys': "bfs_keys ?st = nearer ?E src (Suc k)"
    using keys by (simp add: keys_visitLevel)
  have queue': "cn_name ` set (bfs_queue ?st) = (\<Union>n\<in>nearer ?E src (Suc k) - nearer ?E src k. {y. (n, y) \<in> ?E})"
    by (simp add: queue_visitLevel new main_edges_iff)
  have entries: "bfs_entry ?st y =
      (if y \<in> nearer ?E src (Suc k) - nearer ?E src k then Some (y, k) else bfs_entry st y)" for y
    using entry_visitNodes [OF depth, of C src "Suc k" ?cleared y] by (simp add: visitLevel_def st0 new)
  have entry': "m = y \<and> d < Suc k \<and> (src, y) \<in> ?E ^^ d \<and> y \<notin> nearer ?E src d"
    if "bfs_entry ?st y = Some (m, d)" for y m d
  proof (cases "y \<in> nearer ?E src (Suc k) - nearer ?E src k")
    case True
    with that show ?thesis
      by (auto simp: entries nearer_Suc)
  next
    case False
    then have "bfs_entry st y = Some (m, d)"
      using that by (metis entries)
    from entry [OF this] show ?thesis
      by simp
  qed
  have "\<forall>e\<in>set (bfs_queue ?st). cn_depth e = Suc k"
    unfolding visitLevel_def by (rule queue_depth_visitNodes) simp
  moreover obtain zs where zs: "bfs_found ?st = bfs_found st @ zs" "distinct (bfs_found st @ zs)"
    "set zs = nearer ?E src (Suc k) - nearer ?E src k - {src}"
    using found_visitNodes [of ?cleared src C "Suc k" "bfs_queue st"] found(1,2)
    by (auto simp: visitLevel_def st0 new)
  moreover have "sorted (map (depth_of ?st) (bfs_found st @ zs))"
  proof -
    have old: "depth_of ?st n = depth_of st n \<and> depth_of st n < k" if "n \<in> set (bfs_found st)" for n
    proof -
      have n: "n \<in> nearer ?E src k"
        using that found(2) keys(1) by blast
      then have "bfs_entry st n \<noteq> None"
        using keys(1) bfs_keys_entry by blast
      then obtain m d where "bfs_entry st n = Some (m, d)"
        by auto
      with entry n show ?thesis
        by (auto simp: depth_of_def entries)
    qed
    moreover have "depth_of ?st n = k" if "n \<in> set zs" for n
      using that zs(3) by (simp add: depth_of_def entries)
    ultimately show ?thesis
      using found(3) by (auto simp: sorted_append less_imp_le map_replicate_const cong: map_cong)
  qed
  ultimately show ?thesis
    using keys' queue' entry' nearer_step [of ?E src k] found(2) keys(1)
    unfolding bfs_inv_def Let_def by (auto simp: nearer_Suc [of _ _ k])
qed

lemma bfsLoop_inv:
  assumes "bfs_inv C src depth st" "-1 \<le> maxDepth" "maxDepth = -1 \<or> int depth \<le> maxDepth + 1"
  shows "\<exists>k. bfs_inv C src k (bfsLoop C src maxDepth depth st) \<and>
    (bfs_queue (bfsLoop C src maxDepth depth st) = [] \<and> (maxDepth = -1 \<or> int k \<le> maxDepth + 1) \<or>
     int k = maxDepth + 1 \<and> maxDepth \<noteq> -1)"
  using assms
proof (induction C src maxDepth depth st rule: bfsLoop.induct)
  case (1 C src maxDepth depth st)
  show ?case
  proof (cases "bfs_queue st = [] \<or> maxDepth \<noteq> -1 \<and> int depth > maxDepth")
    case True
    then have "bfsLoop C src maxDepth depth st = st"
      by (subst bfsLoop.simps) auto
    with True 1(2-4) show ?thesis
      by (intro exI [of _ depth]) auto
  next
    case False
    then have "bfsLoop C src maxDepth depth st =
        bfsLoop C src maxDepth (Suc depth) (visitLevel C src (Suc depth) st)"
      by (subst bfsLoop.simps) auto
    with False 1(1) [OF _ _ bfs_inv_level [OF 1(2)] 1(3)] show ?thesis
      by auto
  qed
qed

text \<open>What the table of visited nodes holds of a node the search found.\<close>

lemma bfs_inv_results:
  assumes "bfs_inv C src k st" "set ns \<subseteq> set (bfs_found st)"
  shows "map (\<lambda>v. (cn_name v, cn_depth v)) (List.map_filter (map_get (bfs_visited st)) ns) =
    map (\<lambda>n. (n, depth_of st n)) ns"
  using assms(2)
proof (induction ns)
  case (Cons n ns)
  then have "n \<in> bfs_keys st"
    using assms(1) by (auto simp: bfs_inv_def Let_def)
  then obtain v where v: "map_get (bfs_visited st) n = Some v"
    by (auto simp: bfs_keys_def)
  then have "cn_name v = n" "cn_depth v = depth_of st n"
    using assms(1) by (auto simp: bfs_inv_def Let_def bfs_entry_def depth_of_def)
  with v Cons show ?case
    by (simp add: map_filter_simps)
qed (simp add: map_filter_simps)

text \<open>When the search ends, the nodes seen are those within the maximal depth.\<close>

lemma bfs_inv_depth:
  assumes inv: "bfs_inv C src k st" and E: "E = main_edges_of C"
    and stop: "bfs_queue st = [] \<and> (maxDepth = -1 \<or> int k \<le> maxDepth + 1) \<or> int k = maxDepth + 1 \<and> maxDepth \<noteq> -1"
  shows "y \<in> nearer E src k \<and> d = depth_of st y \<longleftrightarrow>
    (src, y) \<in> E ^^ d \<and> y \<notin> nearer E src d \<and> (maxDepth = -1 \<or> int d \<le> maxDepth)"
proof -
  have depth: "depth_of st y < k \<and> (src, y) \<in> E ^^ depth_of st y \<and> y \<notin> nearer E src (depth_of st y)"
    if y: "y \<in> nearer E src k"
  proof -
    have "bfs_entry st y \<noteq> None"
      using y inv E bfs_keys_entry [of y st] by (simp add: bfs_inv_def Let_def)
    then obtain m d' where "bfs_entry st y = Some (m, d')"
      by auto
    with inv E show ?thesis
      by (simp add: depth_of_def bfs_inv_def Let_def)
  qed
  have "y \<in> nearer E src k" if d: "(src, y) \<in> E ^^ d" "maxDepth = -1 \<or> int d \<le> maxDepth"
  proof (cases "bfs_queue st = []")
    case True
    then have "nearer E src (Suc k) \<subseteq> nearer E src k"
      using inv E by (auto simp: bfs_inv_def Let_def)
    then show ?thesis
      using d(1) by (rule nearer_closed)
  next
    case False
    then have "d < k"
      using stop d(2) by auto
    with d(1) show ?thesis
      unfolding nearer_def by blast
  qed
  moreover have "d = depth_of st y"
    if "y \<in> nearer E src k" "(src, y) \<in> E ^^ d" "y \<notin> nearer E src d"
    using depth [OF that(1)] that(2,3) unfolding nearer_def by (metis (mono_tags) linorder_neqE_nat mem_Collect_eq)
  moreover have "maxDepth = -1 \<or> int (depth_of st y) \<le> maxDepth" if "y \<in> nearer E src k"
    using depth [OF that] stop by auto
  ultimately show ?thesis
    using depth by blast
qed

text \<open>\<^bold>\<open>C40.\<close> 
  The breadth-first search ends and finds, each once and in the order of their depth, exactly the
  other nodes that can be reached, within the maximal depth if one is given; the depth it reports
  is the length of a shortest path.
\<close>
theorem searchNodesBFS_correct:
  assumes "-1 \<le> maxDepth"
  shows "distinct (map cn_name (searchNodesBFS C src maxDepth)) \<and>
    sorted (map cn_depth (searchNodesBFS C src maxDepth)) \<and>
    (\<lambda>v. (cn_name v, cn_depth v)) ` set (searchNodesBFS C src maxDepth) =
      {(y, d). y \<noteq> src \<and> (src, y) \<in> main_edges_of C ^^ d \<and> y \<notin> nearer (main_edges_of C) src d \<and>
        (maxDepth = -1 \<or> int d \<le> maxDepth)}"
proof -
  let ?E = "main_edges_of C" and ?rs = "searchNodesBFS C src maxDepth"
  let ?start = "\<lparr>bfs_visited = [], bfs_found = [], bfs_queue = [\<lparr>cn_name = src, cn_indicies = [], cn_depth = 0\<rparr>]\<rparr>"
  define st where "st = bfsLoop C src maxDepth 0 ?start"
  obtain k where inv: "bfs_inv C src k st" and stop: "bfs_queue st = [] \<and> (maxDepth = -1 \<or> int k \<le> maxDepth + 1) \<or>
      int k = maxDepth + 1 \<and> maxDepth \<noteq> -1"
    using bfsLoop_inv [OF bfs_inv_init assms, of C src "[]"] assms unfolding st_def by auto
  have pairs: "map (\<lambda>v. (cn_name v, cn_depth v)) ?rs = map (\<lambda>n. (n, depth_of st n)) (bfs_found st)"
    using bfs_inv_results [OF inv subset_refl] by (simp add: searchNodesBFS_def st_def Let_def)
  have found: "distinct (bfs_found st)" "set (bfs_found st) = nearer ?E src k - {src}"
    "sorted (map (depth_of st) (bfs_found st))"
    using inv by (simp_all add: bfs_inv_def Let_def)
  have "map cn_name ?rs = bfs_found st" "map cn_depth ?rs = map (depth_of st) (bfs_found st)"
    using arg_cong [OF pairs, of "map fst"] arg_cong [OF pairs, of "map snd"] by (simp_all add: o_def)
  moreover have "(\<lambda>v. (cn_name v, cn_depth v)) ` set ?rs = (\<lambda>n. (n, depth_of st n)) ` (nearer ?E src k - {src})"
    using arg_cong [OF pairs, of set] found(2) by simp
  moreover have "(\<lambda>n. (n, depth_of st n)) ` (nearer ?E src k - {src}) =
      {(y, d). y \<noteq> src \<and> y \<in> nearer ?E src k \<and> d = depth_of st y}"
    by (auto simp: image_iff)
  ultimately show ?thesis
    using found(1,3) by (simp add: bfs_inv_depth [OF inv refl stop])
qed

theorem searchNodesBFS_correct_witness:
  "(\<lambda>v. (cn_name v, cn_depth v)) ` set (searchNodesBFS sample_connections ''a'' (-1)) = {(''b'', 1), (''c'', 1)}"
proof -
  let ?E = "main_edges_of sample_connections"
  have two: "(''a'', y) \<in> ?E ^^ d \<longleftrightarrow> d = 0 \<and> y = ''a'' \<or> d = 1 \<and> y \<in> {''b'', ''c''} \<or> d = 2 \<and> y = ''c''" for y d
  proof (induction d arbitrary: y)
    case (Suc d)
    have edge: "(z, y) \<in> ?E \<longleftrightarrow> z = ''a'' \<and> y \<in> {''b'', ''c''} \<or> z = ''b'' \<and> y = ''c''" for z
      by (auto simp: sample_edges)
    have "(''a'', y) \<in> ?E ^^ Suc d \<longleftrightarrow> (\<exists>z. (''a'', z) \<in> ?E ^^ d \<and> (z, y) \<in> ?E)"
      by auto
    then show ?case
      unfolding Suc.IH edge by auto
  qed auto
  have near: "y \<in> nearer ?E ''a'' d \<longleftrightarrow> 0 < d \<and> y = ''a'' \<or> 1 < d \<and> y \<in> {''b'', ''c''}" for y d
    unfolding nearer_def two by auto
  have "{(y, d). y \<noteq> ''a'' \<and> (''a'', y) \<in> ?E ^^ d \<and> y \<notin> nearer ?E ''a'' d} = {(''b'', 1), (''c'', 1)}"
    unfolding two near by auto
  then show ?thesis
    using searchNodesBFS_correct [of "-1" sample_connections "''a''"] by simp
qed


section \<open>The indexes of a connection\<close>

text \<open>\<open>getNodeConnectionIndexes\<close>: a search over the connections of one type that stops at the first one
  that comes from the parent.  A loop over connections returns the indexes it finds, or the queue.\<close>

record INodeConnection =
  sourceIndex :: nat
  destinationIndex :: nat

fun scanConnections :: "string \<Rightarrow> string js_set \<Rightarrow> nat \<Rightarrow> IConnection list \<Rightarrow> string list \<Rightarrow> INodeConnection + string list" where
  "scanConnections parentNodeName visitedNodes i [] queue = Inr queue"
| "scanConnections parentNodeName visitedNodes i (connection # rest) queue =
     (if parentNodeName = conn_node connection then Inl \<lparr>sourceIndex = conn_index connection, destinationIndex = i\<rparr>
      else scanConnections parentNodeName visitedNodes (Suc i) rest
             (if set_has visitedNodes (conn_node connection) then queue else queue @ [conn_node connection]))"

fun scanSlots :: "string \<Rightarrow> string js_set \<Rightarrow> NodeInputConnections \<Rightarrow> string list \<Rightarrow> INodeConnection + string list" where
  "scanSlots parentNodeName visitedNodes [] queue = Inr queue"
| "scanSlots parentNodeName visitedNodes (None # slots) queue = scanSlots parentNodeName visitedNodes slots queue"
| "scanSlots parentNodeName visitedNodes (Some cs # slots) queue =
     rbind (scanConnections parentNodeName visitedNodes 0 cs queue) (scanSlots parentNodeName visitedNodes slots)"

definition typedConnections :: "IConnections \<Rightarrow> NodeConnectionType \<Rightarrow> string \<Rightarrow> NodeInputConnections option" where
  "typedConnections conns t name = (case map_get conns name of None \<Rightarrow> None | Some types \<Rightarrow> map_get types t)"

function indexLoop :: "IConnections \<Rightarrow> NodeConnectionType \<Rightarrow> string \<Rightarrow> string js_set \<Rightarrow> string list \<Rightarrow> INodeConnection option" where
  "indexLoop conns t parentNodeName visitedNodes [] = None"
| "indexLoop conns t parentNodeName visitedNodes (name # queue) =
     (if set_has visitedNodes name then indexLoop conns t parentNodeName visitedNodes queue
      else
        (case typedConnections conns t name of
           None \<Rightarrow> indexLoop conns t parentNodeName (set_add name visitedNodes) queue
         | Some slots \<Rightarrow>
             (case scanSlots parentNodeName (set_add name visitedNodes) slots queue of
                Inl found \<Rightarrow> Some found
              | Inr queue \<Rightarrow> indexLoop conns t parentNodeName (set_add name visitedNodes) queue)))"
  by pat_completeness auto

termination indexLoop
proof (relation "measures [\<lambda>(conns, t, p, visited, queue). card (fst ` set conns - set visited),
    \<lambda>(conns, t, p, visited, queue). length queue]", goal_cases)
  case (3 conns t p visited name queue)
  have "card (fst ` set conns - set (set_add name visited)) \<le> card (fst ` set conns - set visited)"
    by (intro card_mono) auto
  then show ?case by auto
next
  case (4 conns t p visited name queue slots queue')
  then have "name \<in> fst ` set conns"
    by (force simp: typedConnections_def dest: map_of_SomeD split: option.splits)
  with 4 have "card (fst ` set conns - set (set_add name visited)) < card (fst ` set conns - set visited)"
    by (intro psubset_card_mono) auto
  then show ?case by simp
qed auto

declare indexLoop.simps(2) [simp del]

text \<open>The connections of a type that lead to a node, with their positions.\<close>

definition connection_at :: "IConnections \<Rightarrow> NodeConnectionType \<Rightarrow> string \<Rightarrow> nat \<Rightarrow> IConnection \<Rightarrow> bool" where
  "connection_at conns t name i c \<longleftrightarrow>
     (\<exists>slots cs. typedConnections conns t name = Some slots \<and> Some cs \<in> set slots \<and> i < length cs \<and> cs ! i = c)"

definition typed_edges :: "IConnections \<Rightarrow> NodeConnectionType \<Rightarrow> (string \<times> string) set" where
  "typed_edges conns t = {(a, conn_node c) | a i c. connection_at conns t a i c}"

lemma scanConnections_cases:
  "case scanConnections p visited i cs queue of
     Inl r \<Rightarrow> \<exists>j<length cs. conn_node (cs ! j) = p \<and> r = \<lparr>sourceIndex = conn_index (cs ! j), destinationIndex = i + j\<rparr>
   | Inr queue' \<Rightarrow> p \<notin> conn_node ` set cs \<and> set queue' = set queue \<union> (conn_node ` set cs - set visited)"
proof (induction cs arbitrary: i queue)
  case (Cons c cs)
  show ?case
  proof (cases "p = conn_node c")
    case False
    let ?queue = "if conn_node c \<in> set visited then queue else queue @ [conn_node c]"
    show ?thesis
      using Cons [of "Suc i" ?queue] False by (cases "scanConnections p visited (Suc i) cs ?queue") (auto split: if_splits)
  qed (auto intro: exI [of _ 0])
qed simp

lemma scanSlots_cases:
  "case scanSlots p visited slots queue of
     Inl r \<Rightarrow> \<exists>cs i. Some cs \<in> set slots \<and> i < length cs \<and> conn_node (cs ! i) = p \<and>
       r = \<lparr>sourceIndex = conn_index (cs ! i), destinationIndex = i\<rparr>
   | Inr queue' \<Rightarrow> (\<forall>cs. Some cs \<in> set slots \<longrightarrow> p \<notin> conn_node ` set cs) \<and>
       set queue' = set queue \<union> ((\<Union>cs\<in>{cs. Some cs \<in> set slots}. conn_node ` set cs) - set visited)"
proof (induction p visited slots queue rule: scanSlots.induct)
  case (3 p visited cs slots queue)
  note scan = scanConnections_cases [where p = p and visited = visited and i = 0 and cs = cs and queue = queue]
  show ?case
  proof (cases "scanConnections p visited 0 cs queue")
    case (Inl r)
    with scan obtain j where "j < length cs" "conn_node (cs ! j) = p" "r = \<lparr>sourceIndex = conn_index (cs ! j), destinationIndex = j\<rparr>"
      by auto
    with Inl show ?thesis
      by (auto intro!: exI [of _ cs] exI [of _ j])
  next
    case (Inr queue1)
    have rest: "{ds. Some ds \<in> set (Some cs # slots)} = insert cs {ds. Some ds \<in> set slots}"
      by auto
    show ?thesis
    proof (cases "scanSlots p visited slots queue1")
      case (Inl r)
      with 3 [OF Inr] \<open>scanConnections p visited 0 cs queue = Inr queue1\<close> show ?thesis
        by auto
    next
      case (Inr queue')
      with 3 [OF \<open>scanConnections p visited 0 cs queue = Inr queue1\<close>] scan \<open>scanConnections p visited 0 cs queue = Inr queue1\<close>
      show ?thesis
        unfolding scanSlots.simps rest by auto
    qed
  qed
qed (auto split: sum.splits)

lemma typed_edges_slots:
  "typedConnections conns t a = Some slots \<Longrightarrow> (a, b) \<in> typed_edges conns t \<longleftrightarrow> (\<exists>cs. Some cs \<in> set slots \<and> b \<in> conn_node ` set cs)"
  by (fastforce simp: typed_edges_def connection_at_def in_set_conv_nth)

lemma typed_edges_none: "typedConnections conns t a = None \<Longrightarrow> (a, b) \<notin> typed_edges conns t"
  by (auto simp: typed_edges_def connection_at_def)

text \<open>What is found is a connection from the parent, to the node or to one above it.\<close>

lemma indexLoop_found:
  "indexLoop conns t p visited queue = Some r \<Longrightarrow> \<exists>q\<in>set queue. \<exists>m i c. (q, m) \<in> (typed_edges conns t)\<^sup>* \<and>
     connection_at conns t m i c \<and> conn_node c = p \<and> r = \<lparr>sourceIndex = conn_index c, destinationIndex = i\<rparr>"
proof (induction conns t p visited queue rule: indexLoop.induct)
  case (2 conns t p visited n queue)
  let ?v = "set_add n visited"
  consider "n \<in> set visited" | "n \<notin> set visited" "typedConnections conns t n = None"
    | slots r' where "n \<notin> set visited" "typedConnections conns t n = Some slots" "scanSlots p ?v slots queue = Inl r'"
    | slots queue' where "n \<notin> set visited" "typedConnections conns t n = Some slots" "scanSlots p ?v slots queue = Inr queue'"
    by (metis option.exhaust sum.exhaust)
  then show ?case
  proof cases
    case 1
    with 2(1) 2(4) show ?thesis by (fastforce simp: indexLoop.simps(2))
  next
    case 2
    with "2.IH"(2) "2.prems" show ?thesis by (fastforce simp: indexLoop.simps(2))
  next
    case (3 slots r')
    then have "r' = r" using "2.prems" by (simp add: indexLoop.simps(2))
    with 3 scanSlots_cases [where p = p and visited = ?v and slots = slots and queue = queue] obtain cs i where "Some cs \<in> set slots" "i < length cs" "conn_node (cs ! i) = p"
      "r = \<lparr>sourceIndex = conn_index (cs ! i), destinationIndex = i\<rparr>" by auto
    with 3(2) show ?thesis
      by (intro bexI [of _ n] exI [of _ n] exI [of _ i] exI [of _ "cs ! i"]) (auto simp: connection_at_def)
  next
    case (4 slots queue')
    then obtain q m i c where q: "q \<in> set queue'" "(q, m) \<in> (typed_edges conns t)\<^sup>*" "connection_at conns t m i c" "conn_node c = p"
      "r = \<lparr>sourceIndex = conn_index c, destinationIndex = i\<rparr>"
      using "2.IH"(3) [OF 4] "2.prems" by (auto simp: indexLoop.simps(2))
    have "q \<in> set queue \<or> (n, q) \<in> typed_edges conns t"
      using scanSlots_cases [where p = p and visited = ?v and slots = slots and queue = queue] q(1) 4(3) typed_edges_slots [OF 4(2)] by auto
    then have "\<exists>q'\<in>set (n # queue). (q', m) \<in> (typed_edges conns t)\<^sup>*"
      using q(2) by (auto intro: converse_rtrancl_into_rtrancl)
    with q(3-) show ?thesis
      by blast
  qed
qed simp

text \<open>The nodes that were visited have no connection from the parent, and what leads to them was visited
  or is in the queue.\<close>

definition index_closed :: "IConnections \<Rightarrow> NodeConnectionType \<Rightarrow> string \<Rightarrow> string list \<Rightarrow> string list \<Rightarrow> bool" where
  "index_closed conns t p visited queue \<longleftrightarrow>
     (\<forall>v\<in>set visited. \<forall>b. (v, b) \<in> typed_edges conns t \<longrightarrow> b \<noteq> p \<and> b \<in> set visited \<union> set queue)"

lemma index_closed_unreachable:
  assumes "(a, p) \<in> (typed_edges conns t)\<^sup>+" "index_closed conns t p visited []"
  shows "a \<notin> set visited"
  using assms(1)
proof (induction rule: converse_trancl_induct)
  case (base a)
  with assms(2) show ?case by (auto simp: index_closed_def)
next
  case (step a b)
  with assms(2) show ?case by (auto simp: index_closed_def)
qed

lemma indexLoop_none:
  "\<lbrakk>indexLoop conns t p visited queue = None; index_closed conns t p visited queue; a \<in> set visited \<union> set queue\<rbrakk>
     \<Longrightarrow> (a, p) \<notin> (typed_edges conns t)\<^sup>+"
proof (induction conns t p visited queue rule: indexLoop.induct)
  case (1 conns t p visited)
  then show ?case using index_closed_unreachable by auto
next
  case (2 conns t p visited n queue)
  let ?v = "set_add n visited"
  show ?case
  proof (cases "n \<in> set visited")
    case True
    with 2 show ?thesis by (auto simp: indexLoop.simps(2) index_closed_def)
  next
    case new: False
    show ?thesis
    proof (cases "typedConnections conns t n")
      case None
      with new "2.prems"(2) have "index_closed conns t p ?v queue"
        by (auto simp: index_closed_def typed_edges_none)
      then show ?thesis
        using "2.IH"(2) [OF new None] "2.prems" new None by (auto simp: indexLoop.simps(2))
    next
      case (Some slots)
      with new "2.prems"(1) obtain queue' where q: "scanSlots p ?v slots queue = Inr queue'" "indexLoop conns t p ?v queue' = None"
        by (auto simp: indexLoop.simps(2) split: sum.splits)
      have scan: "\<forall>b. (n, b) \<in> typed_edges conns t \<longrightarrow> b \<noteq> p \<and> b \<in> set ?v \<union> set queue'" "set queue \<subseteq> set queue'"
        using scanSlots_cases [where p = p and visited = ?v and slots = slots and queue = queue] q(1) typed_edges_slots [OF Some] by auto
      with "2.prems"(2) have "index_closed conns t p ?v queue'"
        by (auto simp: index_closed_def)
      with "2.IH"(3) [OF new Some q] scan(2) "2.prems"(3) show ?thesis
        by auto
    qed
  qed
qed

lemma index_search_correct:
  "case indexLoop conns t p [] [n] of
     None \<Rightarrow> (n, p) \<notin> (typed_edges conns t)\<^sup>+
   | Some r \<Rightarrow> \<exists>m i c. (n, m) \<in> (typed_edges conns t)\<^sup>* \<and> connection_at conns t m i c \<and> conn_node c = p \<and>
       r = \<lparr>sourceIndex = conn_index c, destinationIndex = i\<rparr>"
  using indexLoop_found [of conns t p "[]" "[n]"] indexLoop_none [of conns t p "[]" "[n]" n]
  by (auto simp: index_closed_def split: option.split)

end
