(* ===== verification/Node_Scheduling.thy ===== *)
theory Node_Scheduling
  imports Execution_Stack Workflow_Search
begin

text \<open>
  How \<^verbatim>\<open>workflow-execute.ts\<close> decides which node runs next: \<open>addNodeToBeExecuted\<close> hands the
  output of a node to a node it is connected with, which is put on the execution stack or, when
  it has several inputs and some are missing, into the waiting executions; the output loop does
  that for all connections; when the stack runs empty, a pass over the waiting nodes releases one
  of them.

  The state is the record \<open>ExecutionStack\<close>, the object \<open>runExecutionData.executionData\<close>; its
  field \<open>waitingExecutionSource\<close> is an object, as \<open>createRunExecutionData\<close> makes it.  The
  dictionaries of runs have integer keys, which are enumerated in ascending order (\<open>idx_set\<close>).
  A node name that itself reads as an array index would be enumerated before the others; names
  are taken not to.  Where the code would put an entry with a missing node on the stack, whose
  next reading throws, the model throws at once.  Within an entry of the stack, holes and nulls of
  a data array are not told apart.
\<close>

section \<open>Definitions\<close>

record Workflow =
  wf_nodes :: "(string, INode) js_map"
  connectionsBySourceNode :: IConnections
  connectionsByDestinationNode :: IConnections
  wf_executionOrder :: "string option"

definition isLegacyExecutionOrder :: "Workflow \<Rightarrow> bool" where
  "isLegacyExecutionOrder workflow = (wf_executionOrder workflow \<noteq> Some ''v1'')"

text \<open>\<open>workflow.connectionsByDestinationNode[name]?.main\<close>, missing arrays as empty ones.\<close>

definition main_inputs :: "Workflow \<Rightarrow> string \<Rightarrow> NodeInputConnections" where
  "main_inputs workflow name = own_or [] (own_or [] (connectionsByDestinationNode workflow) name) Main"

definition numberOfInputs :: "Workflow \<Rightarrow> string \<Rightarrow> nat" where
  "numberOfInputs workflow name = length (main_inputs workflow name)"

definition slot_list :: "IConnection list option \<Rightarrow> IConnection list" where
  "slot_list s = (case s of None \<Rightarrow> [] | Some cs \<Rightarrow> cs)"

text \<open>\<open>workflow.connectionsByDestinationNode[name].main[0] ?? []\<close>\<close>

definition firstInput :: "Workflow \<Rightarrow> string \<Rightarrow> IConnection list result" where
  "firstInput workflow name =
     (case map_get (connectionsByDestinationNode workflow) name of
        None \<Rightarrow> Inl TypeError
      | Some types \<Rightarrow>
          (case map_get types Main of
             None \<Rightarrow> Inl TypeError
           | Some slots \<Rightarrow> Inr (if slots = [] then [] else slot_list (hd slots))))"

text \<open>\<open>stack.unshift\<close> in the order \<open>v1\<close>, \<open>stack.push\<close> otherwise.\<close>

definition enqueueFn :: "Workflow \<Rightarrow> IExecuteData \<Rightarrow> ExecutionStack \<Rightarrow> ExecutionStack" where
  "enqueueFn workflow e st =
     st\<lparr>nodeExecutionStack :=
       (if isLegacyExecutionOrder workflow then nodeExecutionStack st @ [e] else e # nodeExecutionStack st)\<rparr>"

subsection \<open>Empty inputs\<close>

text \<open>The path \<open>[name, runIndex, 'data', 'main', i]\<close> of the run data: \<open>None\<close> is \<open>undefined\<close>,
  \<open>Some None\<close> is \<open>null\<close>.\<close>

definition run_data_at :: "IRunData \<Rightarrow> string \<Rightarrow> nat \<Rightarrow> nat \<Rightarrow> INodeExecutionData list option option" where
  "run_data_at runData name runIndex i =
     (case map_get runData name of
        None \<Rightarrow> None
      | Some tasks \<Rightarrow>
          if runIndex < length tasks then
            (case task_data (tasks ! runIndex) of
               None \<Rightarrow> None
             | Some data \<Rightarrow>
                 (case map_get data Main of
                    None \<Rightarrow> None
                  | Some arrays \<Rightarrow> if i < length arrays then Some (arrays ! i) else None))
          else None)"

fun incomingConnectionIsEmpty :: "IRunData \<Rightarrow> IConnection list \<Rightarrow> nat \<Rightarrow> bool result" where
  "incomingConnectionIsEmpty runData [] runIndex = Inr True"
| "incomingConnectionIsEmpty runData (c # cs) runIndex =
     (case run_data_at runData (conn_node c) runIndex (conn_index c) of
        None \<Rightarrow> incomingConnectionIsEmpty runData cs runIndex
      | Some None \<Rightarrow> Inl TypeError
      | Some (Some items) \<Rightarrow>
          if items \<noteq> [] then Inr False else incomingConnectionIsEmpty runData cs runIndex)"

subsection \<open>The waiting executions\<close>

fun idx_set :: "nat \<Rightarrow> 'v \<Rightarrow> (nat, 'v) js_map \<Rightarrow> (nat, 'v) js_map" where
  "idx_set k v [] = [(k, v)]"
| "idx_set k v ((j, w) # m) =
     (if k < j then (k, v) # (j, w) # m else if k = j then (k, v) # m else (j, w) # idx_set k v m)"

text \<open>\<open>waiting[name][runIndex].main\<close>, which throws when an object on the way is missing.\<close>

definition entry_main :: "(NodeConnectionType, 'a slot list) js_map \<Rightarrow> 'a slot list result" where
  "entry_main entry = (case map_get entry Main of None \<Rightarrow> Inl TypeError | Some xs \<Rightarrow> Inr xs)"

definition waiting_entry ::
  "'a waiting \<Rightarrow> string \<Rightarrow> nat \<Rightarrow> (NodeConnectionType, 'a slot list) js_map result" where
  "waiting_entry w name runIndex =
     (case map_get (own_or [] w name) runIndex of None \<Rightarrow> Inl TypeError | Some entry \<Rightarrow> Inr entry)"

definition waiting_main :: "'a waiting \<Rightarrow> string \<Rightarrow> nat \<Rightarrow> 'a slot list result" where
  "waiting_main w name runIndex = rbind (waiting_entry w name runIndex) entry_main"

definition set_entry ::
  "string \<Rightarrow> nat \<Rightarrow> (NodeConnectionType, 'a slot list) js_map \<Rightarrow> 'a waiting \<Rightarrow> 'a waiting" where
  "set_entry name runIndex entry w = map_set name (idx_set runIndex entry (own_or [] w name)) w"

text \<open>The assignment \<open>waiting[name][runIndex].main[i] = v\<close>.\<close>

definition write_main :: "string \<Rightarrow> nat \<Rightarrow> nat \<Rightarrow> 'a option \<Rightarrow> 'a waiting \<Rightarrow> 'a waiting result" where
  "write_main name runIndex i v w =
     rbind (waiting_entry w name runIndex) (\<lambda>entry.
       rbind (entry_main entry) (\<lambda>xs.
         Inr (set_entry name runIndex (map_set Main (js_array_set Hole xs i (slot_of v)) entry) w)))"

text \<open>Deleting a run, and the node's object when no run is left in the first dictionary.\<close>

definition delete_run :: "string \<Rightarrow> nat \<Rightarrow> ExecutionStack \<Rightarrow> ExecutionStack" where
  "delete_run name runIndex st =
     (let runs = map_delete runIndex (own_or [] (waitingExecution st) name);
          sources = map_delete runIndex (own_or [] (waitingExecutionSource st) name)
      in if runs = [] then
           st\<lparr>waitingExecution := map_delete name (waitingExecution st),
              waitingExecutionSource := map_delete name (waitingExecutionSource st)\<rparr>
         else
           st\<lparr>waitingExecution := map_set name runs (waitingExecution st),
              waitingExecutionSource := map_set name sources (waitingExecutionSource st)\<rparr>)"

definition prepareWaitingToExecution :: "string \<Rightarrow> nat \<Rightarrow> nat \<Rightarrow> ExecutionStack \<Rightarrow> ExecutionStack" where
  "prepareWaitingToExecution nodeName numberOfConnections runIndex st =
     st\<lparr>waitingExecution := set_entry nodeName runIndex [(Main, replicate numberOfConnections Null)] (waitingExecution st),
        waitingExecutionSource :=
          set_entry nodeName runIndex [(Main, replicate numberOfConnections Null)] (waitingExecutionSource st)\<rparr>"

fun is_held :: "'a slot \<Rightarrow> bool" where
  "is_held (Held x) = True"
| "is_held Hole = False"
| "is_held Null = False"

fun slot_value :: "'a slot \<Rightarrow> 'a option" where
  "slot_value (Held x) = Some x"
| "slot_value Hole = None"
| "slot_value Null = None"

text \<open>The first waiting run that has no data for the input.\<close>

fun runWithoutInput ::
  "nat \<Rightarrow> (nat, (NodeConnectionType, 'a slot list) js_map) js_map \<Rightarrow> nat option result" where
  "runWithoutInput i [] = Inr None"
| "runWithoutInput i ((r, entry) # runs) =
     rbind (entry_main entry) (\<lambda>xs.
       if i < length xs \<and> is_held (xs ! i) then runWithoutInput i runs else Inr (Some r))"

subsection \<open>Following the inputs of a node\<close>

text \<open>The search for the node to add, from an input node up along its parents.\<close>

fun walkParents ::
  "string \<Rightarrow> string list \<Rightarrow> string list \<Rightarrow> IRunData \<Rightarrow> string list \<Rightarrow> string option \<Rightarrow> string option" where
  "walkParents inputNode checkOutputNodes stackNodes runData [] nodeToAdd = nodeToAdd"
| "walkParents inputNode checkOutputNodes stackNodes runData (p # ps) nodeToAdd =
     (if inputNode \<noteq> p \<and> p \<in> set checkOutputNodes then None
      else if p \<in> set stackNodes then None
      else if map_get runData p \<noteq> None then nodeToAdd
      else walkParents inputNode checkOutputNodes stackNodes runData ps (Some p))"

definition sourceData :: "string \<Rightarrow> nat \<Rightarrow> nat \<Rightarrow> ISourceData" where
  "sourceData parentNodeName outIndex runIndex =
     \<lparr>previousNode = parentNodeName, previousNodeOutput = outIndex, previousNodeRun = runIndex\<rparr>"

text \<open>The arguments of a call that do not change: the parent, its output and its run.\<close>

record delivery =
  dl_parent :: string
  dl_output :: nat
  dl_data :: "INodeExecutionData list option"
  dl_run :: nat

definition addEmptyNode ::
  "Workflow \<Rightarrow> IRunData \<Rightarrow> delivery \<Rightarrow> string \<Rightarrow> ExecutionStack \<Rightarrow> ExecutionStack result" where
  "addEmptyNode workflow runData dl nodeToAdd st =
     rbind (if map_get (connectionsByDestinationNode workflow) nodeToAdd = None then Inr True
            else rbind (firstInput workflow nodeToAdd) (\<lambda>conns. incomingConnectionIsEmpty runData conns (dl_run dl)))
       (\<lambda>addEmptyItem.
         if addEmptyItem then
           (case map_get (wf_nodes workflow) nodeToAdd of
              None \<Rightarrow> Inl TypeError
            | Some node \<Rightarrow>
                Inr (enqueueFn workflow \<lparr>exec_node = node, exec_data = [(Main, [Some [empty_item]])],
                  exec_source = Some [(Main, [Some (sourceData (dl_parent dl) (dl_output dl) (dl_run dl))])],
                  exec_runIndex = None, exec_metadata = None\<rparr> st))
         else Inr st)"

text \<open>In the legacy order the input, or the furthest parent of it that is not accounted for, is
  added.\<close>

definition followParents ::
  "Workflow \<Rightarrow> IRunData \<Rightarrow> delivery \<Rightarrow> string list \<Rightarrow> string \<Rightarrow> ExecutionStack \<Rightarrow> ExecutionStack result" where
  "followParents workflow runData dl checkOutputNodes name st =
     (let stackNodes = map (\<lambda>e. node_name (exec_node e)) (nodeExecutionStack st);
          parents = rev (getParentNodes (connectionsByDestinationNode workflow) name (OfType Main) (-1) @ [name]);
          found = walkParents name checkOutputNodes stackNodes runData parents (Some name);
          parentsOfFound = getParentNodes (connectionsByDestinationNode workflow)
            (case found of None \<Rightarrow> ''undefined'' | Some n \<Rightarrow> n) (OfType Main) (-1)
      in rbind (if dl_parent dl \<in> set parentsOfFound
                then (case dl_data dl of None \<Rightarrow> Inl TypeError | Some items \<Rightarrow> Inr (items = []))
                else Inr False) (\<lambda>noInput.
           case (if noInput then None else found) of
             None \<Rightarrow> Inr st
           | Some nodeToAdd \<Rightarrow> addEmptyNode workflow runData dl nodeToAdd st))"

definition followInput ::
  "Workflow \<Rightarrow> IRunData \<Rightarrow> delivery \<Rightarrow> string list \<Rightarrow> IConnection \<Rightarrow> ExecutionStack \<Rightarrow> ExecutionStack result" where
  "followInput workflow runData dl checkOutputNodes inputData st =
     (let name = conn_node inputData;
          stackNodes = map (\<lambda>e. node_name (exec_node e)) (nodeExecutionStack st)
      in if name = dl_parent dl then Inr st
         else
           rbind (if name \<in> set checkOutputNodes
                  then rbind (firstInput workflow name) (\<lambda>conns. incomingConnectionIsEmpty runData conns (dl_run dl))
                  else Inr True) (\<lambda>notAdded.
             if \<not> notAdded \<or> name \<in> set stackNodes \<or> map_get runData name \<noteq> None \<or> \<not> isLegacyExecutionOrder workflow
             then Inr st
             else followParents workflow runData dl checkOutputNodes name st))"

definition followInputs ::
  "Workflow \<Rightarrow> IRunData \<Rightarrow> delivery \<Rightarrow> string \<Rightarrow> ExecutionStack \<Rightarrow> ExecutionStack result" where
  "followInputs workflow runData dl name st =
     (case map_get (connectionsBySourceNode workflow) (dl_parent dl) of
        None \<Rightarrow> Inl TypeError
      | Some types \<Rightarrow>
          let checkOutputNodes = map conn_node (concat (map slot_list (own_or [] types Main)))
          in rfold (followInput workflow runData dl checkOutputNodes) (concat (map slot_list (main_inputs workflow name))) st)"

subsection \<open>Handing over data\<close>

text \<open>The first part for a node with several inputs: choose or create the waiting run, and write
  the data and its source.\<close>

definition openWaiting :: "Workflow \<Rightarrow> IConnection \<Rightarrow> ExecutionStack \<Rightarrow> (nat \<times> ExecutionStack) result" where
  "openWaiting workflow c st =
     (let name = conn_node c;
          st = (if map_get (waitingExecution st) name = None
                then st\<lparr>waitingExecution := map_set name [] (waitingExecution st),
                        waitingExecutionSource := map_set name [] (waitingExecutionSource st)\<rparr>
                else st);
          runs = own_or [] (waitingExecution st) name
      in rbind (runWithoutInput (conn_index c) runs) (\<lambda>found.
           case found of
             Some r \<Rightarrow> Inr (r, st)
           | None \<Rightarrow> Inr (length runs, prepareWaitingToExecution name (numberOfInputs workflow name) (length runs) st)))"

definition addToWaiting ::
  "Workflow \<Rightarrow> delivery \<Rightarrow> IConnection \<Rightarrow> ExecutionStack \<Rightarrow> (nat \<times> ExecutionStack) result" where
  "addToWaiting workflow dl c st =
     rbind (openWaiting workflow c st) (\<lambda>(r, st).
       rbind (write_main (conn_node c) r (conn_index c) (dl_data dl) (waitingExecution st)) (\<lambda>w.
         rbind (write_main (conn_node c) r (conn_index c)
             (Some (sourceData (dl_parent dl) (dl_output dl) (dl_run dl))) (waitingExecutionSource st)) (\<lambda>s.
           Inr (r, st\<lparr>waitingExecution := w, waitingExecutionSource := s\<rparr>))))"

text \<open>All data has arrived: the run goes to the stack.\<close>

definition slot_values :: "(NodeConnectionType, 'a slot list) js_map \<Rightarrow> (NodeConnectionType, 'a option list) js_map" where
  "slot_values = map (\<lambda>(t, xs). (t, map slot_value xs))"

definition moveToStack :: "Workflow \<Rightarrow> string \<Rightarrow> nat \<Rightarrow> ExecutionStack \<Rightarrow> ExecutionStack result" where
  "moveToStack workflow name r st =
     rbind (waiting_entry (waitingExecution st) name r) (\<lambda>data.
       rbind (waiting_entry (waitingExecutionSource st) name r) (\<lambda>source.
         case map_get (wf_nodes workflow) name of
           None \<Rightarrow> Inl TypeError
         | Some node \<Rightarrow>
             Inr (delete_run name r (enqueueFn workflow \<lparr>exec_node = node, exec_data = slot_values data,
               exec_source = Some (slot_values source), exec_runIndex = None, exec_metadata = None\<rparr> st))))"

text \<open>Data is still missing: the run is prepared anew and gets its arrays back.\<close>

definition keepWaiting ::
  "Workflow \<Rightarrow> delivery \<Rightarrow> IConnection \<Rightarrow> nat \<Rightarrow> ExecutionStack \<Rightarrow> ExecutionStack result" where
  "keepWaiting workflow dl c r st =
     (let name = conn_node c
      in rbind (waiting_main (waitingExecution st) name r) (\<lambda>xs.
           rbind (waiting_main (waitingExecutionSource st) name r) (\<lambda>sources.
             let data = js_array_set Hole xs (conn_index c) (slot_of (dl_data dl));
                 st = prepareWaitingToExecution name (numberOfInputs workflow name) r st
             in Inr (st\<lparr>waitingExecution := set_entry name r [(Main, data)] (waitingExecution st),
                        waitingExecutionSource := set_entry name r [(Main, sources)] (waitingExecutionSource st)\<rparr>))))"

definition addDirectly ::
  "Workflow \<Rightarrow> delivery \<Rightarrow> IConnection \<Rightarrow> nat option \<Rightarrow> ITaskMetadata option \<Rightarrow> ExecutionStack \<Rightarrow> ExecutionStack" where
  "addDirectly workflow dl c newRunIndex metadata st =
     (case map_get (wf_nodes workflow) (conn_node c) of
        None \<Rightarrow> st
      | Some node \<Rightarrow>
          enqueueFn workflow \<lparr>exec_node = node, exec_data = [(Main, replicate (conn_index c) None @ [dl_data dl])],
            exec_source = Some [(Main, [Some (sourceData (dl_parent dl) (dl_output dl) (dl_run dl))])],
            exec_runIndex = newRunIndex, exec_metadata = metadata\<rparr> st)"

definition deliver ::
  "Workflow \<Rightarrow> IRunData \<Rightarrow> delivery \<Rightarrow> IConnection \<Rightarrow> nat option \<Rightarrow> ITaskMetadata option \<Rightarrow> ExecutionStack
     \<Rightarrow> ExecutionStack result" where
  "deliver workflow runData dl c newRunIndex metadata st =
     (let name = conn_node c
      in if numberOfInputs workflow name > 1 then
           let nodeWasWaiting = (map_get (waitingExecution st) name \<noteq> None)
           in rbind (addToWaiting workflow dl c st) (\<lambda>(r, st).
                rbind (waiting_main (waitingExecution st) name r) (\<lambda>xs.
                  if Null \<notin> set xs then moveToStack workflow name r st
                  else
                    rbind (if nodeWasWaiting then Inr st else followInputs workflow runData dl name st)
                      (keepWaiting workflow dl c r)))
         else Inr (addDirectly workflow dl c newRunIndex metadata st))"

text \<open>The output read past the end of the node's outputs counts as \<open>null\<close>; the callers read an
  output that is there.\<close>

definition addNodeToBeExecuted ::
  "Workflow \<Rightarrow> IRunData \<Rightarrow> IConnection \<Rightarrow> nat \<Rightarrow> string \<Rightarrow> INodeExecutionData list option list \<Rightarrow> nat
     \<Rightarrow> nat option \<Rightarrow> ITaskMetadata option \<Rightarrow> ExecutionStack \<Rightarrow> ExecutionStack result" where
  "addNodeToBeExecuted workflow runData connectionData outIndex parentNodeName nodeSuccessData runIndex newRunIndex metadata st =
     deliver workflow runData
       \<lparr>dl_parent = parentNodeName, dl_output = outIndex,
        dl_data = (if outIndex < length nodeSuccessData then nodeSuccessData ! outIndex else None),
        dl_run = runIndex\<rparr> connectionData newRunIndex metadata st"

subsection \<open>The output loop\<close>

text \<open>The connections of a node's outputs in order, each with the index of its output.\<close>

definition output_connections :: "Workflow \<Rightarrow> string \<Rightarrow> (nat \<times> IConnection) list" where
  "output_connections workflow name =
     concat (map (\<lambda>(i, s). map (Pair i) (slot_list s))
       (enumerate 0 (own_or [] (own_or [] (connectionsBySourceNode workflow) name) Main)))"

definition outputAdds :: "Workflow \<Rightarrow> INodeExecutionData list option list \<Rightarrow> nat \<times> IConnection \<Rightarrow> bool" where
  "outputAdds workflow nodeSuccessData ic =
     (fst ic < length nodeSuccessData \<and>
      (case nodeSuccessData ! fst ic of
         None \<Rightarrow> False
       | Some items \<Rightarrow> items \<noteq> [] \<or> conn_index (snd ic) > 0 \<and> isLegacyExecutionOrder workflow))"

definition destinationExists :: "Workflow \<Rightarrow> IConnection \<Rightarrow> bool" where
  "destinationExists workflow c = (map_get (wf_nodes workflow) (conn_node c) \<noteq> None)"

definition position_of :: "Workflow \<Rightarrow> IConnection \<Rightarrow> int \<times> int" where
  "position_of workflow c =
     (case map_get (wf_nodes workflow) (conn_node c) of None \<Rightarrow> (0, 0) | Some n \<Rightarrow> node_position n)"

definition compare_position :: "Workflow \<Rightarrow> nat \<times> IConnection \<Rightarrow> nat \<times> IConnection \<Rightarrow> int" where
  "compare_position workflow a b =
     (let (ax, ay) = position_of workflow (snd a); (bx, by) = position_of workflow (snd b)
      in if ay < by then 1 else if ay > by then -1 else if ax > bx then -1 else 0)"

definition destinationMissing :: js_error where
  "destinationMissing = AppError ''Destination node not found''"

definition addOutputs ::
  "Workflow \<Rightarrow> IRunData \<Rightarrow> string \<Rightarrow> INodeExecutionData list option list \<Rightarrow> nat \<Rightarrow> ExecutionStack
     \<Rightarrow> ExecutionStack result" where
  "addOutputs workflow runData name nodeSuccessData runIndex st =
     (let outputs = output_connections workflow name;
          add = (\<lambda>(i, c). addNodeToBeExecuted workflow runData c i name nodeSuccessData runIndex None None)
      in if isLegacyExecutionOrder workflow then
           rfold (\<lambda>ic st.
             if \<not> destinationExists workflow (snd ic) then Inl destinationMissing
             else if outputAdds workflow nodeSuccessData ic then add ic st
             else Inr st) outputs st
         else if \<exists>ic\<in>set outputs. \<not> destinationExists workflow (snd ic) then Inl destinationMissing
         else rfold add (js_sort (compare_position workflow) (filter (outputAdds workflow nodeSuccessData) outputs)) st)"

subsection \<open>Releasing a waiting node\<close>

text \<open>
  What a node type says of its inputs: the property \<open>requiredInputs\<close>, its expression evaluated,
  and the number of its inputs.
\<close>

datatype required_inputs = RequiredCount nat | RequiredInputs "nat list"

record input_rules =
  requiredInputs :: "INode \<Rightarrow> required_inputs option"
  inputCount :: "INode \<Rightarrow> nat"

fun allRequired :: "nat \<Rightarrow> required_inputs option \<Rightarrow> bool" where
  "allRequired n None = False"
| "allRequired n (Some (RequiredCount k)) = (k = n)"
| "allRequired n (Some (RequiredInputs is)) = (length is = n)"

fun requiredPresent :: "required_inputs option \<Rightarrow> nat list \<Rightarrow> bool" where
  "requiredPresent None inputsWithData = True"
| "requiredPresent (Some (RequiredCount k)) inputsWithData = (k \<le> length inputsWithData)"
| "requiredPresent (Some (RequiredInputs is)) inputsWithData = (\<forall>i\<in>set is. i \<in> set inputsWithData)"

definition inputsWithData :: "'a slot list \<Rightarrow> nat list" where
  "inputsWithData xs = filter (\<lambda>i. is_held (xs ! i)) [0..<length xs]"

text \<open>The default order of \<open>Array.prototype.sort\<close> compares the elements as strings.\<close>

fun string_less :: "string \<Rightarrow> string \<Rightarrow> bool" where
  "string_less [] [] = False"
| "string_less [] (d # ds) = True"
| "string_less (c # cs) [] = False"
| "string_less (c # cs) (d # ds) =
     ((of_char c :: nat) < of_char d \<or> c = d \<and> string_less cs ds)"

definition string_compare :: "string \<Rightarrow> string \<Rightarrow> int" where
  "string_compare s t = (if string_less s t then -1 else if string_less t s then 1 else 0)"

definition firstRunIndex :: "nat list \<Rightarrow> nat" where
  "firstRunIndex keys = string_to_nat (hd (js_sort string_compare (map nat_to_string keys)))"

fun null_to_empty :: "'a list slot \<Rightarrow> 'a list slot" where
  "null_to_empty Null = Held []"
| "null_to_empty Hole = Hole"
| "null_to_empty (Held xs) = Held xs"

definition carries_items :: "'a list slot list \<Rightarrow> bool" where
  "carries_items xs = (\<exists>x\<in>set xs. case x of Held ys \<Rightarrow> ys \<noteq> [] | _ \<Rightarrow> False)"

definition pad_inputs :: "nat \<Rightarrow> 'a list slot list \<Rightarrow> 'a list slot list" where
  "pad_inputs n xs = xs @ replicate (n - length xs) (Held [])"

datatype release_result = Skipped | Released ExecutionStack | Emptied ExecutionStack

text \<open>The run is taken out of the waiting executions, and goes to the stack if it has any items.\<close>

definition releaseRun ::
  "nat \<Rightarrow> INode \<Rightarrow> string \<Rightarrow> nat \<Rightarrow> INodeExecutionData list slot list \<Rightarrow> ExecutionStack \<Rightarrow> release_result result" where
  "releaseRun inputs node nodeName r xs st =
     (case map_get (waitingExecutionSource st) nodeName of
        None \<Rightarrow> Inl TypeError
      | Some sources \<Rightarrow>
          let taskDataMain = map null_to_empty xs
          in if carries_items taskDataMain then
               Inr (Released (delete_run nodeName r (st\<lparr>nodeExecutionStack := nodeExecutionStack st @
                 [\<lparr>exec_node = node, exec_data = [(Main, map slot_value (pad_inputs inputs taskDataMain))],
                   exec_source = map_option slot_values (map_get sources r), exec_runIndex = None, exec_metadata = None\<rparr>]\<rparr>)))
             else Inr (Emptied (delete_run nodeName r st)))"

definition tryRelease ::
  "Workflow \<Rightarrow> input_rules \<Rightarrow> string list \<Rightarrow> string \<Rightarrow> ExecutionStack \<Rightarrow> release_result result" where
  "tryRelease workflow rules waitingNodes nodeName st =
     (case map_get (wf_nodes workflow) nodeName of
        None \<Rightarrow> Inr Skipped
      | Some checkNode \<Rightarrow>
          let required = (if isLegacyExecutionOrder workflow then None else requiredInputs rules checkNode);
              runs = own_or [] (waitingExecution st) nodeName
          in if allRequired (inputCount rules checkNode) required then Inr Skipped
             else if \<exists>p\<in>set (getParentNodes (connectionsByDestinationNode workflow) nodeName (OfType Main) (-1)).
                 p \<in> set waitingNodes then Inr Skipped
             else if runs = [] then Inl TypeError
             else
               let r = firstRunIndex (map fst runs)
               in rbind (waiting_main (waitingExecution st) nodeName r) (\<lambda>xs.
                    if \<not> requiredPresent required (inputsWithData xs) then Inr Skipped
                    else releaseRun (inputCount rules checkNode) checkNode nodeName r xs st))"

text \<open>The loop over the waiting nodes, which starts again after a run without items was removed.\<close>

definition waiting_runs :: "ExecutionStack \<Rightarrow> nat" where
  "waiting_runs st = sum_list (map (\<lambda>(n, runs). length runs) (waitingExecution st))"

lemma sum_list_update_less:
  fixes f :: "'v \<Rightarrow> nat"
  assumes "map_of m k = Some v" "f v' < f v"
  shows "sum_list (map (\<lambda>(k, v). f v) (AList.update k v' m)) < sum_list (map (\<lambda>(k, v). f v) m)"
  using assms by (induction m) auto

lemma sum_list_delete_le:
  fixes f :: "'v \<Rightarrow> nat"
  shows "sum_list (map (\<lambda>(k, v). f v) (AList.delete k m)) \<le> sum_list (map (\<lambda>(k, v). f v) m)"
  by (induction m) (auto simp: AList.delete_eq)

lemma sum_list_delete_less:
  fixes f :: "'v \<Rightarrow> nat"
  assumes "map_of m k = Some v" "0 < f v"
  shows "sum_list (map (\<lambda>(k, v). f v) (AList.delete k m)) < sum_list (map (\<lambda>(k, v). f v) m)"
  using assms
proof (induction m)
  case (Cons p m)
  then show ?case
    using sum_list_delete_le [of f k m] by (cases p) (auto simp: AList.delete_eq)
qed simp

lemma length_delete_less: "map_of m k \<noteq> None \<Longrightarrow> length (AList.delete k m) < length m"
proof (induction m)
  case (Cons p m)
  then show ?case
    by (cases p) (auto simp: AList.delete_eq less_Suc_eq_le)
qed simp

lemma waiting_runs_delete_run:
  assumes "map_get (own_or [] (waitingExecution st) name) r \<noteq> None"
  shows "waiting_runs (delete_run name r st) < waiting_runs st"
proof -
  obtain runs where runs: "map_get (waitingExecution st) name = Some runs" "map_get runs r \<noteq> None"
    using assms by (auto simp: own_or_def split: option.splits)
  then have "length (map_delete r runs) < length runs"
    by (simp add: length_delete_less)
  with runs show ?thesis
    using sum_list_update_less [of "waitingExecution st" name runs length "map_delete r runs"]
      sum_list_delete_less [of "waitingExecution st" name runs length]
    by (auto simp: waiting_runs_def delete_run_def own_or_def Let_def)
qed

lemma waiting_runs_enqueued [simp]: "waiting_runs (st\<lparr>nodeExecutionStack := es\<rparr>) = waiting_runs st"
  by (simp add: waiting_runs_def)

lemma delete_run_enqueued [simp]:
  "delete_run name r (st\<lparr>nodeExecutionStack := es\<rparr>) = (delete_run name r st)\<lparr>nodeExecutionStack := es\<rparr>"
  by (simp add: delete_run_def Let_def)

lemma waiting_main_run:
  "waiting_main w name r = Inr xs \<Longrightarrow> map_get (own_or [] w name) r \<noteq> None"
  by (auto simp: waiting_main_def waiting_entry_def split: option.splits)

lemma tryRelease_cases:
  assumes "tryRelease workflow rules all name st = Inr res"
  obtains "res = Skipped"
  | node r xs where "map_get (wf_nodes workflow) name = Some node" "own_or [] (waitingExecution st) name \<noteq> []"
      "r = firstRunIndex (map fst (own_or [] (waitingExecution st) name))"
      "waiting_main (waitingExecution st) name r = Inr xs"
      "releaseRun (inputCount rules node) node name r xs st = Inr res"
  using assms by (auto simp: tryRelease_def Let_def rbind_eq_Inr split: option.splits if_splits)

lemma tryRelease_fewer:
  assumes "tryRelease workflow rules all name st = Inr res" "res = Emptied st' \<or> res = Released st'"
  shows "waiting_runs st' < waiting_runs st"
  using assms(1)
proof (cases rule: tryRelease_cases)
  case (2 node r xs)
  with assms(2) waiting_runs_delete_run [OF waiting_main_run [OF 2(4)]] show ?thesis
    by (auto simp: releaseRun_def Let_def split: option.splits if_splits)
qed (use assms(2) in auto)

function releaseLoop ::
  "Workflow \<Rightarrow> input_rules \<Rightarrow> string list \<Rightarrow> string list \<Rightarrow> ExecutionStack \<Rightarrow> ExecutionStack result" where
  "releaseLoop workflow rules waitingNodes [] st = Inr st"
| "releaseLoop workflow rules waitingNodes (nodeName # rest) st =
     (case tryRelease workflow rules waitingNodes nodeName st of
        Inl e \<Rightarrow> Inl e
      | Inr Skipped \<Rightarrow> releaseLoop workflow rules waitingNodes rest st
      | Inr (Released st') \<Rightarrow> Inr st'
      | Inr (Emptied st') \<Rightarrow>
          releaseLoop workflow rules (map_keys (waitingExecution st')) (map_keys (waitingExecution st')) st')"
  by pat_completeness auto

termination releaseLoop
  by (relation "measures [\<lambda>(workflow, rules, all, rest, st). waiting_runs st, \<lambda>(workflow, rules, all, rest, st). length rest]")
    (auto dest: tryRelease_fewer)

definition releaseWaiting :: "Workflow \<Rightarrow> input_rules \<Rightarrow> ExecutionStack \<Rightarrow> ExecutionStack result" where
  "releaseWaiting workflow rules st =
     (if nodeExecutionStack st = [] \<and> waitingExecution st \<noteq> []
      then releaseLoop workflow rules (map_keys (waitingExecution st)) (map_keys (waitingExecution st)) st
      else Inr st)"

section \<open>The waiting executions as finite maps\<close>

lemma map_of_idx_set [simp]: "map_of (idx_set k v m) = (map_of m)(k \<mapsto> v)"
  by (induction k v m rule: idx_set.induct) (auto simp: fun_eq_iff)

lemma set_idx_set: "sorted_wrt (<) (map fst m) \<Longrightarrow> set (idx_set k v m) = insert (k, v) {p \<in> set m. fst p \<noteq> k}"
  by (induction k v m rule: idx_set.induct) auto

lemma sorted_idx_set [simp]:
  assumes "sorted_wrt (<) (map fst m)"
  shows "sorted_wrt (<) (map fst (idx_set k v m))"
  using assms
proof (induction k v m rule: idx_set.induct)
  case (2 k v j w m)
  then show ?case
    using set_idx_set [of m k v] by (auto simp: image_iff)
qed simp

lemma idx_set_not_Nil [simp]: "idx_set k v m \<noteq> []"
  by (cases "(k, v, m)" rule: idx_set.cases) auto

lemma sorted_delete [simp]: "sorted_wrt (<) (map fst m) \<Longrightarrow> sorted_wrt (<) (map fst (map_delete k m))"
  by (induction m) (auto simp: AList.delete_eq)

lemma own_or_set_entry [simp]:
  "own_or [] (set_entry n r e w) m = (if m = n then idx_set r e (own_or [] w n) else own_or [] w m)"
  by (simp add: set_entry_def own_or_def)

lemma map_of_set_entry [simp]:
  "map_of (set_entry n r e w) m = (if m = n then Some (idx_set r e (own_or [] w n)) else map_of w m)"
  by (simp add: set_entry_def)

lemma waiting_entry_iff: "waiting_entry w n r = Inr e \<longleftrightarrow> map_get (own_or [] w n) r = Some e"
  by (simp add: waiting_entry_def split: option.split)

lemma waiting_main_single: "map_get (own_or [] w n) r = Some [(Main, xs)] \<Longrightarrow> waiting_main w n r = Inr xs"
  by (simp add: waiting_main_def waiting_entry_def entry_main_def)

lemma write_main_single:
  "map_get (own_or [] w n) r = Some [(Main, xs)] \<Longrightarrow>
    write_main n r i v w = Inr (set_entry n r [(Main, js_array_set Hole xs i (slot_of v))] w)"
  by (simp add: write_main_def waiting_entry_def entry_main_def)

subsection \<open>The invariant of the waiting executions\<close>

definition entry_ok :: "nat \<Rightarrow> (NodeConnectionType, 'a slot list) js_map \<Rightarrow> bool" where
  "entry_ok N entry = (\<exists>xs. entry = [(Main, xs)] \<and> length xs = N \<and> Hole \<notin> set xs)"

definition incomplete :: "(NodeConnectionType, 'a slot list) js_map \<Rightarrow> bool" where
  "incomplete entry = (Null \<in> set (own_or [] entry Main))"

definition runs_ok ::
  "nat \<Rightarrow> (nat, (NodeConnectionType, 'a slot list) js_map) js_map
     \<Rightarrow> (nat, (NodeConnectionType, 'b slot list) js_map) js_map \<Rightarrow> bool" where
  "runs_ok N runs sources \<longleftrightarrow>
     runs \<noteq> [] \<and> sorted_wrt (<) (map fst runs) \<and> sorted_wrt (<) (map fst sources) \<and>
     (\<forall>r entry. map_get runs r = Some entry \<longrightarrow>
        entry_ok N entry \<and> incomplete entry \<and> (\<exists>source. map_get sources r = Some source \<and> entry_ok N source))"

definition waiting_ok :: "Workflow \<Rightarrow> ExecutionStack \<Rightarrow> bool" where
  "waiting_ok workflow st \<longleftrightarrow>
     (\<forall>name runs. map_get (waitingExecution st) name = Some runs \<longrightarrow>
        (\<exists>sources. map_get (waitingExecutionSource st) name = Some sources \<and>
           runs_ok (numberOfInputs workflow name) runs sources))"

lemma waiting_ok_stack [simp]: "waiting_ok workflow (st\<lparr>nodeExecutionStack := es\<rparr>) = waiting_ok workflow st"
  by (simp add: waiting_ok_def)

lemma waiting_ok_enqueueFn [simp]: "waiting_ok workflow (enqueueFn w e st) = waiting_ok workflow st"
  by (simp add: enqueueFn_def)

lemma runs_ok_delete:
  "runs_ok N runs sources \<Longrightarrow> map_delete r runs \<noteq> [] \<Longrightarrow> runs_ok N (map_delete r runs) (map_delete r sources)"
  by (auto simp: runs_ok_def delete_conv' fun_upd_def)

lemma waiting_ok_delete_run:
  assumes "waiting_ok workflow st"
  shows "waiting_ok workflow (delete_run name r st)"
  using assms runs_ok_delete
  by (fastforce simp: waiting_ok_def delete_run_def Let_def own_or_def delete_conv' update_conv' split: option.splits)

subsection \<open>What a call writes\<close>

lemma idx_set_idx_set [simp]: "idx_set k v (idx_set k w m) = idx_set k v m"
  by (induction k w m rule: idx_set.induct) auto

lemma idx_set_same: "sorted_wrt (<) (map fst m) \<Longrightarrow> map_of m k = Some v \<Longrightarrow> idx_set k v m = m"
  by (induction k v m rule: idx_set.induct) (force dest: map_of_SomeD split: if_splits)+

lemma set_entry_set_entry [simp]: "set_entry n r e (set_entry n r e' w) = set_entry n r e w"
  by (simp add: set_entry_def own_or_def)

text \<open>The array a delivery is written into: that of the first run without the input, or of a new run.\<close>

definition run_for_input ::
  "nat \<Rightarrow> nat \<Rightarrow> (nat, (NodeConnectionType, 'a slot list) js_map) js_map \<Rightarrow> nat \<Rightarrow> 'a slot list \<Rightarrow> bool" where
  "run_for_input N i runs r xs \<longleftrightarrow> length xs = N \<and> Hole \<notin> set xs \<and> xs ! i = Null \<and>
     (map_get runs r = Some [(Main, xs)] \<or>
      r = length runs \<and> xs = replicate N Null \<and> (\<forall>e\<in>snd ` set runs. is_held (own_or [] e Main ! i)))"

lemma slot_Null: "x \<noteq> Hole \<Longrightarrow> \<not> is_held x \<Longrightarrow> x = Null"
  by (cases x) auto

lemma runWithoutInput_ok:
  assumes "distinct (map fst runs)" "\<forall>e\<in>snd ` set runs. entry_ok N e" "i < N"
  shows "(runWithoutInput i runs = Inr None \<and> (\<forall>e\<in>snd ` set runs. is_held (own_or [] e Main ! i))) \<or>
    (\<exists>r xs. runWithoutInput i runs = Inr (Some r) \<and> map_get runs r = Some [(Main, xs)] \<and>
       length xs = N \<and> Hole \<notin> set xs \<and> xs ! i = Null)"
  using assms
proof (induction runs)
  case (Cons p runs)
  obtain r xs where p: "p = (r, [(Main, xs)])" "length xs = N" "Hole \<notin> set xs"
    using Cons.prems(2) by (cases p) (auto simp: entry_ok_def)
  show ?case
  proof (cases "is_held (xs ! i)")
    case True
    then have "runWithoutInput i (p # runs) = runWithoutInput i runs"
      using p Cons.prems(3) by (simp add: entry_main_def)
    with Cons True p show ?thesis
      by (fastforce simp: own_or_def image_iff)
  next
    case False
    then have "xs ! i = Null"
      using p Cons.prems(3) by (intro slot_Null) (metis nth_mem, simp)
    with False p show ?thesis
      by (simp add: entry_main_def)
  qed
qed simp

definition sources_for :: "ExecutionStack \<Rightarrow> string \<Rightarrow> (nat, (NodeConnectionType, ISourceData slot list) js_map) js_map" where
  "sources_for st name =
     (if map_get (waitingExecution st) name = None then [] else own_or [] (waitingExecutionSource st) name)"

definition wrote ::
  "ExecutionStack \<Rightarrow> string \<Rightarrow> nat \<Rightarrow> INodeExecutionData list slot list \<Rightarrow> ISourceData slot list \<Rightarrow> ExecutionStack \<Rightarrow> bool" where
  "wrote st name r xs ss st' \<longleftrightarrow> nodeExecutionStack st' = nodeExecutionStack st \<and>
     (\<forall>m. map_get (waitingExecution st') m =
        (if m = name then Some (idx_set r [(Main, xs)] (own_or [] (waitingExecution st) name))
         else map_get (waitingExecution st) m)) \<and>
     (\<forall>m. map_get (waitingExecutionSource st') m =
        (if m = name then Some (idx_set r [(Main, ss)] (sources_for st name))
         else map_get (waitingExecutionSource st) m))"

lemma js_array_set_in: "i < length xs \<Longrightarrow> js_array_set h xs i v = xs[i := v]"
  by (simp add: js_array_set_def)

lemma waiting_ok_runs:
  assumes "waiting_ok workflow st" "map_get (own_or [] (waitingExecution st) name) r = Some e"
  shows "entry_ok (numberOfInputs workflow name) e \<and> incomplete e \<and>
    (\<exists>s. map_get (sources_for st name) r = Some s \<and> entry_ok (numberOfInputs workflow name) s)"
  using assms by (fastforce simp: waiting_ok_def own_or_def sources_for_def runs_ok_def split: option.splits)

lemma waiting_ok_sorted:
  "waiting_ok workflow st \<Longrightarrow> sorted_wrt (<) (map fst (own_or [] (waitingExecution st) name))"
  by (auto simp: waiting_ok_def own_or_def runs_ok_def split: option.splits)

lemma waiting_ok_sources_sorted: "waiting_ok workflow st \<Longrightarrow> sorted_wrt (<) (map fst (sources_for st name))"
  by (fastforce simp: waiting_ok_def own_or_def sources_for_def runs_ok_def split: option.splits)

lemma sorted_distinct: "sorted_wrt (<) (map fst m) \<Longrightarrow> distinct (map fst (m :: (nat, 'v) js_map))"
  by (rule strict_sorted_iff [THEN iffD1, THEN conjunct2])

lemma waiting_ok_entries:
  assumes "waiting_ok workflow st" "e \<in> snd ` set (own_or [] (waitingExecution st) name)"
  shows "entry_ok (numberOfInputs workflow name) e"
proof -
  obtain r where "(r, e) \<in> set (own_or [] (waitingExecution st) name)"
    using assms(2) by auto
  then have "map_get (own_or [] (waitingExecution st) name) r = Some e"
    using sorted_distinct [OF waiting_ok_sorted [OF assms(1)]] by simp
  with waiting_ok_runs [OF assms(1)] show ?thesis
    by blast
qed

lemma openWaiting_ok:
  assumes "waiting_ok workflow st" "conn_index c < numberOfInputs workflow (conn_node c)"
  shows "\<exists>r xs ss st1. openWaiting workflow c st = Inr (r, st1) \<and>
    run_for_input (numberOfInputs workflow (conn_node c)) (conn_index c) (own_or [] (waitingExecution st) (conn_node c)) r xs \<and>
    length ss = numberOfInputs workflow (conn_node c) \<and> Hole \<notin> set ss \<and> wrote st (conn_node c) r xs ss st1"
proof -
  let ?n = "conn_node c" and ?i = "conn_index c"
  let ?N = "numberOfInputs workflow ?n" and ?runs = "own_or [] (waitingExecution st) ?n"
  define st0 where "st0 = (if map_get (waitingExecution st) ?n = None
    then st\<lparr>waitingExecution := map_set ?n [] (waitingExecution st),
            waitingExecutionSource := map_set ?n [] (waitingExecutionSource st)\<rparr> else st)"
  have st0: "own_or [] (waitingExecution st0) ?n = ?runs" "nodeExecutionStack st0 = nodeExecutionStack st"
    "own_or [] (waitingExecutionSource st0) ?n = sources_for st ?n"
    "m \<noteq> ?n \<Longrightarrow> map_get (waitingExecution st0) m = map_get (waitingExecution st) m"
    "m \<noteq> ?n \<Longrightarrow> map_get (waitingExecutionSource st0) m = map_get (waitingExecutionSource st) m" for m
    by (auto simp: st0_def own_or_def sources_for_def)
  have opens: "openWaiting workflow c st = rbind (runWithoutInput ?i ?runs) (\<lambda>found.
      case found of Some r \<Rightarrow> Inr (r, st0)
      | None \<Rightarrow> Inr (length ?runs, prepareWaitingToExecution ?n ?N (length ?runs) st0))"
    unfolding openWaiting_def Let_def st0_def [symmetric] st0(1) ..
  from runWithoutInput_ok [OF sorted_distinct [OF waiting_ok_sorted [OF assms(1)]] _ assms(2), of ?n]
    waiting_ok_entries [OF assms(1)]
  consider (new) "runWithoutInput ?i ?runs = Inr None" "\<forall>e\<in>snd ` set ?runs. is_held (own_or [] e Main ! ?i)"
    | (old) r xs where "runWithoutInput ?i ?runs = Inr (Some r)" "map_get ?runs r = Some [(Main, xs)]"
        "length xs = ?N" "Hole \<notin> set xs" "xs ! ?i = Null"
    by blast
  then show ?thesis
  proof cases
    case new
    then show ?thesis
      using assms(2) st0
      by (intro exI [of _ "length ?runs"] exI [of _ "replicate ?N Null"] exI)
        (auto simp: opens run_for_input_def wrote_def prepareWaitingToExecution_def)
  next
    case old
    then obtain ss where ss: "map_get (sources_for st ?n) r = Some [(Main, ss)]" "length ss = ?N" "Hole \<notin> set ss"
      using waiting_ok_runs [OF assms(1) old(2)] by (auto simp: entry_ok_def)
    have "?runs \<noteq> []" "map_get (waitingExecution st) ?n \<noteq> None"
      using old(2) by (auto simp: own_or_def split: option.splits)
    moreover have "st0 = st"
      using calculation(2) by (auto simp: st0_def)
    moreover have "map_get (waitingExecutionSource st) ?n \<noteq> None"
      using assms(1) calculation(2) by (auto simp: waiting_ok_def)
    moreover have "idx_set r [(Main, xs)] ?runs = ?runs" "idx_set r [(Main, ss)] (sources_for st ?n) = sources_for st ?n"
      by (rule idx_set_same [OF waiting_ok_sorted [OF assms(1)] old(2)]
          idx_set_same [OF waiting_ok_sources_sorted [OF assms(1)] ss(1)])+
    ultimately have "wrote st ?n r xs ss st"
      by (auto simp: wrote_def) (auto simp: own_or_def sources_for_def)
    with \<open>st0 = st\<close> old ss show ?thesis
      by (intro exI [of _ r] exI [of _ xs] exI [of _ ss] exI [of _ st]) (simp add: opens run_for_input_def)
  qed
qed

lemma wrote_own:
  assumes "wrote st n r xs ss st1"
  shows "own_or [] (waitingExecution st1) n = idx_set r [(Main, xs)] (own_or [] (waitingExecution st) n)"
    "own_or [] (waitingExecutionSource st1) n = idx_set r [(Main, ss)] (sources_for st n)"
  using assms by (auto simp: wrote_def own_or_def)

text \<open>Writing the same run again replaces what was written.\<close>

lemma wrote_again:
  assumes "wrote st n r xs ss st1"
  shows "wrote st n r ys ts (st1\<lparr>waitingExecution := set_entry n r [(Main, ys)] (waitingExecution st1),
    waitingExecutionSource := set_entry n r [(Main, ts)] (waitingExecutionSource st1)\<rparr>)"
  using assms wrote_own [OF assms] by (auto simp: wrote_def)

lemma addToWaiting_ok:
  assumes "waiting_ok workflow st" "conn_index c < numberOfInputs workflow (conn_node c)"
  shows "\<exists>r xs ss st1. addToWaiting workflow dl c st = Inr (r, st1) \<and>
    run_for_input (numberOfInputs workflow (conn_node c)) (conn_index c) (own_or [] (waitingExecution st) (conn_node c)) r xs \<and>
    length ss = numberOfInputs workflow (conn_node c) \<and> Hole \<notin> set ss \<and>
    wrote st (conn_node c) r (xs[conn_index c := slot_of (dl_data dl)]) ss st1"
proof -
  let ?n = "conn_node c" and ?i = "conn_index c"
  from openWaiting_ok [OF assms] obtain r xs ss st1 where
    o: "openWaiting workflow c st = Inr (r, st1)" "length ss = numberOfInputs workflow ?n" "Hole \<notin> set ss"
      "wrote st ?n r xs ss st1"
    and run: "run_for_input (numberOfInputs workflow ?n) ?i (own_or [] (waitingExecution st) ?n) r xs"
    by blast
  let ?ss = "ss[?i := Held (sourceData (dl_parent dl) (dl_output dl) (dl_run dl))]"
  have xs: "length xs = numberOfInputs workflow ?n"
    using run by (simp add: run_for_input_def)
  have "addToWaiting workflow dl c st = Inr (r, st1\<lparr>
      waitingExecution := set_entry ?n r [(Main, xs[?i := slot_of (dl_data dl)])] (waitingExecution st1),
      waitingExecutionSource := set_entry ?n r [(Main, ?ss)] (waitingExecutionSource st1)\<rparr>)"
    using o xs assms(2) wrote_own [OF o(4)]
    by (simp add: addToWaiting_def write_main_single [of _ _ _ xs] write_main_single [of _ _ _ ss] js_array_set_in)
  moreover have "length ?ss = numberOfInputs workflow ?n" "Hole \<notin> set ?ss"
    using o(2,3) set_update_subset_insert [of ss ?i] by (auto dest: subsetD)
  ultimately show ?thesis
    using run wrote_again [OF o(4)] by blast
qed

lemma slot_of_not_Hole [simp]: "slot_of v \<noteq> Hole" "Hole \<noteq> slot_of v"
  by (cases v; simp)+

text \<open>Following the inputs only puts nodes on the stack, and in the order \<open>v1\<close> none.\<close>

definition only_follows :: "Workflow \<Rightarrow> ExecutionStack \<Rightarrow> ExecutionStack \<Rightarrow> bool" where
  "only_follows workflow st st' \<longleftrightarrow> (\<exists>es. st' = st\<lparr>nodeExecutionStack := nodeExecutionStack st @ es\<rparr> \<and>
     (isLegacyExecutionOrder workflow \<or> es = []) \<and> (\<forall>e\<in>set es. exec_data e = [(Main, [Some [empty_item]])]))"

lemma only_follows_refl [simp]: "only_follows workflow st st"
  unfolding only_follows_def by (rule exI [of _ "[]"]) simp

lemma only_follows_trans: "only_follows workflow s t \<Longrightarrow> only_follows workflow t u \<Longrightarrow> only_follows workflow s u"
proof -
  assume "only_follows workflow s t" "only_follows workflow t u"
  then obtain es fs where "t = s\<lparr>nodeExecutionStack := nodeExecutionStack s @ es\<rparr>"
      "u = t\<lparr>nodeExecutionStack := nodeExecutionStack t @ fs\<rparr>"
      "isLegacyExecutionOrder workflow \<or> es = []" "isLegacyExecutionOrder workflow \<or> fs = []"
      "\<forall>e\<in>set es \<union> set fs. exec_data e = [(Main, [Some [empty_item]])]"
    unfolding only_follows_def by blast
  then show ?thesis
    unfolding only_follows_def by (intro exI [of _ "es @ fs"]) auto
qed

lemma addEmptyNode_only_follows:
  assumes "addEmptyNode workflow runData dl n st = Inr st'" "isLegacyExecutionOrder workflow"
  shows "only_follows workflow st st'"
proof -
  from assms(1) consider "st' = st" | node where "st' = enqueueFn workflow \<lparr>exec_node = node,
      exec_data = [(Main, [Some [empty_item]])],
      exec_source = Some [(Main, [Some (sourceData (dl_parent dl) (dl_output dl) (dl_run dl))])], exec_runIndex = None, exec_metadata = None\<rparr> st"
    by (auto simp: addEmptyNode_def rbind_eq_Inr split: if_splits option.splits)
  then show ?thesis
    using assms(2) by cases (auto simp: enqueueFn_def only_follows_def)
qed

lemma followParents_only_follows:
  assumes "followParents workflow runData dl outs name st = Inr st'" "isLegacyExecutionOrder workflow"
  shows "only_follows workflow st st'"
proof -
  from assms(1) consider "st' = st" | n where "addEmptyNode workflow runData dl n st = Inr st'"
    unfolding followParents_def Let_def rbind_eq_Inr by (auto split: option.splits)
  then show ?thesis
    using addEmptyNode_only_follows assms(2) by cases auto
qed

lemma followInput_follows:
  assumes "followInput workflow runData dl outs c st = Inr st'"
  shows "only_follows workflow st st'"
proof -
  from assms consider "st' = st"
    | "followParents workflow runData dl outs (conn_node c) st = Inr st'" "isLegacyExecutionOrder workflow"
    by (fastforce simp: followInput_def Let_def rbind_eq_Inr split: if_splits)
  then show ?thesis
    using followParents_only_follows by cases auto
qed

lemma rfold_only_follows:
  assumes "\<And>x st st'. f x st = Inr st' \<Longrightarrow> only_follows workflow st st'"
  shows "rfold f xs st = Inr st' \<Longrightarrow> only_follows workflow st st'"
  by (induction xs arbitrary: st) (auto simp: rbind_eq_Inr intro: only_follows_trans assms)

lemma followInputs_only_follows: "followInputs workflow runData dl n st = Inr st' \<Longrightarrow> only_follows workflow st st'"
  by (auto simp: followInputs_def Let_def split: option.splits intro: rfold_only_follows followInput_follows)

subsection \<open>Nothing is lost\<close>

text \<open>The data a run holds, with the input each belongs to; what is waiting for a node; what an
  entry of the stack carries.\<close>

fun slot_items :: "nat \<Rightarrow> 'a slot \<Rightarrow> (nat \<times> 'a) multiset" where
  "slot_items i (Held x) = {#(i, x)#}"
| "slot_items i Null = {#}"
| "slot_items i Hole = {#}"

definition run_items :: "'a slot list \<Rightarrow> (nat \<times> 'a) multiset" where
  "run_items xs = (\<Sum>i<length xs. slot_items i (xs ! i))"

definition runs_items :: "(nat, (NodeConnectionType, 'a slot list) js_map) js_map \<Rightarrow> (nat \<times> 'a) multiset" where
  "runs_items runs = sum_list (map (\<lambda>(r, e). run_items (own_or [] e Main)) runs)"

definition held :: "ExecutionStack \<Rightarrow> string \<Rightarrow> (nat \<times> INodeExecutionData list) multiset" where
  "held st name = runs_items (own_or [] (waitingExecution st) name)"

definition carried :: "IExecuteData \<Rightarrow> (nat \<times> INodeExecutionData list) multiset" where
  "carried e = (let ds = own_or [] (exec_data e) Main
     in \<Sum>i<length ds. case ds ! i of None \<Rightarrow> {#} | Some items \<Rightarrow> {#(i, items)#})"

lemma run_items_update:
  assumes "i < length xs" "xs ! i = Null"
  shows "run_items (xs[i := Held x]) = add_mset (i, x) (run_items xs)"
proof -
  have "(\<Sum>j<length xs. slot_items j (xs[i := Held x] ! j)) =
      slot_items i (Held x) + (\<Sum>j\<in>{..<length xs} - {i}. slot_items j (xs ! j))"
    using assms(1) by (subst sum.remove [of _ i]) auto
  moreover have "(\<Sum>j<length xs. slot_items j (xs ! j)) = (\<Sum>j\<in>{..<length xs} - {i}. slot_items j (xs ! j))"
    using assms by (subst sum.remove [of _ i]) auto
  ultimately show ?thesis
    by (simp add: run_items_def)
qed

lemma run_items_replicate [simp]: "run_items (replicate n Null) = {#}"
  by (simp add: run_items_def)

lemma carried_values: "exec_data e = [(Main, map slot_value xs)] \<Longrightarrow> carried e = run_items xs"
proof -
  have "(case slot_value x of None \<Rightarrow> {#} | Some items \<Rightarrow> {#(i, items)#}) = slot_items i x" for i and x :: "INodeExecutionData list slot"
    by (cases x) auto
  then show "exec_data e = [(Main, map slot_value xs)] \<Longrightarrow> carried e = run_items xs"
    by (simp add: carried_def run_items_def own_or_def)
qed

lemma runs_items_new:
  "map_get runs r = None \<Longrightarrow> runs_items (idx_set r e runs) = runs_items runs + run_items (own_or [] e Main)"
  by (induction r e runs rule: idx_set.induct) (auto simp: runs_items_def split: if_splits)

lemma runs_items_old:
  "sorted_wrt (<) (map fst runs) \<Longrightarrow> map_get runs r = Some e0 \<Longrightarrow>
    runs_items (idx_set r e runs) + run_items (own_or [] e0 Main) = runs_items runs + run_items (own_or [] e Main)"
proof (induction r e runs rule: idx_set.induct)
  case (2 r e j f runs)
  consider "r < j" | "r = j" | "j < r"
    by linarith
  then show ?case
  proof cases
    case 1
    with 2(2,3) have False
      by (force dest: map_of_SomeD split: if_splits)
    then show ?thesis ..
  next
    case 3
    then have "runs_items (idx_set r e runs) + run_items (own_or [] e0 Main) = runs_items runs + run_items (own_or [] e Main)"
      using 2 by (auto split: if_splits)
    with 3 show ?thesis
      by (simp add: runs_items_def ac_simps)
  qed (use 2(3) in \<open>auto simp: runs_items_def\<close>)
qed simp

lemma runs_items_delete:
  "distinct (map fst runs) \<Longrightarrow> map_get runs r = Some e \<Longrightarrow>
    runs_items (map_delete r runs) + run_items (own_or [] e Main) = runs_items runs"
proof (induction runs)
  case (Cons p runs)
  then show ?case
    by (cases p) (auto simp: runs_items_def ac_simps split: if_splits)
qed simp

lemma delete_idx_set [simp]: "map_delete k (idx_set k v m) = map_delete k m"
  by (induction k v m rule: idx_set.induct) auto

lemma wrote_ok:
  assumes "waiting_ok workflow st" "wrote st n r xs ss st1" "Null \<in> set xs"
    and "length xs = numberOfInputs workflow n" "Hole \<notin> set xs" "length ss = numberOfInputs workflow n" "Hole \<notin> set ss"
  shows "waiting_ok workflow st1"
proof -
  have "runs_ok (numberOfInputs workflow n) (idx_set r [(Main, xs)] (own_or [] (waitingExecution st) n))
      (idx_set r [(Main, ss)] (sources_for st n))"
    unfolding runs_ok_def
    using assms(3-) waiting_ok_sorted [OF assms(1)] waiting_ok_sources_sorted [OF assms(1)] waiting_ok_runs [OF assms(1)]
    by (auto simp: entry_ok_def incomplete_def own_or_def)
  with assms(1,2) show ?thesis
    by (auto simp: waiting_ok_def wrote_def)
qed

lemma wrote_deleted:
  assumes "waiting_ok workflow st" "wrote st n r xs ss st1"
  shows "waiting_ok workflow (delete_run n r st1)"
    and "own_or [] (waitingExecution (delete_run n r st1)) n = map_delete r (own_or [] (waitingExecution st) n)"
    and "m \<noteq> n \<Longrightarrow> map_get (waitingExecution (delete_run n r st1)) m = map_get (waitingExecution st) m"
proof -
  let ?runs = "map_delete r (own_or [] (waitingExecution st) n)"
  have "runs_ok (numberOfInputs workflow n) ?runs (map_delete r (sources_for st n))" if ne: "?runs \<noteq> []"
  proof -
    obtain runs where runs: "map_get (waitingExecution st) n = Some runs" "own_or [] (waitingExecution st) n = runs"
      using ne by (auto simp: own_or_def split: option.splits)
    then obtain sources where "map_get (waitingExecutionSource st) n = Some sources"
        "runs_ok (numberOfInputs workflow n) runs sources"
      using assms(1) by (auto simp: waiting_ok_def)
    with runs ne show ?thesis
      by (simp add: runs_ok_delete sources_for_def own_or_def)
  qed
  then show "waiting_ok workflow (delete_run n r st1)"
    using assms wrote_own [OF assms(2)]
    by (auto simp: waiting_ok_def delete_run_def Let_def wrote_def delete_conv' update_conv')
  show "own_or [] (waitingExecution (delete_run n r st1)) n = ?runs"
    using wrote_own [OF assms(2)] by (auto simp: delete_run_def Let_def) (simp add: own_or_def delete_conv')
  show "m \<noteq> n \<Longrightarrow> map_get (waitingExecution (delete_run n r st1)) m = map_get (waitingExecution st) m"
    using assms(2) by (auto simp: delete_run_def Let_def wrote_def delete_conv' update_conv')
qed

lemma moveToStack_ok:
  assumes "wrote st n r xs ss st1" "map_get (wf_nodes workflow) n = Some node"
  shows "moveToStack workflow n r st1 = Inr (delete_run n r (enqueueFn workflow
    \<lparr>exec_node = node, exec_data = [(Main, map slot_value xs)], exec_source = Some [(Main, map slot_value ss)],
     exec_runIndex = None, exec_metadata = None\<rparr> st1))"
  using assms wrote_own [OF assms(1)] by (simp add: moveToStack_def waiting_entry_def slot_values_def)

lemma keepWaiting_ok:
  assumes "wrote st (conn_node c) r xs ss st1" "conn_index c < length xs" "xs ! conn_index c = slot_of (dl_data dl)"
  shows "\<exists>st2. keepWaiting workflow dl c r (st1\<lparr>nodeExecutionStack := es\<rparr>) = Inr (st2\<lparr>nodeExecutionStack := es\<rparr>) \<and>
    wrote st (conn_node c) r xs ss st2"
proof -
  let ?n = "conn_node c"
  let ?st2 = "st1\<lparr>waitingExecution := set_entry ?n r [(Main, xs)] (waitingExecution st1),
    waitingExecutionSource := set_entry ?n r [(Main, ss)] (waitingExecutionSource st1)\<rparr>"
  have "keepWaiting workflow dl c r (st1\<lparr>nodeExecutionStack := es\<rparr>) = Inr (?st2\<lparr>nodeExecutionStack := es\<rparr>)"
    using wrote_own [OF assms(1)] assms(2,3)
    by (simp add: keepWaiting_def waiting_main_single Let_def js_array_set_in prepareWaitingToExecution_def
        list_update_same_conv [THEN iffD2])
  with wrote_again [OF assms(1)] show ?thesis
    by blast
qed

text \<open>A run is open to the input: one that lacks it, or a new one under an index not yet in use.\<close>

definition run_open :: "ExecutionStack \<Rightarrow> IConnection \<Rightarrow> bool" where
  "run_open st c =
     (let runs = own_or [] (waitingExecution st) (conn_node c)
      in (\<exists>e\<in>snd ` set runs. \<not> is_held (own_or [] e Main ! conn_index c)) \<or> length runs \<notin> fst ` set runs)"

lemma run_for_input_items:
  assumes "sorted_wrt (<) (map fst runs)" "run_for_input N i runs r xs" "i < N"
    and "(\<exists>e\<in>snd ` set runs. \<not> is_held (own_or [] e Main ! i)) \<or> length runs \<notin> fst ` set runs"
  shows "runs_items (idx_set r [(Main, xs[i := Held d])] runs) = add_mset (i, d) (runs_items runs)"
    and "runs_items (map_delete r runs) + run_items (xs[i := Held d]) = add_mset (i, d) (runs_items runs)"
proof -
  have xs: "run_items (xs[i := Held d]) = add_mset (i, d) (run_items xs)"
    using assms(2,3) by (intro run_items_update) (auto simp: run_for_input_def)
  have "runs_items (idx_set r [(Main, xs[i := Held d])] runs) = add_mset (i, d) (runs_items runs) \<and>
    runs_items (map_delete r runs) + run_items (xs[i := Held d]) = add_mset (i, d) (runs_items runs)"
  proof (cases "map_get runs r = Some [(Main, xs)]")
    case True
    show ?thesis
      using runs_items_old [OF assms(1) True, of "[(Main, xs[i := Held d])]"]
        runs_items_delete [OF sorted_distinct [OF assms(1)] True] xs
      by (auto simp: own_or_def)
  next
    case False
    with assms(2,4) have r: "r = length runs" "xs = replicate N Null" "r \<notin> fst ` set runs"
      by (auto simp: run_for_input_def)
    then have "map_get runs r = None"
      by (simp add: map_of_eq_None_iff)
    from runs_items_new [OF this, of "[(Main, xs[i := Held d])]"] r xs show ?thesis
      by (simp add: own_or_def)
  qed
  then show "runs_items (idx_set r [(Main, xs[i := Held d])] runs) = add_mset (i, d) (runs_items runs)"
    "runs_items (map_delete r runs) + run_items (xs[i := Held d]) = add_mset (i, d) (runs_items runs)"
    by blast+
qed

text \<open>The two outcomes of handing data to a node with several inputs: it goes to the stack with all
  its inputs, or it keeps waiting.\<close>

definition runs_now ::
  "Workflow \<Rightarrow> IConnection \<Rightarrow> INodeExecutionData list \<Rightarrow> ExecutionStack \<Rightarrow> ExecutionStack \<Rightarrow> bool" where
  "runs_now workflow c items st st' \<longleftrightarrow>
     (\<exists>e. nodeExecutionStack st' = nodeExecutionStack (enqueueFn workflow e st) \<and>
        map_get (wf_nodes workflow) (conn_node c) = Some (exec_node e) \<and>
        length (own_or [] (exec_data e) Main) = numberOfInputs workflow (conn_node c) \<and>
        None \<notin> set (own_or [] (exec_data e) Main) \<and>
        carried e + held st' (conn_node c) = add_mset (conn_index c, items) (held st (conn_node c)))"

definition waits_on ::
  "Workflow \<Rightarrow> IConnection \<Rightarrow> INodeExecutionData list \<Rightarrow> ExecutionStack \<Rightarrow> ExecutionStack \<Rightarrow> bool" where
  "waits_on workflow c items st st' \<longleftrightarrow>
     (\<exists>es. nodeExecutionStack st' = nodeExecutionStack st @ es \<and>
        (isLegacyExecutionOrder workflow \<or> es = []) \<and> (\<forall>e\<in>set es. exec_data e = [(Main, [Some [empty_item]])]) \<and>
        held st' (conn_node c) = add_mset (conn_index c, items) (held st (conn_node c)))"

text \<open>
  When nothing the scheduling reads is missing: the outputs of the parent, the main input of the
  nodes whose input data is looked at, the nodes connections come from, and no output that was
  recorded as \<open>null\<close>.
\<close>

definition output_nodes :: "Workflow \<Rightarrow> string \<Rightarrow> string list" where
  "output_nodes workflow parent =
     map conn_node (concat (map slot_list (own_or [] (own_or [] (connectionsBySourceNode workflow) parent) Main)))"

definition readable :: "Workflow \<Rightarrow> IRunData \<Rightarrow> string \<Rightarrow> bool" where
  "readable workflow runData parent \<longleftrightarrow>
     map_get (connectionsBySourceNode workflow) parent \<noteq> None \<and>
     (\<forall>m. m \<in> set (output_nodes workflow parent) \<or>
        isLegacyExecutionOrder workflow \<and> map_get (connectionsByDestinationNode workflow) m \<noteq> None \<longrightarrow>
        (\<exists>conns. firstInput workflow m = Inr conns)) \<and>
     (\<forall>a b. (a, b) \<in> main_edges_of (connectionsByDestinationNode workflow) \<longrightarrow> map_get (wf_nodes workflow) b \<noteq> None) \<and>
     (\<forall>name r i. run_data_at runData name r i \<noteq> Some None)"

lemma incomingConnectionIsEmpty_total:
  "\<forall>name r i. run_data_at runData name r i \<noteq> Some None \<Longrightarrow> \<exists>b. incomingConnectionIsEmpty runData cs r = Inr b"
  by (induction cs) (auto split: option.split)

lemma walkParents_in: "walkParents n outs stack runData ps found = Some m \<Longrightarrow> m \<in> set ps \<or> found = Some m"
  by (induction ps arbitrary: found) (auto split: if_splits)

lemma input_test_total:
  assumes "readable workflow runData parent"
    and "m \<in> set (output_nodes workflow parent) \<or>
      isLegacyExecutionOrder workflow \<and> map_get (connectionsByDestinationNode workflow) m \<noteq> None"
  shows "\<exists>b. rbind (firstInput workflow m) (\<lambda>conns. incomingConnectionIsEmpty runData conns r) = Inr b"
proof -
  obtain conns where "firstInput workflow m = Inr conns"
    using assms unfolding readable_def by blast
  moreover have "\<exists>b. incomingConnectionIsEmpty runData conns r = Inr b"
    using assms(1) by (intro incomingConnectionIsEmpty_total) (simp add: readable_def)
  ultimately show ?thesis
    by simp
qed

lemma addEmptyNode_total:
  assumes "readable workflow runData parent" "isLegacyExecutionOrder workflow" "map_get (wf_nodes workflow) n \<noteq> None"
  shows "\<exists>st'. addEmptyNode workflow runData dl n st = Inr st'"
proof -
  obtain b where "(if map_get (connectionsByDestinationNode workflow) n = None then Inr True
      else rbind (firstInput workflow n) (\<lambda>conns. incomingConnectionIsEmpty runData conns (dl_run dl))) = Inr b"
    using input_test_total [OF assms(1), of n "dl_run dl"] assms(2)
    by (cases "map_get (connectionsByDestinationNode workflow) n = None") auto
  with assms(3) show ?thesis
    by (auto simp: addEmptyNode_def)
qed

lemma followParents_total:
  assumes "readable workflow runData parent" "isLegacyExecutionOrder workflow" "map_get (wf_nodes workflow) n \<noteq> None"
    and "dl_data dl \<noteq> None"
  shows "\<exists>st'. followParents workflow runData dl outs n st = Inr st'"
proof -
  let ?D = "connectionsByDestinationNode workflow"
  have parent: "map_get (wf_nodes workflow) m \<noteq> None" if m: "m \<in> set (getParentNodes ?D n (OfType Main) (-1))" for m
  proof -
    obtain k where "(n, m) \<in> main_edges_of ?D ^^ k" "m \<noteq> n"
      using m by (auto simp: getParentNodes_def getConnectedNodes_reach)
    then obtain a where "(a, m) \<in> main_edges_of ?D"
      by (cases k) auto
    with assms(1) show ?thesis
      by (auto simp: readable_def)
  qed
  let ?found = "walkParents n outs (map (\<lambda>e. node_name (exec_node e)) (nodeExecutionStack st)) runData
    (rev (getParentNodes ?D n (OfType Main) (-1) @ [n])) (Some n)"
  have found: "\<exists>st'. addEmptyNode workflow runData dl m st = Inr st'" if "?found = Some m" for m
    using walkParents_in [OF that] parent assms(3) by (intro addEmptyNode_total [OF assms(1,2)]) auto
  show ?thesis
    using assms(4) found unfolding followParents_def Let_def by (auto split: option.split)
qed

lemma followInput_total:
  assumes "readable workflow runData (dl_parent dl)" "outs = output_nodes workflow (dl_parent dl)"
    and "map_get (wf_nodes workflow) (conn_node c) \<noteq> None" "dl_data dl \<noteq> None"
  shows "\<exists>st'. followInput workflow runData dl outs c st = Inr st'"
proof -
  let ?test = "if conn_node c \<in> set outs
    then rbind (firstInput workflow (conn_node c)) (\<lambda>conns. incomingConnectionIsEmpty runData conns (dl_run dl))
    else Inr True"
  obtain b where b: "?test = Inr b"
    using input_test_total [OF assms(1), of "conn_node c" "dl_run dl"] assms(2)
    by (cases "conn_node c \<in> set outs") auto
  show ?thesis
    unfolding followInput_def Let_def b
    using followParents_total [OF assms(1) _ assms(3,4)] by auto
qed

lemma followInputs_total:
  assumes "readable workflow runData (dl_parent dl)" "dl_data dl \<noteq> None"
  shows "\<exists>st'. followInputs workflow runData dl n st = Inr st'"
proof -
  obtain types where types: "map_get (connectionsBySourceNode workflow) (dl_parent dl) = Some types"
    using assms(1) by (auto simp: readable_def)
  have "map_get (wf_nodes workflow) (conn_node c) \<noteq> None" if "c \<in> set (concat (map slot_list (main_inputs workflow n)))" for c
  proof -
    have "c \<in> set (main_connections (connectionsByDestinationNode workflow) n)"
      using that by (auto simp: main_connections_def followed_def filter_types_def main_inputs_def slot_list_def
          own_or_def split: option.splits)
    then have "(n, conn_node c) \<in> main_edges_of (connectionsByDestinationNode workflow)"
      by (simp add: main_edges_iff)
    with assms(1) show ?thesis
      by (simp add: readable_def)
  qed
  then have "\<exists>st'. rfold (followInput workflow runData dl (output_nodes workflow (dl_parent dl)))
      (concat (map slot_list (main_inputs workflow n))) st = Inr st'"
    using rfold_total [of "\<lambda>_. True" st "concat (map slot_list (main_inputs workflow n))"
        "followInput workflow runData dl (output_nodes workflow (dl_parent dl))"]
      followInput_total [OF assms(1) refl _ assms(2)] by simp
  with types show ?thesis
    by (simp add: followInputs_def output_nodes_def own_or_def)
qed

lemma update_no_hole: "Hole \<notin> set xs \<Longrightarrow> x \<noteq> Hole \<Longrightarrow> Hole \<notin> set (xs[i := x])"
  using set_update_subset_insert [of xs i x] by auto

lemma deliver_complete:
  assumes "waiting_ok workflow st" "wrote st (conn_node c) r (xs[conn_index c := Held items]) ss st1"
    and "Null \<notin> set (xs[conn_index c := Held items])" "map_get (wf_nodes workflow) (conn_node c) = Some node"
    and "run_for_input (numberOfInputs workflow (conn_node c)) (conn_index c) (own_or [] (waitingExecution st) (conn_node c)) r xs"
    and "conn_index c < numberOfInputs workflow (conn_node c)" "run_open st c"
  shows "\<exists>st'. moveToStack workflow (conn_node c) r st1 = Inr st' \<and> waiting_ok workflow st' \<and>
    (\<forall>m. m \<noteq> conn_node c \<longrightarrow> map_get (waitingExecution st') m = map_get (waitingExecution st) m) \<and>
    runs_now workflow c items st st'"
proof -
  let ?n = "conn_node c" and ?ys = "xs[conn_index c := Held items]"
  let ?e = "\<lparr>exec_node = node, exec_data = [(Main, map slot_value ?ys)], exec_source = Some [(Main, map slot_value ss)],
    exec_runIndex = None, exec_metadata = None\<rparr>"
  let ?st' = "(delete_run ?n r st1)\<lparr>nodeExecutionStack := nodeExecutionStack (enqueueFn workflow ?e st)\<rparr>"
  have "nodeExecutionStack st1 = nodeExecutionStack st"
    using assms(2) by (simp add: wrote_def)
  then have move: "moveToStack workflow ?n r st1 = Inr ?st'"
    using moveToStack_ok [OF assms(2,4)] by (simp add: enqueueFn_def)
  have len: "length ?ys = numberOfInputs workflow ?n" "Hole \<notin> set ?ys"
    using assms(5) by (simp_all add: run_for_input_def update_no_hole)
  have "None \<notin> set (map slot_value ?ys)"
  proof
    assume "None \<in> set (map slot_value ?ys)"
    then obtain y where "y \<in> set ?ys" "slot_value y = None"
      by auto
    with assms(3) len(2) show False
      by (cases y) auto
  qed
  moreover have "carried ?e + held ?st' ?n = add_mset (conn_index c, items) (held st ?n)"
    using run_for_input_items(2) [OF waiting_ok_sorted [OF assms(1)] assms(5,6)] assms(7) wrote_deleted(2) [OF assms(1,2)]
    by (simp add: carried_values held_def run_open_def Let_def ac_simps)
  ultimately have "runs_now workflow c items st ?st'"
    unfolding runs_now_def using assms(4) len(1) by (intro exI [of _ ?e]) (simp add: own_or_def)
  then show ?thesis
    using move wrote_deleted(1,3) [OF assms(1,2)] by simp
qed

lemma deliver_incomplete:
  assumes "waiting_ok workflow st" "wrote st (conn_node c) r (xs[conn_index c := Held items]) ss st1"
    and "Null \<in> set (xs[conn_index c := Held items])" "dl_data dl = Some items"
    and "run_for_input (numberOfInputs workflow (conn_node c)) (conn_index c) (own_or [] (waitingExecution st) (conn_node c)) r xs"
    and "conn_index c < numberOfInputs workflow (conn_node c)" "run_open st c"
    and "length ss = numberOfInputs workflow (conn_node c)" "Hole \<notin> set ss" "only_follows workflow st1 st2"
  shows "\<exists>st'. keepWaiting workflow dl c r st2 = Inr st' \<and> waiting_ok workflow st' \<and>
    (\<forall>m. m \<noteq> conn_node c \<longrightarrow> map_get (waitingExecution st') m = map_get (waitingExecution st) m) \<and>
    waits_on workflow c items st st'"
proof -
  let ?n = "conn_node c" and ?ys = "xs[conn_index c := Held items]"
  obtain es where es: "st2 = st1\<lparr>nodeExecutionStack := nodeExecutionStack st1 @ es\<rparr>"
    "isLegacyExecutionOrder workflow \<or> es = []" "\<forall>e\<in>set es. exec_data e = [(Main, [Some [empty_item]])]"
    using assms(10) by (auto simp: only_follows_def)
  have len: "length ?ys = numberOfInputs workflow ?n" "Hole \<notin> set ?ys"
    using assms(5) by (simp_all add: run_for_input_def update_no_hole)
  obtain st3 where st3: "wrote st ?n r ?ys ss st3"
    "keepWaiting workflow dl c r st2 = Inr (st3\<lparr>nodeExecutionStack := nodeExecutionStack st1 @ es\<rparr>)"
    using keepWaiting_ok [OF assms(2), of dl workflow "nodeExecutionStack st1 @ es"] assms(4,6) len(1) es(1) by auto
  have "held st3 ?n = add_mset (conn_index c, items) (held st ?n)"
    using run_for_input_items(1) [OF waiting_ok_sorted [OF assms(1)] assms(5,6)] assms(7) wrote_own(1) [OF st3(1)]
    by (simp add: held_def run_open_def Let_def)
  moreover have "nodeExecutionStack st1 = nodeExecutionStack st"
    using assms(2) by (simp add: wrote_def)
  ultimately have "waits_on workflow c items st (st3\<lparr>nodeExecutionStack := nodeExecutionStack st1 @ es\<rparr>)"
    using es(2,3) by (simp add: waits_on_def held_def)
  moreover have "waiting_ok workflow st3"
    by (rule wrote_ok [OF assms(1) st3(1) assms(3) len assms(8,9)])
  ultimately show ?thesis
    using st3 by (auto simp: wrote_def)
qed


text \<open>A workflow with a node that merges two branches.\<close>

definition to_input :: "string \<Rightarrow> nat \<Rightarrow> IConnection" where
  "to_input name i = \<lparr>conn_node = name, conn_type = Main, conn_index = i\<rparr>"

definition merge_workflow :: Workflow where
  "merge_workflow =
     \<lparr>wf_nodes = [(''t'', sample_node 0 ''t''), (''a'', sample_node 1 ''a''), (''b'', sample_node 2 ''b''),
        (''m'', sample_node 3 ''m'')],
      connectionsBySourceNode =
        [(''t'', [(Main, [Some [to_input ''a'' 0, to_input ''b'' 0]])]),
         (''a'', [(Main, [Some [to_input ''m'' 0]])]), (''b'', [(Main, [Some [to_input ''m'' 1]])])],
      connectionsByDestinationNode =
        [(''a'', [(Main, [Some [to_input ''t'' 0]])]), (''b'', [(Main, [Some [to_input ''t'' 0]])]),
         (''m'', [(Main, [Some [to_input ''a'' 0], Some [to_input ''b'' 0]])])],
      wf_executionOrder = Some ''v1''\<rparr>"

definition no_stack :: ExecutionStack where
  "no_stack = \<lparr>nodeExecutionStack = [], waitingExecution = [], waitingExecutionSource = []\<rparr>"

lemma merge_inputs [simp]: "main_inputs merge_workflow ''m'' = [Some [to_input ''a'' 0], Some [to_input ''b'' 0]]"
  by (simp add: main_inputs_def merge_workflow_def own_or_def)

lemma merge_edges:
  "main_edges_of (connectionsByDestinationNode merge_workflow) =
    {(''a'', ''t''), (''b'', ''t''), (''m'', ''a''), (''m'', ''b'')}"
proof -
  have "followed (OfType Main) [(Main, slots)] =
      concat (map (\<lambda>slot. case slot of None \<Rightarrow> [] | Some cs \<Rightarrow> cs) slots)" for slots
    by (simp add: followed_def filter_types_def own_or_def)
  then show ?thesis
    unfolding conn_edges_def merge_workflow_def by (auto simp: to_input_def split: if_splits)
qed

lemma merge_readable:
  assumes "parent \<in> {''a'', ''b''}"
  shows "readable merge_workflow [] parent"
proof -
  have legacy: "\<not> isLegacyExecutionOrder merge_workflow"
    by (simp add: isLegacyExecutionOrder_def merge_workflow_def)
  have outputs: "output_nodes merge_workflow parent = [''m'']"
    using assms by (auto simp: output_nodes_def merge_workflow_def own_or_def slot_list_def to_input_def)
  have "\<exists>conns. firstInput merge_workflow ''m'' = Inr conns"
    by (simp add: firstInput_def merge_workflow_def)
  then have "\<forall>m. m \<in> set (output_nodes merge_workflow parent) \<or>
      isLegacyExecutionOrder merge_workflow \<and> map_get (connectionsByDestinationNode merge_workflow) m \<noteq> None \<longrightarrow>
      (\<exists>conns. firstInput merge_workflow m = Inr conns)"
    unfolding outputs using legacy by auto
  moreover have "map_get (connectionsBySourceNode merge_workflow) parent \<noteq> None"
    using assms by (auto simp: merge_workflow_def)
  moreover have "map_get (wf_nodes merge_workflow) x \<noteq> None" if "x \<in> {''t'', ''a'', ''b''}" for x
    using that by (auto simp: merge_workflow_def)
  ultimately show ?thesis
    unfolding readable_def merge_edges by (simp add: run_data_at_def)
qed


section \<open>Where data is lost or a node runs early\<close>

definition numbered :: "int \<Rightarrow> INodeExecutionData list" where
  "numbered k = [\<lparr>item_json = [(''n'', JNum k)], item_pairedItem = None, item_error = None\<rparr>]"

definition handTo :: "Workflow \<Rightarrow> string \<Rightarrow> string \<times> nat \<times> int \<Rightarrow> ExecutionStack \<Rightarrow> ExecutionStack result" where
  "handTo workflow name d st = (case d of (parent, i, k) \<Rightarrow>
     addNodeToBeExecuted workflow [] (to_input name i) 0 parent [Some (numbered k)] 0 None None st)"

text \<open>
  The index of a new waiting run is the number of runs that wait.  After a run was completed and
  removed, that index can belong to a run that still waits: \<open>a\<close> delivers twice, \<open>b\<close> completes the
  first run, and when \<open>a\<close> delivers again, the second delivery is overwritten.
\<close>

lemma waiting_run_overwritten:
  "rbind (rfold (handTo merge_workflow ''m'') [(''a'', 0, 1), (''a'', 0, 2), (''b'', 1, 3)] no_stack) (\<lambda>st. Inr (waitingExecution st)) =
     Inr [(''m'', [(1, [(Main, [Held (numbered 2), Null])])])]"
  "rbind (rfold (handTo merge_workflow ''m'') [(''a'', 0, 1), (''a'', 0, 2), (''b'', 1, 3), (''a'', 0, 4)] no_stack)
     (\<lambda>st. Inr (waitingExecution st)) =
     Inr [(''m'', [(1, [(Main, [Held (numbered 4), Null])])])]"
  by code_simp+

text \<open>
  \<open>recreateNodeExecutionStack\<close> leaves the array of a waiting run as long as the last input that
  has data, and \<open>addNodeToBeExecuted\<close> takes a run as complete when no entry of the array is
  \<open>null\<close>.  A node with three inputs of which only the first has data waits with an array of
  length one, and runs as soon as the second arrives.
\<close>

definition three_nodes :: "INode list" where
  "three_nodes = [sample_node 1 ''a'', sample_node 2 ''b'', sample_node 3 ''c'', sample_node 4 ''m'']"

definition three_graph :: DirectedGraph where
  "three_graph = sample_graph three_nodes
     [sample_conn (sample_node 1 ''a'') (sample_node 4 ''m''),
      (sample_conn (sample_node 2 ''b'') (sample_node 4 ''m''))\<lparr>inputIndex := 1\<rparr>,
      (sample_conn (sample_node 3 ''c'') (sample_node 4 ''m''))\<lparr>inputIndex := 2\<rparr>]"

definition three_workflow :: Workflow where
  "three_workflow =
     \<lparr>wf_nodes = map (\<lambda>n. (node_name n, n)) three_nodes,
      connectionsBySourceNode =
        [(''a'', [(Main, [Some [to_input ''m'' 0]])]), (''b'', [(Main, [Some [to_input ''m'' 1]])]),
         (''c'', [(Main, [Some [to_input ''m'' 2]])])],
      connectionsByDestinationNode =
        [(''m'', [(Main, [Some [to_input ''a'' 0], Some [to_input ''b'' 0], Some [to_input ''c'' 0]])])],
      wf_executionOrder = Some ''v1''\<rparr>"

lemma recreated_run_completes_early:
  "rbind (recreateNodeExecutionStack string_compare three_graph [sample_node 4 ''m''] [(''a'', [sample_task (numbered 1)])] [])
     (\<lambda>st. rbind (handTo three_workflow ''m'' (''b'', 1, 2) st) (\<lambda>st'.
        Inr (waitingExecution st, map exec_data (nodeExecutionStack st'), waitingExecution st'))) =
   Inr ([(''m'', [(0, [(Main, [Held (numbered 1)])])])], [[(Main, [Some (numbered 1), Some (numbered 2)])]], [])"
  by code_simp

text \<open>
  In the legacy order an input of a waiting node is added when it has no incoming data.  The test
  reads the main input of every node with incoming connections; an agent that has sub-nodes but
  no main input has none, and the call throws.
\<close>

definition agent_workflow :: Workflow where
  "agent_workflow =
     \<lparr>wf_nodes = [(''a'', sample_node 1 ''a''), (''g'', sample_node 2 ''g''), (''tool'', sample_node 3 ''tool''),
        (''m'', sample_node 4 ''m'')],
      connectionsBySourceNode =
        [(''a'', [(Main, [Some [to_input ''m'' 0]])]), (''g'', [(Main, [Some [to_input ''m'' 1]])]),
         (''tool'', [(AiTool, [Some [\<lparr>conn_node = ''g'', conn_type = AiTool, conn_index = 0\<rparr>]])])],
      connectionsByDestinationNode =
        [(''m'', [(Main, [Some [to_input ''a'' 0], Some [to_input ''g'' 0]])]),
         (''g'', [(AiTool, [Some [\<lparr>conn_node = ''tool'', conn_type = AiTool, conn_index = 0\<rparr>]])])],
      wf_executionOrder = None\<rparr>"

lemma legacy_agent_input_throws: "handTo agent_workflow ''m'' (''a'', 0, 1) no_stack = Inl TypeError"
  by code_simp

text \<open>The comparison of positions is not antisymmetric: of two nodes at the same height it calls
  neither greater.\<close>

lemma compare_position_not_antisymmetric:
  assumes "position_of workflow (snd a) = (0, y)" "position_of workflow (snd b) = (1, y)"
  shows "compare_position workflow a b = 0" "compare_position workflow b a = -1"
  using assms by (simp_all add: compare_position_def)

section \<open>The order of the outputs\<close>

lemma sorted_js_sort:
  assumes "\<And>a b. cmp b a < 0 \<longleftrightarrow> \<not> R a b" "\<And>a b. R a b \<or> R b a" "\<And>a b c. R a b \<Longrightarrow> R b c \<Longrightarrow> R a c"
  shows "sorted_wrt R (js_sort cmp xs)"
proof -
  have ins: "set (js_insert cmp x ys) = insert x (set ys)" for x ys
    by (induction ys) auto
  have "sorted_wrt R ys \<Longrightarrow> sorted_wrt R (js_insert cmp x ys)" for x ys
  proof (induction ys)
    case (Cons y ys)
    then show ?case
      using assms(2) [of x y] assms(3) [of x y] by (auto simp: assms(1) ins)
  qed simp
  then show ?thesis
    unfolding js_sort_def by (induction xs) auto
qed

text \<open>Nearer to the top, and at the same height nearer to the left.\<close>

definition top_left :: "int \<times> int \<Rightarrow> int \<times> int \<Rightarrow> bool" where
  "top_left p q \<longleftrightarrow> snd p < snd q \<or> snd p = snd q \<and> fst p \<le> fst q"

lemma sorted_positions:
  "sorted_wrt (\<lambda>a b. top_left (position_of workflow (snd b)) (position_of workflow (snd a)))
    (js_sort (compare_position workflow) ics)"
  by (rule sorted_js_sort) (auto simp: compare_position_def top_left_def split: prod.split)

definition direct_entry :: "Workflow \<Rightarrow> string \<Rightarrow> INodeExecutionData list option list \<Rightarrow> nat \<Rightarrow> nat \<times> IConnection \<Rightarrow> IExecuteData" where
  "direct_entry workflow name nodeSuccessData runIndex ic =
     \<lparr>exec_node = the (map_get (wf_nodes workflow) (conn_node (snd ic))),
      exec_data = [(Main, replicate (conn_index (snd ic)) None @ [nodeSuccessData ! fst ic])],
      exec_source = Some [(Main, [Some (sourceData name (fst ic) runIndex)])], exec_runIndex = None, exec_metadata = None\<rparr>"

lemma addNodeToBeExecuted_direct:
  assumes "numberOfInputs workflow (conn_node (snd ic)) \<le> 1" "destinationExists workflow (snd ic)"
    and "fst ic < length nodeSuccessData"
  shows "addNodeToBeExecuted workflow runData (snd ic) (fst ic) name nodeSuccessData runIndex None None st =
    Inr (enqueueFn workflow (direct_entry workflow name nodeSuccessData runIndex ic) st)"
  using assms by (auto simp: addNodeToBeExecuted_def deliver_def addDirectly_def direct_entry_def destinationExists_def)

text \<open>\<^bold>\<open>C35.\<close> 
  In the order \<open>v1\<close>, the outputs of a node that go to nodes with one input put one entry per
  connection that carries items in front of the stack, with the data of the output, and these
  entries run from the top left: a node nearer to the top runs first, at the same height the one
  nearer to the left.
\<close>
theorem addOutputs_top_left:
  assumes "\<not> isLegacyExecutionOrder workflow"
    and "\<forall>ic\<in>set (output_connections workflow name). destinationExists workflow (snd ic) \<and>
      numberOfInputs workflow (conn_node (snd ic)) \<le> 1"
  shows "\<exists>ics. addOutputs workflow runData name nodeSuccessData runIndex st =
      Inr (st\<lparr>nodeExecutionStack := map (direct_entry workflow name nodeSuccessData runIndex) ics @ nodeExecutionStack st\<rparr>) \<and>
    mset ics = mset (filter (outputAdds workflow nodeSuccessData) (output_connections workflow name)) \<and>
    sorted_wrt (\<lambda>a b. top_left (position_of workflow (snd a)) (position_of workflow (snd b))) ics"
proof -
  let ?added = "filter (outputAdds workflow nodeSuccessData) (output_connections workflow name)"
  let ?entry = "direct_entry workflow name nodeSuccessData runIndex"
  let ?sorted = "js_sort (compare_position workflow) ?added"
  have "rfold (\<lambda>(i, c). addNodeToBeExecuted workflow runData c i name nodeSuccessData runIndex None None) ics st =
      Inr (st\<lparr>nodeExecutionStack := rev (map ?entry ics) @ nodeExecutionStack st\<rparr>)" if "set ics \<subseteq> set ?added" for ics st
    using that
  proof (induction ics arbitrary: st)
    case (Cons ic ics)
    have "numberOfInputs workflow (conn_node (snd ic)) \<le> 1" "destinationExists workflow (snd ic)" "fst ic < length nodeSuccessData"
      using Cons.prems assms(2) by (auto simp: outputAdds_def)
    from addNodeToBeExecuted_direct [OF this] Cons assms(1) show ?case
      by (simp add: case_prod_unfold enqueueFn_def)
  qed simp
  then have "addOutputs workflow runData name nodeSuccessData runIndex st =
      Inr (st\<lparr>nodeExecutionStack := map ?entry (rev ?sorted) @ nodeExecutionStack st\<rparr>)"
    using assms by (auto simp: addOutputs_def rev_map)
  moreover have "sorted_wrt (\<lambda>a b. top_left (position_of workflow (snd a)) (position_of workflow (snd b))) (rev ?sorted)"
    using sorted_positions [of workflow ?added] by (simp add: sorted_wrt_rev)
  ultimately show ?thesis
    by (intro exI [of _ "rev ?sorted"]) simp
qed

theorem addOutputs_top_left_witness:
  "\<exists>ics. addOutputs merge_workflow [] ''t'' [Some [sample_item]] 0 no_stack =
      Inr (no_stack\<lparr>nodeExecutionStack := map (direct_entry merge_workflow ''t'' [Some [sample_item]] 0) ics @ []\<rparr>) \<and>
    mset ics = {#(0, to_input ''a'' 0), (0, to_input ''b'' 0)#}"
proof -
  have outs: "output_connections merge_workflow ''t'' = [(0, to_input ''a'' 0), (0, to_input ''b'' 0)]"
    and "\<not> isLegacyExecutionOrder merge_workflow"
    by (simp_all add: output_connections_def merge_workflow_def own_or_def slot_list_def isLegacyExecutionOrder_def)
  moreover have "destinationExists merge_workflow (to_input x 0) \<and> numberOfInputs merge_workflow (conn_node (to_input x 0)) \<le> 1"
    if "x \<in> {''a'', ''b''}" for x
    using that by (auto simp: destinationExists_def numberOfInputs_def main_inputs_def merge_workflow_def own_or_def to_input_def)
  ultimately show ?thesis
    using addOutputs_top_left [of merge_workflow "''t''" "[]" "[Some [sample_item]]" 0 no_stack]
    by (simp add: outs outputAdds_def no_stack_def) blast
qed

end
