(* ===== verification/Start_Node_Choice.thy ===== *)
theory Start_Node_Choice
  imports Node_Scheduling
begin

text \<open>
  The methods of the class \<open>Workflow\<close> that choose where an execution starts: \<open>queryNodes\<close>,
  \<open>getHighestNode\<close>, \<open>__getStartNode\<close> and \<open>getStartNode\<close>; and \<open>getNodeConnectionIndexes\<close>, whose
  search is in \<open>Workflow_Search\<close>.

  The registry of node types is the parameter \<open>nodeTypes\<close>: it gives for a node the properties of
  its type the code tests, or nothing for a type that is not known.  \<open>getHighestNode\<close> shares the
  array of checked nodes between its recursive calls; the model passes it on.
\<close>

section \<open>Definitions\<close>

record node_kind =
  kind_name :: string
  kind_execute :: bool
  kind_poll :: bool
  kind_trigger :: bool
  kind_webhook :: bool
  kind_supplyData :: bool
  kind_declarative :: bool

type_synonym node_types = "INode \<Rightarrow> node_kind option"

definition getNode :: "Workflow \<Rightarrow> string \<Rightarrow> INode option" where
  "getNode workflow nodeName = map_get (wf_nodes workflow) nodeName"

definition queryNodes :: "Workflow \<Rightarrow> node_types \<Rightarrow> (node_kind \<Rightarrow> bool) \<Rightarrow> INode list" where
  "queryNodes workflow nodeTypes checkFunction =
     filter (\<lambda>node. \<not> is_disabled node \<and> (case nodeTypes node of None \<Rightarrow> False | Some k \<Rightarrow> checkFunction k))
       (map_values (wf_nodes workflow))"

definition getTriggerNodes :: "Workflow \<Rightarrow> node_types \<Rightarrow> INode list" where
  "getTriggerNodes workflow nodeTypes = queryNodes workflow nodeTypes kind_trigger"

definition getPollNodes :: "Workflow \<Rightarrow> node_types \<Rightarrow> INode list" where
  "getPollNodes workflow nodeTypes = queryNodes workflow nodeTypes kind_poll"

subsection \<open>The highest nodes\<close>

text \<open>\<open>connectionsByDestinationNode[name].main\<close>, if it is there.\<close>

definition main_slots :: "Workflow \<Rightarrow> string \<Rightarrow> NodeInputConnections option" where
  "main_slots workflow name =
     (case map_get (connectionsByDestinationNode workflow) name of None \<Rightarrow> None | Some types \<Rightarrow> map_get types Main)"

definition currentHighest :: "Workflow \<Rightarrow> string \<Rightarrow> string list" where
  "currentHighest workflow name =
     (case getNode workflow name of Some node \<Rightarrow> if node_disabled node = Some False then [name] else [] | None \<Rightarrow> [])"

definition orSelf :: "Workflow \<Rightarrow> string \<Rightarrow> string list \<Rightarrow> string list" where
  "orSelf workflow name added =
     (case getNode workflow name of
        Some node \<Rightarrow> if added = [] \<and> node_disabled node \<noteq> Some True then [name] else added
      | None \<Rightarrow> added)"

text \<open>The loop over connections with the nodes found and the nodes checked so far.\<close>

function highestLoop :: "Workflow \<Rightarrow> IConnection list \<Rightarrow> string list \<Rightarrow> string list \<Rightarrow> string list \<times> string list" where
  "highestLoop workflow [] returnNodes checkedNodes = (returnNodes, checkedNodes)"
| "highestLoop workflow (c # cs) returnNodes checkedNodes =
     (let name = conn_node c
      in if name \<in> set checkedNodes \<or> getNode workflow name = None
         then highestLoop workflow cs returnNodes checkedNodes
         else
           (case main_slots workflow name of
              None \<Rightarrow>
                highestLoop workflow cs (fold set_add (orSelf workflow name (currentHighest workflow name)) returnNodes) checkedNodes
            | Some slots \<Rightarrow>
                (case highestLoop workflow (concat (map slot_list slots)) [] (checkedNodes @ [name]) of
                   (added, checked) \<Rightarrow>
                     highestLoop workflow cs (fold set_add (orSelf workflow name added) returnNodes) checked)))"
  by pat_completeness auto

lemma highestLoop_grows:
  "highestLoop_dom (workflow, cs, ret, checked) \<Longrightarrow> set checked \<subseteq> set (snd (highestLoop workflow cs ret checked))"
proof (induction workflow cs ret checked rule: highestLoop.pinduct)
  case (2 workflow c cs ret checked)
  then show ?case
    by (fastforce simp: highestLoop.psimps Let_def split: option.splits prod.splits)
qed (simp add: highestLoop.psimps)

text \<open>The nodes with incoming main connections that are not checked yet.\<close>

definition not_checked :: "Workflow \<Rightarrow> string list \<Rightarrow> nat" where
  "not_checked workflow checked = card (fst ` set (connectionsByDestinationNode workflow) - set checked)"

lemma main_slots_key: "main_slots workflow name = Some slots \<Longrightarrow> name \<in> fst ` set (connectionsByDestinationNode workflow)"
  by (force simp: main_slots_def dest: map_of_SomeD split: option.splits)

lemma not_checked_less:
  assumes "main_slots workflow name = Some slots" "name \<notin> set checked" "insert name (set checked) \<subseteq> set checked'"
  shows "not_checked workflow checked' < not_checked workflow checked"
  unfolding not_checked_def
proof (rule psubset_card_mono)
  have "name \<in> fst ` set (connectionsByDestinationNode workflow) - set checked"
    using main_slots_key [OF assms(1)] assms(2) by simp
  with assms(3) show "fst ` set (connectionsByDestinationNode workflow) - set checked' \<subset>
      fst ` set (connectionsByDestinationNode workflow) - set checked"
    by blast
qed simp

termination highestLoop
proof (relation "measures [\<lambda>(workflow, cs, ret, checked). not_checked workflow checked, \<lambda>(workflow, cs, ret, checked). length cs]", goal_cases)
  case (4 workflow c cs ret checked name slots)
  then show ?case
    using not_checked_less [of workflow name slots checked "checked @ [name]"] by simp
next
  case (5 workflow c cs ret checked name slots added checked')
  then have "set (checked @ [name]) \<subseteq> set checked'"
    using highestLoop_grows [of workflow "concat (map slot_list slots)" "[]" "checked @ [name]"] by (metis snd_conv)
  then show ?case
    using not_checked_less [of workflow name slots checked checked'] 5 by simp
qed auto

definition getHighestNode :: "Workflow \<Rightarrow> string \<Rightarrow> nat option \<Rightarrow> string list" where
  "getHighestNode workflow nodeName nodeConnectionIndex =
     (if getNode workflow nodeName = None then []
      else
        (case main_slots workflow nodeName of
           None \<Rightarrow> currentHighest workflow nodeName
         | Some slots \<Rightarrow>
             let connections = (case nodeConnectionIndex of
                   None \<Rightarrow> concat (map slot_list slots)
                 | Some i \<Rightarrow> if i < length slots then slot_list (slots ! i) else [])
             in fst (highestLoop workflow connections [] [nodeName])))"

declare highestLoop.simps(2) [simp del]

subsection \<open>The start node\<close>

definition STARTING_NODE_TYPES :: "string list" where
  "STARTING_NODE_TYPES =
     [''n8n-nodes-base.manualTrigger'', ''n8n-nodes-base.executeWorkflowTrigger'', ''n8n-nodes-base.errorTrigger'',
      ''n8n-nodes-base.evaluationTrigger'', ''n8n-nodes-base.formTrigger'']"

definition MANUAL_CHAT_TRIGGER :: string where
  "MANUAL_CHAT_TRIGGER = ''@n8n/n8n-nodes-langchain.manualChatTrigger''"

definition indexOf :: "'a list \<Rightarrow> 'a \<Rightarrow> int" where
  "indexOf xs x = (case findIndex (\<lambda>y. y = x) xs of None \<Rightarrow> -1 | Some i \<Rightarrow> int i)"

text \<open>The first trigger or poll node of the list that is not disabled.  The type of every node up to
  it is read, so a node or a type that is missing throws.\<close>

fun firstTrigger :: "Workflow \<Rightarrow> node_types \<Rightarrow> string list \<Rightarrow> INode option result" where
  "firstTrigger workflow nodeTypes [] = Inr None"
| "firstTrigger workflow nodeTypes (name # names) =
     (case getNode workflow name of
        None \<Rightarrow> Inl TypeError
      | Some node \<Rightarrow>
          (case nodeTypes node of
             None \<Rightarrow> Inl TypeError
           | Some k \<Rightarrow>
               if kind_name k \<noteq> MANUAL_CHAT_TRIGGER \<and> (kind_trigger k \<or> kind_poll k) \<and> \<not> is_disabled node
               then Inr (Some node)
               else firstTrigger workflow nodeTypes names))"

fun firstStarting :: "Workflow \<Rightarrow> string list \<Rightarrow> INode option result" where
  "firstStarting workflow [] = Inr None"
| "firstStarting workflow (name # names) =
     (case getNode workflow name of
        None \<Rightarrow> Inl TypeError
      | Some node \<Rightarrow>
          if node_type node \<in> set STARTING_NODE_TYPES \<and> \<not> is_disabled node then Inr (Some node)
          else firstStarting workflow names)"

definition sortedNodeNames :: "Workflow \<Rightarrow> string list" where
  "sortedNodeNames workflow =
     map node_name (js_sort (\<lambda>a b. indexOf STARTING_NODE_TYPES (node_type a) - indexOf STARTING_NODE_TYPES (node_type b))
       (map_values (wf_nodes workflow)))"

definition onlyNode :: "Workflow \<Rightarrow> string list \<Rightarrow> INode option" where
  "onlyNode workflow nodeNames =
     (case nodeNames of
        [name] \<Rightarrow> (case getNode workflow name of
            Some node \<Rightarrow> if is_disabled node then None else Some node
          | None \<Rightarrow> None)
      | _ \<Rightarrow> None)"

definition getStartNode_of :: "Workflow \<Rightarrow> node_types \<Rightarrow> string list \<Rightarrow> INode option result" where
  "getStartNode_of workflow nodeTypes nodeNames =
     (case onlyNode workflow nodeNames of
        Some node \<Rightarrow> Inr (Some node)
      | None \<Rightarrow>
          rbind (firstTrigger workflow nodeTypes nodeNames) (\<lambda>found.
            case found of
              Some node \<Rightarrow> Inr (Some node)
            | None \<Rightarrow> firstStarting workflow (sortedNodeNames workflow)))"

definition getStartNode :: "Workflow \<Rightarrow> node_types \<Rightarrow> string option \<Rightarrow> INode option result" where
  "getStartNode workflow nodeTypes destinationNode =
     (case destinationNode of
        Some dest \<Rightarrow>
          let highest = getHighestNode workflow dest None;
              nodeNames = (if highest = [] then [dest] else highest)
          in rbind (getStartNode_of workflow nodeTypes nodeNames) (\<lambda>found.
               case found of
                 Some node \<Rightarrow> Inr (Some node)
               | None \<Rightarrow> Inr (getNode workflow (hd nodeNames)))
      | None \<Rightarrow> getStartNode_of workflow nodeTypes (map_keys (wf_nodes workflow)))"

subsection \<open>The indexes of a connection\<close>

definition getNodeConnectionIndexes :: "Workflow \<Rightarrow> string \<Rightarrow> string \<Rightarrow> NodeConnectionType \<Rightarrow> INodeConnection option" where
  "getNodeConnectionIndexes workflow nodeName parentNodeName t =
     (if getNode workflow parentNodeName = None then None
      else indexLoop (connectionsByDestinationNode workflow) t parentNodeName [] [nodeName])"

text \<open>Indexes are found exactly if the parent exists and lies above the node over connections of the
  type; they are those of a connection from the parent to the node or to a node above it.\<close>

lemma getNodeConnectionIndexes_correct:
  fixes t :: NodeConnectionType
  assumes "getNode workflow p \<noteq> None"
  defines "E \<equiv> typed_edges (connectionsByDestinationNode workflow) t"
  shows "(getNodeConnectionIndexes workflow n p t \<noteq> None \<longleftrightarrow> (n, p) \<in> E\<^sup>+) \<and>
    (\<forall>r. getNodeConnectionIndexes workflow n p t = Some r \<longrightarrow>
       (\<exists>m c. (n, m) \<in> E\<^sup>* \<and> connection_at (connectionsByDestinationNode workflow) t m (destinationIndex r) c \<and>
          conn_node c = p \<and> conn_index c = sourceIndex r))"
proof -
  let ?C = "connectionsByDestinationNode workflow"
  have call: "getNodeConnectionIndexes workflow n p t = indexLoop ?C t p [] [n]"
    using assms(1) by (auto simp: getNodeConnectionIndexes_def)
  show ?thesis
  proof (cases "indexLoop ?C t p [] [n]")
    case None
    with index_search_correct [where conns = ?C and t = t and p = p and n = n] call show ?thesis
      by (simp add: E_def)
  next
    case (Some r)
    with index_search_correct [where conns = ?C and t = t and p = p and n = n] obtain m i c where "(n, m) \<in> E\<^sup>*" "connection_at ?C t m i c" "conn_node c = p"
      "r = \<lparr>sourceIndex = conn_index c, destinationIndex = i\<rparr>"
      by (auto simp: E_def)
    moreover from this have "(m, p) \<in> E"
      by (auto simp: E_def typed_edges_def)
    ultimately show ?thesis
      using call Some by (auto intro: rtrancl_into_trancl1)
  qed
qed

section \<open>What the highest nodes are\<close>

text \<open>Nodes above a node: parents over main connections, at any distance.\<close>

definition above :: "Workflow \<Rightarrow> string \<Rightarrow> string \<Rightarrow> bool" where
  "above workflow n m \<longleftrightarrow> (n, m) \<in> (main_edges_of (connectionsByDestinationNode workflow))\<^sup>+"

lemma main_slots_edges:
  "main_slots workflow n = Some slots \<Longrightarrow>
    c \<in> set (concat (map slot_list slots)) \<Longrightarrow> (n, conn_node c) \<in> main_edges_of (connectionsByDestinationNode workflow)"
  by (auto simp: main_slots_def main_edges_iff main_connections_def followed_def filter_types_def own_or_def
      slot_list_def image_iff split: option.splits)

definition enabled_at :: "Workflow \<Rightarrow> string \<Rightarrow> bool" where
  "enabled_at workflow n \<longleftrightarrow> (\<exists>node. getNode workflow n = Some node \<and> \<not> is_disabled node)"

lemma set_orSelf:
  "set (orSelf workflow n added) \<subseteq> set added \<union> (if enabled_at workflow n then {n} else {})"
  by (auto simp: orSelf_def enabled_at_def split: option.splits)

lemma set_currentHighest: "set (currentHighest workflow n) \<subseteq> (if enabled_at workflow n then {n} else {})"
  by (auto simp: currentHighest_def enabled_at_def split: option.splits)

lemma highestLoop_above:
  assumes "\<forall>c\<in>set cs. above workflow n (conn_node c)"
  shows "\<forall>m\<in>set (fst (highestLoop workflow cs ret checked)). m \<in> set ret \<or> above workflow n m \<and> enabled_at workflow m"
  using assms
proof (induction workflow cs ret checked rule: highestLoop.induct)
  case (2 workflow c cs ret checked)
  let ?m = "conn_node c"
  show ?case
  proof (cases "?m \<in> set checked \<or> getNode workflow ?m = None")
    case True
    with 2(1) [OF refl True] 2(5) show ?thesis
      by (simp add: highestLoop.simps(2))
  next
    case False
    show ?thesis
    proof (cases "main_slots workflow ?m")
      case None
      have "set (orSelf workflow ?m (currentHighest workflow ?m)) \<subseteq> (if enabled_at workflow ?m then {?m} else {})"
        using set_orSelf [of workflow ?m] set_currentHighest [of workflow ?m] by fastforce
      moreover have "highestLoop workflow (c # cs) ret checked = highestLoop workflow cs
          (fold set_add (orSelf workflow ?m (currentHighest workflow ?m)) ret) checked"
        using False None by (auto simp: highestLoop.simps(2) Let_def)
      ultimately show ?thesis
        using 2(2) [OF refl False None] 2(5) by (auto simp: set_fold_set_add split: if_splits)
    next
      case (Some slots)
      obtain added checked' where inner: "highestLoop workflow (concat (map slot_list slots)) [] (checked @ [?m]) = (added, checked')"
        by fastforce
      have "\<forall>d\<in>set (concat (map slot_list slots)). above workflow n (conn_node d)"
        using main_slots_edges [OF Some] 2(5) unfolding above_def by (meson list.set_intros(1) trancl.trancl_into_trancl)
      from 2(3) [OF refl False Some this] inner have "\<forall>m\<in>set added. above workflow n m \<and> enabled_at workflow m"
        by simp
      then have "\<forall>m\<in>set (orSelf workflow ?m added). above workflow n m \<and> enabled_at workflow m"
        using set_orSelf [of workflow ?m added] 2(5) by (fastforce split: if_splits)
      moreover have "highestLoop workflow (c # cs) ret checked = highestLoop workflow cs
          (fold set_add (orSelf workflow ?m added) ret) checked'"
        using False Some inner by (auto simp: highestLoop.simps(2) Let_def)
      ultimately show ?thesis
        using 2(4) [OF refl False Some inner [symmetric]] 2(5) by (auto simp: set_fold_set_add)
    qed
  qed
qed simp

lemma getHighestNode_above:
  assumes "m \<in> set (getHighestNode workflow n i)"
  shows "enabled_at workflow m \<and> (m = n \<or> above workflow n m)"
proof (cases "main_slots workflow n")
  case None
  with assms set_currentHighest [of workflow n] show ?thesis
    by (auto simp: getHighestNode_def split: if_splits)
next
  case (Some slots)
  let ?cs = "case i of None \<Rightarrow> concat (map slot_list slots) | Some i \<Rightarrow> if i < length slots then slot_list (slots ! i) else []"
  have "set ?cs \<subseteq> set (concat (map slot_list slots))"
    by (auto split: option.splits intro: nth_mem)
  then have "\<forall>c\<in>set ?cs. above workflow n (conn_node c)"
    using main_slots_edges [OF Some] unfolding above_def by blast
  from highestLoop_above [OF this, of "[]" "[n]"] assms Some show ?thesis
    by (auto simp: getHighestNode_def Let_def split: if_splits)
qed

section \<open>The start node of a whole workflow\<close>

text \<open>The nodes a workflow can be started from when no destination is given.\<close>

definition triggers :: "node_types \<Rightarrow> INode \<Rightarrow> bool" where
  "triggers nodeTypes node \<longleftrightarrow>
     (\<exists>k. nodeTypes node = Some k \<and> kind_name k \<noteq> MANUAL_CHAT_TRIGGER \<and> (kind_trigger k \<or> kind_poll k))"

definition startable :: "Workflow \<Rightarrow> node_types \<Rightarrow> INode \<Rightarrow> bool" where
  "startable workflow nodeTypes node \<longleftrightarrow> node \<in> set (map_values (wf_nodes workflow)) \<and> \<not> is_disabled node \<and>
     (length (wf_nodes workflow) = 1 \<or> triggers nodeTypes node \<or> node_type node \<in> set STARTING_NODE_TYPES)"

definition nodes_named :: "Workflow \<Rightarrow> bool" where
  "nodes_named workflow \<longleftrightarrow> distinct (map_keys (wf_nodes workflow)) \<and> (\<forall>(name, node)\<in>set (wf_nodes workflow). node_name node = name)"

text \<open>A search through names for an enabled node with a property, and its two results.\<close>

definition found_in :: "Workflow \<Rightarrow> string list \<Rightarrow> (INode \<Rightarrow> bool) \<Rightarrow> INode option \<Rightarrow> bool" where
  "found_in workflow names P found \<longleftrightarrow>
     (case found of
        Some node \<Rightarrow> \<exists>name\<in>set names. getNode workflow name = Some node \<and> P node \<and> \<not> is_disabled node
      | None \<Rightarrow> \<forall>name\<in>set names. \<forall>node. getNode workflow name = Some node \<and> P node \<longrightarrow> is_disabled node)"

lemma found_in_Cons:
  assumes "getNode workflow name = Some node"
  shows "P node \<and> \<not> is_disabled node \<Longrightarrow> found_in workflow (name # names) P (Some node)"
    and "\<not> (P node \<and> \<not> is_disabled node) \<Longrightarrow> found_in workflow names P found \<Longrightarrow> found_in workflow (name # names) P found"
  using assms by (auto simp: found_in_def split: option.splits)

lemma firstTrigger_result:
  assumes "\<forall>name\<in>set names. \<exists>node. getNode workflow name = Some node \<and> nodeTypes node \<noteq> None"
  shows "\<exists>found. firstTrigger workflow nodeTypes names = Inr found \<and> found_in workflow names (triggers nodeTypes) found"
  using assms
proof (induction names)
  case (Cons name names)
  then obtain node k where k: "getNode workflow name = Some node" "nodeTypes node = Some k"
    by auto
  then have "triggers nodeTypes node \<longleftrightarrow> kind_name k \<noteq> MANUAL_CHAT_TRIGGER \<and> (kind_trigger k \<or> kind_poll k)"
    by (simp add: triggers_def)
  with Cons k found_in_Cons [OF k(1)] show ?case
    by auto
qed (simp add: found_in_def)

lemma firstStarting_result:
  assumes "\<forall>name\<in>set names. \<exists>node. getNode workflow name = Some node"
  shows "\<exists>found. firstStarting workflow names = Inr found \<and>
    found_in workflow names (\<lambda>node. node_type node \<in> set STARTING_NODE_TYPES) found"
  using assms
proof (induction names)
  case (Cons name names)
  then obtain node where node: "getNode workflow name = Some node"
    by auto
  with Cons found_in_Cons [OF node] show ?case
    by auto
qed (simp add: found_in_def)

lemma nodes_named_get:
  assumes "nodes_named workflow" "node \<in> set (map_values (wf_nodes workflow))"
  shows "getNode workflow (node_name node) = Some node"
  using assms by (auto simp: nodes_named_def getNode_def)

lemma getNode_value: "getNode workflow name = Some node \<Longrightarrow> node \<in> set (map_values (wf_nodes workflow))"
  by (force simp: getNode_def dest: map_of_SomeD)

lemma onlyNode_all:
  assumes "nodes_named workflow"
  shows "case onlyNode workflow (map_keys (wf_nodes workflow)) of
    Some node \<Rightarrow> node \<in> set (map_values (wf_nodes workflow)) \<and> \<not> is_disabled node \<and> length (wf_nodes workflow) = 1
  | None \<Rightarrow> length (wf_nodes workflow) = 1 \<longrightarrow> (\<forall>node\<in>set (map_values (wf_nodes workflow)). is_disabled node)"
proof (cases "length (wf_nodes workflow) = 1")
  case True
  then obtain name node where "wf_nodes workflow = [(name, node)]"
    by (auto simp: length_Suc_conv)
  then show ?thesis
    by (auto simp: onlyNode_def getNode_def)
next
  case False
  then show ?thesis
    by (auto simp: onlyNode_def split: list.splits)
qed

text \<open>\<^bold>\<open>C36.\<close> 
  The start node of a workflow without destination: the search returns, and it finds a node that
  is enabled and can start the workflow, being the only node, a trigger or poll node other than
  the manual chat trigger, or of one of the starting types; it finds none only if there is none.
\<close>
theorem getStartNode_correct:
  assumes "nodes_named workflow" "\<forall>node\<in>set (map_values (wf_nodes workflow)). nodeTypes node \<noteq> None"
  shows "\<exists>found. getStartNode workflow nodeTypes None = Inr found \<and>
    (case found of
       Some node \<Rightarrow> startable workflow nodeTypes node
     | None \<Rightarrow> \<forall>node. \<not> startable workflow nodeTypes node)"
proof (cases "onlyNode workflow (map_keys (wf_nodes workflow))")
  case (Some node)
  with onlyNode_all [OF assms(1)] show ?thesis
    by (intro exI [of _ "Some node"]) (simp add: getStartNode_def getStartNode_of_def startable_def)
next
  case None
  let ?keys = "map_keys (wf_nodes workflow)" and ?nodes = "map_values (wf_nodes workflow)"
  have "\<forall>name\<in>set ?keys. \<exists>node. getNode workflow name = Some node \<and> nodeTypes node \<noteq> None"
    using assms(2) getNode_value by (force simp: getNode_def dest: weak_map_of_SomeI)
  then obtain trigger where trigger: "firstTrigger workflow nodeTypes ?keys = Inr trigger"
    "found_in workflow ?keys (triggers nodeTypes) trigger"
    using firstTrigger_result by blast
  have "\<forall>name\<in>set (sortedNodeNames workflow). \<exists>node. getNode workflow name = Some node"
    using nodes_named_get [OF assms(1)] by (auto simp: sortedNodeNames_def)
  then obtain starting where starting: "firstStarting workflow (sortedNodeNames workflow) = Inr starting"
    "found_in workflow (sortedNodeNames workflow) (\<lambda>node. node_type node \<in> set STARTING_NODE_TYPES) starting"
    using firstStarting_result by blast
  have call: "getStartNode workflow nodeTypes None = Inr (case trigger of None \<Rightarrow> starting | Some node \<Rightarrow> Some node)"
    using None trigger(1) starting(1) by (simp add: getStartNode_def getStartNode_of_def split: option.split)
  have "\<not> startable workflow nodeTypes node" if none: "trigger = None" "starting = None" for node
  proof
    assume node: "startable workflow nodeTypes node"
    then have get: "getNode workflow (node_name node) = Some node" "node \<in> set ?nodes"
      using nodes_named_get [OF assms(1)] by (auto simp: startable_def)
    moreover have "node_name node \<in> set ?keys" "node_name node \<in> set (sortedNodeNames workflow)"
      using get by (force simp: getNode_def sortedNodeNames_def dest: map_of_SomeD)+
    moreover note node trigger(2) starting(2) none onlyNode_all [OF assms(1)] None
    ultimately show False
      by (auto simp: startable_def found_in_def)
  qed
  moreover have "startable workflow nodeTypes node" if "trigger = Some node \<or> starting = Some node" for node
    using that trigger(2) starting(2) getNode_value by (auto simp: startable_def found_in_def)
  ultimately show ?thesis
    unfolding call by (cases trigger; cases starting) auto
qed

definition all_triggers :: node_types where
  "all_triggers node = Some \<lparr>kind_name = node_type node, kind_execute = False, kind_poll = False, kind_trigger = True,
     kind_webhook = False, kind_supplyData = False, kind_declarative = False\<rparr>"

theorem getStartNode_correct_witness:
  "\<exists>found. getStartNode merge_workflow all_triggers None = Inr found \<and>
    (case found of
       Some node \<Rightarrow> startable merge_workflow all_triggers node
     | None \<Rightarrow> \<forall>node. \<not> startable merge_workflow all_triggers node)"
  by (rule getStartNode_correct)
    (simp_all add: nodes_named_def merge_workflow_def sample_node_def all_triggers_def)

text \<open>
  A comment says that a node that is not disabled is itself the highest.  The code asks whether
  \<open>disabled\<close> is \<open>false\<close>; where the property is missing, as it is on most nodes, the list is empty.
\<close>

lemma highest_of_enabled_node: "getHighestNode merge_workflow ''t'' None = []"
  by code_simp

end
