(* ===== verification/Waiting_Nodes.thy ===== *)
theory Waiting_Nodes
  imports Node_Scheduling
begin

text \<open>
  What the pass over the waiting nodes of \<^verbatim>\<open>workflow-execute.ts\<close> achieves: it ends, it
  puts at most one node on the empty stack, and when it puts none there, every node that still
  waits is blocked for one of the reasons the code names.  From this it follows that waiting nodes
  are not forgotten: unless a waiting node requires inputs or lies on a cycle, the pass ends with
  a node to run or with no node waiting.
\<close>

section \<open>A step of the pass\<close>

lemma firstRunIndex_in: "keys \<noteq> [] \<Longrightarrow> firstRunIndex keys \<in> set keys"
proof -
  assume "keys \<noteq> []"
  then have "js_sort string_compare (map nat_to_string keys) \<noteq> []"
    by (metis map_is_Nil_conv mset_js_sort mset_zero_iff)
  then have "hd (js_sort string_compare (map nat_to_string keys)) \<in> nat_to_string ` set keys"
    using hd_in_set by fastforce
  then show ?thesis
    by (auto simp: firstRunIndex_def string_to_nat_inverse)
qed

text \<open>Why a waiting node cannot be released.\<close>

definition required_of :: "Workflow \<Rightarrow> input_rules \<Rightarrow> INode \<Rightarrow> required_inputs option" where
  "required_of workflow rules node = (if isLegacyExecutionOrder workflow then None else requiredInputs rules node)"

definition waiting_names :: "ExecutionStack \<Rightarrow> string set" where
  "waiting_names st = set (map_keys (waitingExecution st))"

definition blocked :: "Workflow \<Rightarrow> input_rules \<Rightarrow> ExecutionStack \<Rightarrow> string \<Rightarrow> bool" where
  "blocked workflow rules st n \<longleftrightarrow>
     (case map_get (wf_nodes workflow) n of
        None \<Rightarrow> True
      | Some node \<Rightarrow>
          allRequired (inputCount rules node) (required_of workflow rules node) \<or>
          (\<exists>p\<in>waiting_names st. p \<noteq> n \<and> (n, p) \<in> (main_edges_of (connectionsByDestinationNode workflow))\<^sup>+) \<or>
          (\<exists>xs. waiting_main (waitingExecution st) n (firstRunIndex (map fst (own_or [] (waitingExecution st) n))) = Inr xs \<and>
             \<not> requiredPresent (required_of workflow rules node) (inputsWithData xs)))"

lemma parents_trancl:
  "p \<in> set (getParentNodes D n (OfType Main) (-1)) \<Longrightarrow> p \<noteq> n \<and> (n, p) \<in> (main_edges_of D)\<^sup>+"
  by (auto simp: getParentNodes_def getConnectedNodes_reach relpow_imp_rtrancl rtrancl_eq_or_trancl
      dest!: relpow_imp_rtrancl)

lemma waiting_ok_first:
  assumes "waiting_ok workflow st" "n \<in> waiting_names st"
  shows "\<exists>xs sources. own_or [] (waitingExecution st) n \<noteq> [] \<and>
    waiting_main (waitingExecution st) n (firstRunIndex (map fst (own_or [] (waitingExecution st) n))) = Inr xs \<and>
    map_get (waitingExecutionSource st) n = Some sources"
proof -
  obtain runs where runs: "map_get (waitingExecution st) n = Some runs"
    using assms(2) by (auto simp: waiting_names_def dest: weak_map_of_SomeI)
  then obtain sources where s: "map_get (waitingExecutionSource st) n = Some sources"
    "runs_ok (numberOfInputs workflow n) runs sources"
    using assms(1) by (auto simp: waiting_ok_def)
  then have "runs \<noteq> []" "distinct (map fst runs)"
    by (auto simp: runs_ok_def intro: sorted_distinct)
  then have "firstRunIndex (map fst runs) \<in> fst ` set runs"
    using firstRunIndex_in [of "map fst runs"] by simp
  then obtain e where e: "map_get runs (firstRunIndex (map fst runs)) = Some e"
    by (metis map_of_eq_None_iff option.exhaust)
  with s(2) obtain xs where "e = [(Main, xs)]"
    unfolding runs_ok_def entry_ok_def by blast
  moreover have own: "own_or [] (waitingExecution st) n = runs"
    using runs by (simp add: own_or_def)
  ultimately have "waiting_main (waitingExecution st) n (firstRunIndex (map fst runs)) = Inr xs"
    using e by (intro waiting_main_single) simp
  with own s(1) \<open>runs \<noteq> []\<close> show ?thesis
    by simp
qed

text \<open>A step returns; it skips only a blocked node; what it changes keeps the waiting executions
  well-formed, and a released node carries items.\<close>

lemma waiting_names_delete: "waiting_names (delete_run n r st) \<subseteq> waiting_names st \<union> {n}"
  by (auto simp: waiting_names_def delete_run_def Let_def AList.delete_eq dom_update)

lemma carries_items_Held: "carries_items xs \<Longrightarrow> \<exists>ys. Held ys \<in> set xs \<and> ys \<noteq> []"
proof (induction xs)
  case (Cons x xs)
  then show ?case
    by (cases x) (auto simp: carries_items_def)
qed (simp add: carries_items_def)

lemma carried_released:
  assumes "carries_items (map null_to_empty xs)"
    and "exec_data e = [(Main, map slot_value (pad_inputs k (map null_to_empty xs)))]"
  shows "\<exists>(i, items)\<in>#carried e. items \<noteq> []"
proof -
  let ?ds = "map slot_value (pad_inputs k (map null_to_empty xs))"
  obtain ys where "Held ys \<in> set (map null_to_empty xs)" and ys: "ys \<noteq> []"
    using carries_items_Held [OF assms(1)] by blast
  then obtain i where i: "i < length xs" "null_to_empty (xs ! i) = Held ys"
    by (auto simp: in_set_conv_nth)
  then have "?ds ! i = Some ys" "i < length ?ds"
    by (simp_all add: pad_inputs_def nth_append)
  then have "(i, ys) \<in># (\<Sum>i<length ?ds. case ?ds ! i of None \<Rightarrow> {#} | Some items \<Rightarrow> {#(i, items)#})"
    by (subst sum.remove [of _ i]) auto
  then show ?thesis
    using assms(2) ys by (auto simp: carried_def own_or_def)
qed

lemma tryRelease_ok:
  assumes "waiting_ok workflow st" "n \<in> waiting_names st"
  shows "\<exists>res. tryRelease workflow rules (map_keys (waitingExecution st)) n st = Inr res \<and>
    (res = Skipped \<longrightarrow> blocked workflow rules st n) \<and>
    (\<forall>st'. res = Emptied st' \<longrightarrow> waiting_ok workflow st' \<and> nodeExecutionStack st' = nodeExecutionStack st \<and>
       waiting_names st' \<subseteq> waiting_names st) \<and>
    (\<forall>st'. res = Released st' \<longrightarrow> waiting_ok workflow st' \<and>
       (\<exists>e. nodeExecutionStack st' = nodeExecutionStack st @ [e] \<and> (\<exists>(i, items)\<in>#carried e. items \<noteq> [])))"
proof (cases "map_get (wf_nodes workflow) n")
  case None
  then show ?thesis
    by (simp add: tryRelease_def blocked_def)
next
  case (Some node)
  let ?req = "required_of workflow rules node"
  let ?r = "firstRunIndex (map fst (own_or [] (waitingExecution st) n))"
  obtain xs sources where first: "own_or [] (waitingExecution st) n \<noteq> []"
    "waiting_main (waitingExecution st) n ?r = Inr xs" "map_get (waitingExecutionSource st) n = Some sources"
    using waiting_ok_first [OF assms] by blast
  have step: "tryRelease workflow rules (map_keys (waitingExecution st)) n st =
    (if allRequired (inputCount rules node) ?req then Inr Skipped
     else if \<exists>p\<in>set (getParentNodes (connectionsByDestinationNode workflow) n (OfType Main) (-1)). p \<in> waiting_names st
     then Inr Skipped
     else if \<not> requiredPresent ?req (inputsWithData xs) then Inr Skipped
     else releaseRun (inputCount rules node) node n ?r xs st)"
    using Some first(1,2) by (simp add: tryRelease_def required_of_def waiting_names_def)
  consider (skip) "tryRelease workflow rules (map_keys (waitingExecution st)) n st = Inr Skipped" "blocked workflow rules st n"
    | (release) "tryRelease workflow rules (map_keys (waitingExecution st)) n st = releaseRun (inputCount rules node) node n ?r xs st"
    using Some first(2) parents_trancl unfolding step blocked_def by (fastforce split: if_splits)
  then show ?thesis
  proof cases
    case release
    have "waiting_ok workflow (delete_run n ?r st)" "waiting_names (delete_run n ?r st) \<subseteq> waiting_names st"
      using waiting_ok_delete_run [OF assms(1)] waiting_names_delete [of n ?r st] assms(2) by auto
    moreover have "nodeExecutionStack (delete_run n ?r st) = nodeExecutionStack st"
      by (simp add: delete_run_def Let_def)
    ultimately show ?thesis
      unfolding release releaseRun_def using first(3) carried_released by (auto simp: Let_def)
  qed simp
qed

section \<open>The pass\<close>

lemma releaseLoop_ok:
  assumes "waiting_ok workflow st" "waitingNodes = map_keys (waitingExecution st)" "set rest \<subseteq> set waitingNodes"
    and "\<forall>n\<in>set waitingNodes - set rest. blocked workflow rules st n"
  shows "\<exists>st'. releaseLoop workflow rules waitingNodes rest st = Inr st' \<and> waiting_ok workflow st' \<and>
    (nodeExecutionStack st' = nodeExecutionStack st \<and> waiting_names st' \<subseteq> waiting_names st \<and>
       (\<forall>n\<in>waiting_names st'. blocked workflow rules st' n) \<or>
     (\<exists>e. nodeExecutionStack st' = nodeExecutionStack st @ [e] \<and> (\<exists>(i, items)\<in>#carried e. items \<noteq> [])))"
  using assms
proof (induction workflow rules waitingNodes rest st rule: releaseLoop.induct)
  case (1 workflow rules waitingNodes st)
  then show ?case
    by (simp add: waiting_names_def)
next
  case (2 workflow rules waitingNodes n rest st)
  have "n \<in> waiting_names st"
    using 2(4,5) by (auto simp: waiting_names_def)
  from tryRelease_ok [OF 2(3) this, of rules] obtain res where
    res: "tryRelease workflow rules waitingNodes n st = Inr res"
    and skipped: "res = Skipped \<Longrightarrow> blocked workflow rules st n"
    and emptied: "\<And>st'. res = Emptied st' \<Longrightarrow> waiting_ok workflow st' \<and> nodeExecutionStack st' = nodeExecutionStack st \<and>
       waiting_names st' \<subseteq> waiting_names st"
    and released: "\<And>st'. res = Released st' \<Longrightarrow> waiting_ok workflow st' \<and>
       (\<exists>e. nodeExecutionStack st' = nodeExecutionStack st @ [e] \<and> (\<exists>(i, items)\<in>#carried e. items \<noteq> []))"
    using 2(4) by blast
  show ?case
  proof (cases res)
    case Skipped
    have "releaseLoop workflow rules waitingNodes (n # rest) st = releaseLoop workflow rules waitingNodes rest st"
      using res Skipped by simp
    moreover have "\<forall>m\<in>set waitingNodes - set rest. blocked workflow rules st m"
      using 2(6) skipped [OF Skipped] by auto
    ultimately show ?thesis
      using 2(1) [OF res Skipped 2(3,4)] 2(5) by simp
  next
    case (Released st')
    with res released [OF Released] show ?thesis
      by simp
  next
    case (Emptied st')
    have "releaseLoop workflow rules waitingNodes (n # rest) st =
        releaseLoop workflow rules (map_keys (waitingExecution st')) (map_keys (waitingExecution st')) st'"
      using res Emptied by simp
    with 2(2) [OF res Emptied] emptied [OF Emptied] show ?thesis
      by fastforce
  qed
qed

text \<open>\<^bold>\<open>C34.\<close> 
  When the stack has run empty, the pass over the waiting nodes ends, keeps the waiting runs
  well-formed, and either puts one node on the stack, with items at some input, or leaves the
  stack empty, and then every node that still waits is missing from the workflow, requires all
  its inputs, lacks a required input, or has a parent that waits too.
\<close>
theorem releaseWaiting_correct:
  assumes "waiting_ok workflow st" "nodeExecutionStack st = []"
  shows "\<exists>st'. releaseWaiting workflow rules st = Inr st' \<and> waiting_ok workflow st' \<and>
    (nodeExecutionStack st' = [] \<and> (\<forall>n\<in>waiting_names st'. blocked workflow rules st' n) \<or>
     (\<exists>e. nodeExecutionStack st' = [e] \<and> (\<exists>(i, items)\<in>#carried e. items \<noteq> [])))"
  using releaseLoop_ok [OF assms(1) refl subset_refl, of rules] assms
  by (auto simp: releaseWaiting_def waiting_names_def)

subsection \<open>Waiting nodes are not forgotten\<close>

lemma no_infinite_ascent:
  assumes "finite K" "K \<noteq> {}" "\<forall>n\<in>K. \<exists>p\<in>K. (n, p) \<in> E\<^sup>+"
  shows "\<exists>n\<in>K. (n, n) \<in> E\<^sup>+"
proof (rule ccontr)
  assume none: "\<not> (\<exists>n\<in>K. (n, n) \<in> E\<^sup>+)"
  let ?R = "E\<^sup>+ \<inter> K \<times> K"
  have sub: "(a, b) \<in> E\<^sup>+ \<and> a \<in> K" if "(a, b) \<in> ?R\<^sup>+" for a b
    using that by (induction rule: trancl_induct) auto
  then have "acyclic ?R"
    using none by (auto simp: acyclic_def)
  moreover have "finite ?R"
    using assms(1) by auto
  ultimately have "wf (?R\<inverse>)"
    by (rule finite_acyclic_wf_converse [rotated])
  then obtain m where "m \<in> K" "\<And>y. (y, m) \<in> ?R\<inverse> \<Longrightarrow> y \<notin> K"
    using assms(2) by (meson ex_in_conv wfE_min)
  with assms(3) show False
    by blast
qed

text \<open>\<^bold>\<open>C2.\<close> 
  If the nodes that wait exist, require no particular inputs (as in the legacy order) and lie on
  no cycle, then the pass does not leave them behind: it ends with a node on the stack, or with no
  node waiting.
\<close>
theorem releaseWaiting_progress:
  assumes "waiting_ok workflow st" "nodeExecutionStack st = []"
    and "\<forall>n\<in>waiting_names st. \<exists>node. map_get (wf_nodes workflow) n = Some node \<and> required_of workflow rules node = None"
    and "\<forall>n\<in>waiting_names st. (n, n) \<notin> (main_edges_of (connectionsByDestinationNode workflow))\<^sup>+"
  shows "\<exists>st'. releaseWaiting workflow rules st = Inr st' \<and>
    (nodeExecutionStack st' \<noteq> [] \<or> waitingExecution st' = [])"
proof (cases "waitingExecution st = []")
  case False
  let ?E = "main_edges_of (connectionsByDestinationNode workflow)"
  obtain st' where st': "releaseWaiting workflow rules st = Inr st'"
    and result: "nodeExecutionStack st' \<noteq> [] \<or>
      waiting_names st' \<subseteq> waiting_names st \<and> (\<forall>n\<in>waiting_names st'. blocked workflow rules st' n)"
    using releaseLoop_ok [OF assms(1) refl subset_refl, of rules] assms(2) False
    by (auto simp: releaseWaiting_def)
  have "waitingExecution st' = []" if "nodeExecutionStack st' = []"
  proof (rule ccontr)
    assume "waitingExecution st' \<noteq> []"
    then have "waiting_names st' \<noteq> {}" "finite (waiting_names st')"
      by (simp_all add: waiting_names_def)
    moreover have "\<exists>p\<in>waiting_names st'. (n, p) \<in> ?E\<^sup>+" if "n \<in> waiting_names st'" for n
    proof -
      have "n \<in> waiting_names st" "blocked workflow rules st' n"
        using result that \<open>nodeExecutionStack st' = []\<close> by auto
      with assms(3) show ?thesis
        by (fastforce simp: blocked_def)
    qed
    ultimately obtain n where "n \<in> waiting_names st'" "(n, n) \<in> ?E\<^sup>+"
      using no_infinite_ascent [of "waiting_names st'" ?E] by auto
    with assms(4) result that show False
      by blast
  qed
  with st' show ?thesis
    by blast
qed (simp add: releaseWaiting_def)

section \<open>The merge node\<close>

text \<open>The merge node waits for its second input, which never arrives.\<close>

definition merge_waits :: ExecutionStack where
  "merge_waits =
     \<lparr>nodeExecutionStack = [],
      waitingExecution = [(''m'', [(0, [(Main, [Held (numbered 1), Null])])])],
      waitingExecutionSource = [(''m'', [(0, [(Main, [Held (sourceData ''a'' 0 0), Null])])])]\<rparr>"

definition no_rules :: input_rules where
  "no_rules = \<lparr>requiredInputs = (\<lambda>n. None), inputCount = (\<lambda>n. 2)\<rparr>"

lemma merge_waits_ok: "waiting_ok merge_workflow merge_waits"
  by (simp add: waiting_ok_def merge_waits_def runs_ok_def entry_ok_def incomplete_def own_or_def numberOfInputs_def)

theorem releaseWaiting_correct_witness:
  "\<exists>st'. releaseWaiting merge_workflow no_rules merge_waits = Inr st' \<and> waiting_ok merge_workflow st'"
proof -
  have "nodeExecutionStack merge_waits = []"
    by (simp add: merge_waits_def)
  from releaseWaiting_correct [OF merge_waits_ok this, of no_rules] show ?thesis
    by blast
qed

theorem releaseWaiting_progress_witness:
  "\<exists>st'. releaseWaiting merge_workflow no_rules merge_waits = Inr st' \<and>
    (nodeExecutionStack st' \<noteq> [] \<or> waitingExecution st' = [])"
proof (rule releaseWaiting_progress [OF merge_waits_ok])
  have names: "waiting_names merge_waits = {''m''}"
    by (simp add: waiting_names_def merge_waits_def)
  show "nodeExecutionStack merge_waits = []"
    by (simp add: merge_waits_def)
  show "\<forall>n\<in>waiting_names merge_waits. \<exists>node. map_get (wf_nodes merge_workflow) n = Some node \<and>
      required_of merge_workflow no_rules node = None"
    unfolding names by (simp add: merge_workflow_def required_of_def no_rules_def)
  have "y \<noteq> ''m''" if "(x, y) \<in> (main_edges_of (connectionsByDestinationNode merge_workflow))\<^sup>+" for x y
    using that unfolding merge_edges by (cases rule: trancl.cases) auto
  then show "\<forall>n\<in>waiting_names merge_waits. (n, n) \<notin> (main_edges_of (connectionsByDestinationNode merge_workflow))\<^sup>+"
    unfolding names by blast
qed

text \<open>
  The run released first is the first in the order of the indexes as strings, not the earliest:
  of the runs 2 and 10 it is run 10.
\<close>

lemma first_run_not_earliest: "firstRunIndex [2, 10] = 10"
  by code_simp

end
