(* ===== verification/Node_Run.thy ===== *)
theory Node_Run
  imports Start_Node_Choice Waiting_Nodes
begin

text \<open>
  One run of a node as \<^verbatim>\<open>workflow-execute.ts\<close> performs it: the items are paired with their
  inputs, \<open>runNode\<close> decides by the node and its type what is executed, failed runs are tried
  again, and the items of a run that succeeded get their paired items and their errors merged.

  \<^bold>\<open>Parameters.\<close>  The code of the nodes is not part of the engine: \<open>en_execute\<close> is the function
  \<open>execute\<close> of a node or its custom operation, \<open>en_produce\<close> its functions \<open>poll\<close> and \<open>trigger\<close> in
  manual mode and the routing of declarative nodes.  Both get the number of the call of \<open>runNode\<close>,
  so that two calls with the same arguments may end differently; \<open>execute\<close> may ask the engine to
  wait.  The paired item of an error (\<open>$getPairedItem\<close>) and the number of main outputs of a node
  type are parameters as well.

  \<^bold>\<open>Values and objects.\<close>  Items are values: an item that the code changes in place and that is also
  reachable from the pin data is not changed there.  Hooks return, and binary data, hints,
  telemetry tags and the functions that close a trigger are left out.
\<close>

section \<open>Definitions\<close>

type_synonym node_output = "INodeExecutionData list option list option"

datatype node_result = Output node_output | Request EngineRequest

record EngineResponse =
  response_actions :: "(EngineAction \<times> ITaskData) list"
  response_metadata :: json

record node_call =
  call_node :: INode
  call_items :: "INodeExecutionData list"
  call_data :: ITaskDataConnections
  call_runIndex :: nat
  call_runData :: IRunData
  call_response :: "EngineResponse option"

record engine =
  en_nodeTypes :: node_types
  en_rules :: input_rules
  en_manual :: bool
  en_runNodeFilter :: "string list option"
  en_destination :: "string option"
  en_pinData :: IPinData
  en_execute :: "nat \<Rightarrow> node_call \<Rightarrow> nat option \<times> (ExecutionError + node_result)"
  en_produce :: "nat \<Rightarrow> node_call \<Rightarrow> ExecutionError + node_output"
  en_mainOutputs :: "INode \<Rightarrow> nat"
  en_pairedItem :: "ISourceData \<Rightarrow> IPairedItemData \<Rightarrow> INodeExecutionData option result"

text \<open>The state of an execution: \<open>runExecutionData\<close> and the variables of the loop.  The last try is
  the pair of node name and run index that the code joins with a colon.\<close>

record run_state =
  rs_workflow :: Workflow
  rs_execution :: ExecutionStack
  rs_runData :: IRunData
  rs_lastNodeExecuted :: "string option"
  rs_resultError :: "ExecutionError option"
  rs_waitTill :: "nat option"
  rs_executionIndex :: nat
  rs_lastTry :: "(string \<times> nat) option"
  rs_executionError :: "ExecutionError option"
  rs_calls :: nat

text \<open>An error the engine itself throws; the text of a \<open>TypeError\<close> is that of the JavaScript engine.\<close>

fun thrown :: "js_error \<Rightarrow> ExecutionError" where
  "thrown (AppError message) = \<lparr>error_name = None, error_message = message\<rparr>"
| "thrown TypeError = \<lparr>error_name = None, error_message = ''TypeError''\<rparr>"
| "thrown AssertionError = \<lparr>error_name = None, error_message = ''AssertionError''\<rparr>"

abbreviation (input) entry_name :: "IExecuteData \<Rightarrow> string" where
  "entry_name e \<equiv> node_name (exec_node e)"

definition main_data :: "IExecuteData \<Rightarrow> INodeExecutionData list option list option" where
  "main_data e = map_get (exec_data e) Main"

subsection \<open>Pairing the input\<close>

definition resolveSourceOverwrite :: "INodeExecutionData \<Rightarrow> IExecuteData \<Rightarrow> ISourceData option" where
  "resolveSourceOverwrite item executionData =
     (case exec_metadata executionData of
        None \<Rightarrow> None
      | Some m \<Rightarrow>
          if \<not> meta_preserveSourceOverwrite m then None
          else
            (case meta_preservedSourceOverwrite m of
               Some s \<Rightarrow> Some s
             | None \<Rightarrow>
                 (case item_pairedItem item of Some (PairedTo p) \<Rightarrow> pair_sourceOverwrite p | _ \<Rightarrow> None)))"

definition pairItems :: "IExecuteData \<Rightarrow> nat \<Rightarrow> INodeExecutionData list \<Rightarrow> INodeExecutionData list" where
  "pairItems executionData input items =
     map (\<lambda>(itemIndex, item). item\<lparr>item_pairedItem := Some (PairedTo
         \<lparr>pair_item = itemIndex, pair_input = (if input = 0 then None else Some input),
          pair_sourceOverwrite = resolveSourceOverwrite item executionData\<rparr>)\<rparr>)
       (enumerate 0 items)"

definition pairInputs :: "IExecuteData \<Rightarrow> IExecuteData" where
  "pairInputs executionData =
     executionData\<lparr>exec_data := map (\<lambda>(t, inputs). (t, map (\<lambda>(input, items). map_option (pairItems executionData input) items)
       (enumerate 0 inputs))) (exec_data executionData)\<rparr>"

subsection \<open>Running a node\<close>

definition handleDisabledNode :: "ITaskDataConnections \<Rightarrow> node_output" where
  "handleDisabledNode inputData =
     (case map_get inputData Main of Some (Some items # _) \<Rightarrow> Some [Some items] | _ \<Rightarrow> None)"

definition prepareConnectionInputData ::
  "Workflow \<Rightarrow> node_kind \<Rightarrow> ITaskDataConnections \<Rightarrow> INodeExecutionData list option" where
  "prepareConnectionInputData workflow k inputData =
     (if kind_execute k \<or> \<not> kind_poll k \<and> \<not> kind_trigger k \<and> \<not> kind_webhook k then
        (case map_get inputData Main of
           Some (first # rest) \<Rightarrow>
             let chosen = (if isLegacyExecutionOrder workflow then first
                   else (case find (\<lambda>d. d \<noteq> None \<and> d \<noteq> Some []) (first # rest) of Some d \<Rightarrow> d | None \<Rightarrow> first))
             in if chosen = Some [] then None else chosen
         | _ \<Rightarrow> None)
      else Some [])"

definition continuesOnError :: "INode \<Rightarrow> bool" where
  "continuesOnError node =
     (node_continueOnFail node = Some True \<or>
      node_onError node \<in> {Some ''continueRegularOutput'', Some ''continueErrorOutput''})"

definition rethrowNodeError :: "ExecutionError \<Rightarrow> ExecutionError" where
  "rethrowNodeError e =
     (if error_name e \<in> {Some ''NodeOperationError'', Some ''NodeApiError''} then e
      else \<lparr>error_name = None, error_message = error_message e\<rparr>)"

definition rethrowLastNodeError :: "run_state \<Rightarrow> INode \<Rightarrow> ExecutionError option" where
  "rethrowLastNodeError rs node =
     (if rs_lastNodeExecuted rs = Some (node_name node) then map_option rethrowNodeError (rs_resultError rs) else None)"

definition handleExecuteOnce :: "INode \<Rightarrow> ITaskDataConnections \<Rightarrow> ITaskDataConnections" where
  "handleExecuteOnce node inputData =
     (if node_executeOnce node = Some True
      then map (\<lambda>(t, inputs). (t, map (map_option (take 1)) inputs)) inputData
      else inputData)"

text \<open>The item that stands for the error of a resumed sub-workflow, and that for a failed tool.\<close>

definition error_item :: "ExecutionError \<Rightarrow> INodeExecutionData" where
  "error_item e = \<lparr>item_json = [(''error'', JStr (error_message e))], item_pairedItem = None, item_error = None\<rparr>"

definition resumed_item :: "ExecutionError \<Rightarrow> IExecuteData \<Rightarrow> INodeExecutionData" where
  "resumed_item e executionData =
     (let items = (case main_data executionData of Some (Some items # _) \<Rightarrow> items | _ \<Rightarrow> [])
      in (error_item e)\<lparr>item_pairedItem :=
           Some (PairedAll (map (\<lambda>i. \<lparr>pair_item = i, pair_input = None, pair_sourceOverwrite = None\<rparr>) [0..<length items]))\<rparr>)"

definition executeTriggerNode :: "engine \<Rightarrow> nat \<Rightarrow> node_call \<Rightarrow> ExecutionError + node_output" where
  "executeTriggerNode env n call =
     (if en_manual env
      then (case en_produce env n call of
              Inl e \<Rightarrow> Inl e
            | Inr response \<Rightarrow> Inr (if response = Some [] then None else response))
      else Inr (map_get (call_data call) Main))"

definition executePollNode :: "engine \<Rightarrow> nat \<Rightarrow> node_call \<Rightarrow> ExecutionError + node_output" where
  "executePollNode env n call =
     (if en_manual env then en_produce env n call else Inr (map_get (call_data call) Main))"

text \<open>The dispatch on the type of the node, with the prepared input.  \<open>kind_execute\<close> says that the
  type has a function \<open>execute\<close> or a custom operation for the node.\<close>

definition runKind ::
  "engine \<Rightarrow> node_kind \<Rightarrow> nat \<Rightarrow> node_call \<Rightarrow> nat option \<times> (ExecutionError + node_result)" where
  "runKind env k n call =
     (let output = map_sum id Output
      in if kind_execute k then en_execute env n call
         else if kind_poll k then (None, output (executePollNode env n call))
         else if kind_trigger k then (None, output (executeTriggerNode env n call))
         else if kind_supplyData k then (None, Inl (thrown (AppError ''The node has a supplyData method but no execute method'')))
         else if kind_webhook k \<and> \<not> kind_declarative k then (None, Inr (Output (map_get (call_data call) Main)))
         else (None, output (en_produce env n call)))"

definition resumeError :: "IExecuteData \<Rightarrow> ExecutionError option" where
  "resumeError executionData = (case exec_metadata executionData of None \<Rightarrow> None | Some m \<Rightarrow> meta_resumeError m)"

definition runNode ::
  "engine \<Rightarrow> run_state \<Rightarrow> IExecuteData \<Rightarrow> nat \<Rightarrow> EngineResponse option
     \<Rightarrow> nat option \<times> (ExecutionError + node_result)" where
  "runNode env rs executionData runIndex response =
     (let node = exec_node executionData; inputData = exec_data executionData
      in case resumeError executionData of
           Some e \<Rightarrow>
             (None, if continuesOnError node then Inr (Output (Some [Some [resumed_item e executionData]]))
                    else Inl (rethrowNodeError e))
         | None \<Rightarrow>
             if is_disabled node then (None, Inr (Output (handleDisabledNode inputData)))
             else
               (case en_nodeTypes env node of
                  None \<Rightarrow> (None, Inl (thrown TypeError))
                | Some k \<Rightarrow>
                    (case prepareConnectionInputData (rs_workflow rs) k inputData of
                       None \<Rightarrow> (None, Inr (Output None))
                     | Some items \<Rightarrow>
                         (case rethrowLastNodeError rs node of
                            Some e \<Rightarrow> (None, Inl e)
                          | None \<Rightarrow>
                              runKind env k (rs_calls rs)
                                \<lparr>call_node = node, call_items = items, call_data = handleExecuteOnce node inputData,
                                 call_runIndex = runIndex, call_runData = rs_runData rs, call_response = response\<rparr>))))"

text \<open>A call of \<open>runNode\<close> as the loop makes it, with its effect on the execution.\<close>

definition callNode ::
  "engine \<Rightarrow> IExecuteData \<Rightarrow> nat \<Rightarrow> EngineResponse option \<Rightarrow> run_state
     \<Rightarrow> run_state \<times> (ExecutionError + node_result)" where
  "callNode env executionData runIndex response rs =
     (case runNode env rs executionData runIndex response of
        (wait, r) \<Rightarrow> (rs\<lparr>rs_calls := Suc (rs_calls rs), rs_waitTill := (if wait = None then rs_waitTill rs else wait)\<rparr>, r))"


subsection \<open>The error output\<close>

fun js_truthy :: "json \<Rightarrow> bool" where
  "js_truthy JNull = False"
| "js_truthy (JBool b) = b"
| "js_truthy (JNum n) = (n \<noteq> 0)"
| "js_truthy (JStr s) = (s \<noteq> [])"
| "js_truthy (JArr vs) = True"
| "js_truthy (JObj m) = True"

definition truthy_key :: "(string \<times> json) list \<Rightarrow> string \<Rightarrow> bool" where
  "truthy_key m k = (case map_get m k of None \<Rightarrow> False | Some v \<Rightarrow> js_truthy v)"

definition is_error_item :: "INodeExecutionData \<Rightarrow> bool" where
  "is_error_item item =
     ((case item_error item of None \<Rightarrow> False | Some v \<Rightarrow> js_truthy v) \<or>
      truthy_key (item_json item) ''error'' \<and>
        (length (item_json item) = 1 \<or> truthy_key (item_json item) ''message'' \<and> length (item_json item) = 2))"

definition pairedItemData :: "INodeExecutionData \<Rightarrow> IPairedItemData option" where
  "pairedItemData item =
     (case item_pairedItem item of
        Some (PairedTo p) \<Rightarrow> Some p
      | Some (PairedAll (p # _)) \<Rightarrow> Some p
      | _ \<Rightarrow> None)"

definition json_merge :: "(string \<times> json) list \<Rightarrow> (string \<times> json) list \<Rightarrow> (string \<times> json) list" where
  "json_merge a b = fold (\<lambda>(k, v). map_set k v) b a"

text \<open>An error item as it is passed on: with the fields of the item it is paired with.\<close>

definition errorItem :: "engine \<Rightarrow> IExecuteData \<Rightarrow> INodeExecutionData \<Rightarrow> INodeExecutionData result" where
  "errorItem env executionData item =
     (case (exec_source executionData, pairedItemData item) of
        (Some source, Some p) \<Rightarrow>
          let input = (case pair_input p of None \<Rightarrow> 0 | Some i \<Rightarrow> i); sources = own_or [] source Main
          in if input < length sources then
               (case sources ! input of
                  None \<Rightarrow> Inl TypeError
                | Some s \<Rightarrow>
                    rbind (en_pairedItem env s p) (\<lambda>paired.
                      case paired of
                        None \<Rightarrow> Inr item
                      | Some origin \<Rightarrow> Inr (item\<lparr>item_json := json_merge (item_json origin) (item_json item)\<rparr>)))
             else Inl TypeError
      | _ \<Rightarrow> Inr item)"

fun splitErrors ::
  "engine \<Rightarrow> IExecuteData \<Rightarrow> INodeExecutionData list \<Rightarrow> (INodeExecutionData list \<times> INodeExecutionData list) result" where
  "splitErrors env executionData [] = Inr ([], [])"
| "splitErrors env executionData (item # items) =
     rbind (if is_error_item item then map_sum id (\<lambda>x. ([], [x])) (errorItem env executionData item) else Inr ([item], []))
       (\<lambda>(success, errors).
         rbind (splitErrors env executionData items) (\<lambda>(successItems, errorItems).
           Inr (success @ successItems, errors @ errorItems)))"

fun splitOutputs ::
  "engine \<Rightarrow> IExecuteData \<Rightarrow> INodeExecutionData list list \<Rightarrow> (INodeExecutionData list list \<times> INodeExecutionData list) result" where
  "splitOutputs env executionData [] = Inr ([], [])"
| "splitOutputs env executionData (items # outs) =
     rbind (splitErrors env executionData items) (\<lambda>(successItems, errors).
       rbind (splitOutputs env executionData outs) (\<lambda>(successes, errorItems).
         Inr (successItems # successes, errors @ errorItems)))"

definition output_at :: "INodeExecutionData list option list \<Rightarrow> nat \<Rightarrow> INodeExecutionData list" where
  "output_at outs i = (if i < length outs then (case outs ! i of None \<Rightarrow> [] | Some items \<Rightarrow> items) else [])"

definition handleNodeErrorOutput ::
  "engine \<Rightarrow> IExecuteData \<Rightarrow> INodeExecutionData list option list \<Rightarrow> INodeExecutionData list option list result" where
  "handleNodeErrorOutput env executionData outs =
     (let n = en_mainOutputs env (exec_node executionData)
      in rbind (splitOutputs env executionData (map (output_at outs) [0..<n - 1])) (\<lambda>(successes, errorItems).
           Inr (if n = 0 then outs else map Some successes @ [Some errorItems] @ drop n outs)))"

subsection \<open>Paired items\<close>

text \<open>The position a missing paired item is filled with, if it can be filled at all.\<close>

definition paired_rule ::
  "INodeExecutionData list option list \<Rightarrow> INodeExecutionData list option list \<Rightarrow> (nat \<Rightarrow> nat) option result" where
  "paired_rule inputs outs =
     (let len = (case inputs of [Some items] \<Rightarrow> Some (length items) | _ \<Rightarrow> None)
      in if length outs = 1 \<and> length inputs = 1 \<and> hd outs = None then Inl TypeError
         else if len = Some 1 then Inr (Some (\<lambda>i. 0))
         else
           (case (len, outs) of
              (Some k, [Some items]) \<Rightarrow>
                Inr (if k = length items then Some id else if length items = 1 \<and> k > 1 then Some (\<lambda>i. 0) else None)
            | _ \<Rightarrow> Inr None))"

definition fill_pairs :: "(nat \<Rightarrow> nat) \<Rightarrow> INodeExecutionData list \<Rightarrow> INodeExecutionData list" where
  "fill_pairs f items =
     map (\<lambda>(i, item). if item_pairedItem item = None
         then item\<lparr>item_pairedItem := Some (PairedTo \<lparr>pair_item = f i, pair_input = None, pair_sourceOverwrite = None\<rparr>)\<rparr>
         else item) (enumerate 0 items)"

definition assignPairedItems :: "node_output \<Rightarrow> IExecuteData \<Rightarrow> node_output result" where
  "assignPairedItems nodeSuccessData executionData =
     (case nodeSuccessData of
        None \<Rightarrow> Inr None
      | Some [] \<Rightarrow> Inr (Some [])
      | Some outs \<Rightarrow>
          (case main_data executionData of
             None \<Rightarrow> Inl TypeError
           | Some inputs \<Rightarrow>
               rbind (paired_rule inputs outs) (\<lambda>rule.
                 Inr (Some (case rule of None \<Rightarrow> outs | Some f \<Rightarrow> map (map_option (fill_pairs f)) outs)))))"

definition has_item :: "node_output \<Rightarrow> bool" where
  "has_item nodeSuccessData = (case nodeSuccessData of Some (Some (_ # _) # _) \<Rightarrow> True | _ \<Rightarrow> False)"

definition input_pairs :: "INodeExecutionData list option list \<Rightarrow> IPairedItemData list" where
  "input_pairs inputs =
     concat (map (\<lambda>(input, items). case items of
         None \<Rightarrow> []
       | Some items \<Rightarrow> map (\<lambda>i. \<lparr>pair_item = i, pair_input = Some input, pair_sourceOverwrite = None\<rparr>) [0..<length items])
       (enumerate 0 inputs))"

definition alwaysOutput :: "IExecuteData \<Rightarrow> node_output \<Rightarrow> node_output result" where
  "alwaysOutput executionData nodeSuccessData =
     (if has_item nodeSuccessData \<or> node_alwaysOutputData (exec_node executionData) \<noteq> Some True then Inr nodeSuccessData
      else
        (case main_data executionData of
           None \<Rightarrow> Inl TypeError
         | Some inputs \<Rightarrow>
             let item = \<lparr>item_json = [], item_pairedItem = Some (PairedAll (input_pairs inputs)), item_error = None\<rparr>
             in Inr (Some (Some [item] # (case nodeSuccessData of None \<Rightarrow> [] | Some outs \<Rightarrow> tl outs)))))"

subsection \<open>Merging errors\<close>

text \<open>The property \<open>message\<close> of a value; a key whose value is \<open>undefined\<close> counts as missing.\<close>

fun message_of :: "json \<Rightarrow> json option result" where
  "message_of JNull = Inl TypeError"
| "message_of (JObj m) = Inr (map_get m ''message'')"
| "message_of (JBool b) = Inr None"
| "message_of (JNum n) = Inr None"
| "message_of (JStr s) = Inr None"
| "message_of (JArr vs) = Inr None"

definition error_json :: "json \<Rightarrow> (string \<times> json) list result" where
  "error_json e = map_sum id (\<lambda>m. case m of None \<Rightarrow> [] | Some v \<Rightarrow> [(''error'', v)]) (message_of e)"

definition mergeError :: "INodeExecutionData \<Rightarrow> INodeExecutionData result" where
  "mergeError item =
     (case (map_get (item_json item) ''$error'', map_get (item_json item) ''$json'') of
        (Some e, Some _) \<Rightarrow> rbind (error_json e) (\<lambda>json. Inr (item\<lparr>item_error := Some e, item_json := json\<rparr>))
      | _ \<Rightarrow>
          (case item_error item of
             None \<Rightarrow> Inr item
           | Some e \<Rightarrow> rbind (error_json e) (\<lambda>json. Inr (item\<lparr>item_json := json\<rparr>))))"

fun rmap :: "('a \<Rightarrow> 'b result) \<Rightarrow> 'a list \<Rightarrow> 'b list result" where
  "rmap f [] = Inr []"
| "rmap f (x # xs) = rbind (f x) (\<lambda>y. rbind (rmap f xs) (\<lambda>ys. Inr (y # ys)))"

definition mergeErrors :: "node_output \<Rightarrow> INodeExecutionData list list result" where
  "mergeErrors nodeSuccessData =
     (case nodeSuccessData of
        None \<Rightarrow> Inl TypeError
      | Some outs \<Rightarrow> rmap (\<lambda>out. case out of None \<Rightarrow> Inl TypeError | Some items \<Rightarrow> rmap mergeError items) outs)"

subsection \<open>Limits of the retries\<close>

definition retries :: "IExecuteData \<Rightarrow> bool" where
  "retries executionData = (node_retryOnFail (exec_node executionData) = Some True \<and> resumeError executionData = None)"

definition or_default :: "int \<Rightarrow> int option \<Rightarrow> int" where
  "or_default d x = (case x of None \<Rightarrow> d | Some n \<Rightarrow> if n = 0 then d else n)"

definition maxTries :: "IExecuteData \<Rightarrow> nat" where
  "maxTries executionData =
     (if retries executionData then nat (min 5 (max 2 (or_default 3 (node_maxTries (exec_node executionData))))) else 1)"

definition waitBetweenTries :: "IExecuteData \<Rightarrow> int" where
  "waitBetweenTries executionData =
     (if retries executionData then min 5000 (max 0 (or_default 1000 (node_waitBetweenTries (exec_node executionData)))) else 0)"

fun checkFailure :: "node_result \<Rightarrow> bool" where
  "checkFailure (Request r) = False"
| "checkFailure (Output d) =
     (case d of
        Some (Some (item # _) # _) \<Rightarrow>
          (case map_get (item_json item) ''error'' of None \<Rightarrow> False | Some v \<Rightarrow> v \<noteq> JNull \<and> v \<noteq> JBool False)
      | _ \<Rightarrow> False)"

end
