(* ===== verification/Engine_Requests.thy ===== *)
theory Engine_Requests
  imports Node_Run
begin

text \<open>
  \<^verbatim>\<open>requests-response.ts\<close> and \<open>handleEngineRequest\<close> of \<^verbatim>\<open>workflow-execute.ts\<close>: a node
  that runs, such as an AI agent, may ask the engine to run other nodes, its tools.  The engine
  adds an empty run for every tool, puts the tools on the stack with the requesting node below
  them, and hands the results over when the requesting node runs again.

  A tool is marked by an assignment to its node object, which the entries of the stack share; the
  model changes every record with the reference of that object.  What \<open>addNodeToBeExecuted\<close> wrote
  before it threw is dropped.  A list of runs of a parent without runs would give the run index
  \<open>-1\<close>; it counts as \<open>0\<close>.
\<close>

section \<open>Definitions\<close>

definition rewireNode :: "nat \<Rightarrow> NodeConnectionType \<Rightarrow> INode \<Rightarrow> INode" where
  "rewireNode ref t node = (if node_ref node = ref then node\<lparr>node_rewireOutputLogTo := Some t\<rparr> else node)"

definition rewireAll :: "nat \<Rightarrow> NodeConnectionType \<Rightarrow> run_state \<Rightarrow> run_state" where
  "rewireAll ref t rs =
     rs\<lparr>rs_workflow := (rs_workflow rs)\<lparr>wf_nodes := map (\<lambda>(name, node). (name, rewireNode ref t node)) (wf_nodes (rs_workflow rs))\<rparr>,
        rs_execution := (rs_execution rs)\<lparr>nodeExecutionStack :=
          map (\<lambda>e. e\<lparr>exec_node := rewireNode ref t (exec_node e)\<rparr>) (nodeExecutionStack (rs_execution rs))\<rparr>\<rparr>"

record NodeToBeExecuted =
  nb_connection :: IConnection
  nb_parentNode :: string
  nb_parentOutputData :: "INodeExecutionData list option list option"
  nb_runIndex :: nat
  nb_nodeRunIndex :: nat
  nb_metadata :: ITaskMetadata

definition buildParentOutputData ::
  "(string \<times> json) list \<Rightarrow> nat \<Rightarrow> nat \<Rightarrow> string \<Rightarrow> INodeExecutionData list option list" where
  "buildParentOutputData json parentRunIndex parentOutputIndex parentSourceNode =
     [Some [\<lparr>item_json = json,
       item_pairedItem = Some (PairedTo \<lparr>pair_item = parentRunIndex, pair_input = Some parentOutputIndex,
         pair_sourceOverwrite = Some (sourceData parentSourceNode parentOutputIndex parentRunIndex)\<rparr>),
       item_error = None\<rparr>]]"

definition placeholder :: "ISourceData \<Rightarrow> INodeExecutionData list option list \<Rightarrow> ITaskData" where
  "placeholder source displayOutputData =
     \<lparr>task_executionIndex = Some 0, task_source = [Some source], task_data = None, task_error = None,
      task_executionStatus = None, task_inputOverride = Some [(AiTool, displayOutputData)], task_metadata = None\<rparr>"

text \<open>The index of the new run, and the run data with it.\<close>

definition initializeNodeRunData :: "IRunData \<Rightarrow> string \<Rightarrow> ITaskData \<Rightarrow> nat \<times> IRunData" where
  "initializeNodeRunData runData name task =
     (let runs = own_or [] runData name in (length runs, map_set name (runs @ [task]) runData))"

definition parentSourceData :: "IExecuteData \<Rightarrow> nat \<Rightarrow> ISourceData option" where
  "parentSourceData executionData i =
     (case exec_source executionData of
        None \<Rightarrow> None
      | Some source \<Rightarrow> let main = own_or [] source Main in if i < length main then main ! i else None)"

definition agentInputData :: "IExecuteData \<Rightarrow> nat \<Rightarrow> (string \<times> json) list" where
  "agentInputData executionData itemIndex =
     (case main_data executionData of
        Some (Some items # _) \<Rightarrow> if itemIndex < length items then item_json (items ! itemIndex) else []
      | _ \<Rightarrow> [])"

text \<open>The default output and the default parent of the tools' input.\<close>

definition defaultParentOutputIndex :: "IExecuteData \<Rightarrow> nat \<Rightarrow> nat" where
  "defaultParentOutputIndex executionData runIndex =
     (case parentSourceData executionData runIndex of None \<Rightarrow> 0 | Some s \<Rightarrow> previousNodeOutput s)"

definition defaultParentSourceNode :: "IExecuteData \<Rightarrow> nat \<Rightarrow> string" where
  "defaultParentSourceNode executionData runIndex =
     (case parentSourceData executionData runIndex of None \<Rightarrow> entry_name executionData | Some s \<Rightarrow> previousNode s)"

definition parentRunIndex :: "IRunData \<Rightarrow> EngineAction \<Rightarrow> IExecuteData \<Rightarrow> nat \<Rightarrow> nat" where
  "parentRunIndex runData action executionData runIndex =
     (case action_parentNodeName action of
        Some parent \<Rightarrow> (case map_get runData parent of None \<Rightarrow> 0 | Some runs \<Rightarrow> length runs - 1)
      | None \<Rightarrow> (case parentSourceData executionData runIndex of None \<Rightarrow> 0 | Some s \<Rightarrow> previousNodeRun s))"

text \<open>One action: the tool is marked, gets its empty run, and is listed with its input.\<close>

definition prepareAction ::
  "IExecuteData \<Rightarrow> nat \<Rightarrow> EngineAction \<Rightarrow> run_state
     \<Rightarrow> run_state \<times> (js_error + NodeToBeExecuted \<times> SubNodeExecutionDataAction)" where
  "prepareAction executionData runIndex action rs =
     (case getNode (rs_workflow rs) (action_nodeName action) of
        None \<Rightarrow> (rs, Inl (AppError ''Workflow does not contain a node with the name''))
      | Some node \<Rightarrow>
          let rs = rewireAll (node_ref node) (action_type action) rs;
              parentNode = (case action_parentNodeName action of None \<Rightarrow> entry_name executionData | Some p \<Rightarrow> p);
              parentRun = parentRunIndex (rs_runData rs) action executionData runIndex;
              out = defaultParentOutputIndex executionData runIndex;
              sourceNode = defaultParentSourceNode executionData runIndex;
              itemIndex = (case action_itemIndex action of None \<Rightarrow> 0 | Some i \<Rightarrow> i);
              mergedJson = json_merge (json_merge (agentInputData executionData itemIndex) (action_input action))
                [(''toolCallId'', JStr (action_id action))];
              sourceRun = (if action_parentNodeName action = None then runIndex else parentRun);
              (nodeRunIndex, runData) = initializeNodeRunData (rs_runData rs) (node_name node)
                (placeholder (sourceData parentNode out sourceRun) (buildParentOutputData (action_input action) parentRun out sourceNode));
              overwrite = (case exec_metadata executionData of None \<Rightarrow> None | Some m \<Rightarrow> meta_preservedSourceOverwrite m)
          in (rs\<lparr>rs_runData := runData\<rparr>,
              Inr (\<lparr>nb_connection = \<lparr>conn_node = action_nodeName action, conn_type = action_type action, conn_index = 0\<rparr>,
                    nb_parentNode = parentNode,
                    nb_parentOutputData = Some (buildParentOutputData mergedJson parentRun out sourceNode),
                    nb_runIndex = sourceRun, nb_nodeRunIndex = nodeRunIndex,
                    nb_metadata = \<lparr>meta_preserveSourceOverwrite = True,
                      meta_preservedSourceOverwrite = Some (case overwrite of None \<Rightarrow> sourceData sourceNode out parentRun | Some s \<Rightarrow> s),
                      meta_resumeError = None, meta_nodeWasResumed = False, meta_subNodeExecutionData = None\<rparr>\<rparr>,
                   \<lparr>sub_action = action, sub_nodeName = action_nodeName action, sub_runIndex = nodeRunIndex\<rparr>)))"

fun prepareRequestedNodesForExecution ::
  "IExecuteData \<Rightarrow> nat \<Rightarrow> EngineAction list \<Rightarrow> run_state
     \<Rightarrow> run_state \<times> (js_error + (NodeToBeExecuted \<times> SubNodeExecutionDataAction) list)" where
  "prepareRequestedNodesForExecution executionData runIndex [] rs = (rs, Inr [])"
| "prepareRequestedNodesForExecution executionData runIndex (action # actions) rs =
     (case prepareAction executionData runIndex action rs of
        (rs, Inl e) \<Rightarrow> (rs, Inl e)
      | (rs, Inr p) \<Rightarrow>
          (case prepareRequestedNodesForExecution executionData runIndex actions rs of
             (rs, Inl e) \<Rightarrow> (rs, Inl e)
           | (rs, Inr ps) \<Rightarrow> (rs, Inr (p # ps))))"

text \<open>The parent of the requesting node and what its metadata keeps, if it has a parent.\<close>

definition prepareRequestingNodeForResuming :: "IExecuteData \<Rightarrow> (string \<times> ISourceData option) option" where
  "prepareRequestingNodeForResuming executionData =
     (case parentSourceData executionData 0 of
        None \<Rightarrow> None
      | Some s \<Rightarrow>
          if previousNode s = [] then None
          else Some (previousNode s,
            case exec_metadata executionData of
              None \<Rightarrow> None
            | Some m \<Rightarrow> if meta_preserveSourceOverwrite m then meta_preservedSourceOverwrite m else None))"

definition handleRequest ::
  "IExecuteData \<Rightarrow> nat \<Rightarrow> EngineRequest \<Rightarrow> run_state \<Rightarrow> run_state \<times> (js_error + NodeToBeExecuted list)" where
  "handleRequest executionData runIndex request rs =
     (case prepareRequestedNodesForExecution executionData runIndex (request_actions request) rs of
        (rs, Inl e) \<Rightarrow> (rs, Inl e)
      | (rs, Inr ps) \<Rightarrow>
          (case prepareRequestingNodeForResuming executionData of
             None \<Rightarrow> (rs, Inr [])
           | Some (parentNode, overwrite) \<Rightarrow>
               (rs, Inr (\<lparr>nb_connection = \<lparr>conn_node = entry_name executionData, conn_type = AiTool, conn_index = 0\<rparr>,
                  nb_parentNode = parentNode, nb_parentOutputData = main_data executionData,
                  nb_runIndex = runIndex, nb_nodeRunIndex = runIndex,
                  nb_metadata = \<lparr>meta_preserveSourceOverwrite = (overwrite \<noteq> None), meta_preservedSourceOverwrite = overwrite,
                    meta_resumeError = None, meta_nodeWasResumed = True,
                    meta_subNodeExecutionData = Some (map snd ps, request_metadata request)\<rparr>\<rparr> # map fst ps))))"

definition addRequested :: "NodeToBeExecuted \<Rightarrow> run_state \<Rightarrow> run_state \<times> js_error option" where
  "addRequested nb rs =
     (case nb_parentOutputData nb of
        None \<Rightarrow> (rs, Some TypeError)
      | Some data \<Rightarrow>
          (case addNodeToBeExecuted (rs_workflow rs) (rs_runData rs) (nb_connection nb) 0 (nb_parentNode nb) data
              (nb_runIndex nb) (Some (nb_nodeRunIndex nb)) (Some (nb_metadata nb)) (rs_execution rs) of
             Inl e \<Rightarrow> (rs, Some e)
           | Inr st \<Rightarrow> (rs\<lparr>rs_execution := st\<rparr>, None)))"

fun addAllRequested :: "NodeToBeExecuted list \<Rightarrow> run_state \<Rightarrow> run_state \<times> js_error option" where
  "addAllRequested [] rs = (rs, None)"
| "addAllRequested (nb # nbs) rs =
     (case addRequested nb rs of (rs, Some e) \<Rightarrow> (rs, Some e) | (rs, None) \<Rightarrow> addAllRequested nbs rs)"

definition handleEngineRequest ::
  "IExecuteData \<Rightarrow> nat \<Rightarrow> EngineRequest \<Rightarrow> run_state \<Rightarrow> run_state \<times> js_error option" where
  "handleEngineRequest executionData runIndex request rs =
     (case handleRequest executionData runIndex request rs of
        (rs, Inl e) \<Rightarrow> (rs, Some e)
      | (rs, Inr nbs) \<Rightarrow> addAllRequested nbs rs)"

definition makeEngineResponse :: EngineResponse where
  "makeEngineResponse = \<lparr>response_actions = [], response_metadata = JObj []\<rparr>"

text \<open>The results a resumed node gets: of the runs that are there.\<close>

definition collectResponses :: "IExecuteData \<Rightarrow> IRunData \<Rightarrow> EngineResponse \<Rightarrow> EngineResponse" where
  "collectResponses executionData runData response =
     (case exec_metadata executionData of
        None \<Rightarrow> response
      | Some m \<Rightarrow>
          (case meta_subNodeExecutionData m of
             None \<Rightarrow> response
           | Some (actions, metadata) \<Rightarrow>
               \<lparr>response_actions = response_actions response @
                  concat (map (\<lambda>sub. let runs = own_or [] runData (sub_nodeName sub)
                     in if sub_runIndex sub < length runs then [(sub_action sub, runs ! sub_runIndex sub)] else []) actions),
                response_metadata = metadata\<rparr>))"

end
