(* ===== verification/Execution_Loop.thy ===== *)
theory Execution_Loop
  imports Engine_Requests
begin

text \<open>
  The execution loop of \<open>processRunExecutionData\<close> in \<^verbatim>\<open>workflow-execute.ts\<close>: an iteration
  takes an entry from the stack, runs its node with retries, records the run, and schedules the
  nodes behind it; the loop ends when the stack is empty, a node fails, an execution waits or it is
  cancelled.  \<open>executionStep\<close> is one iteration.

  The loop is a step relation on loop states, because a workflow with a cycle may run forever and
  because an execution may be cancelled, or run out of time, at the head of any iteration.  Cancelling
  is seen at the head of the loop only, and what the cancel handler writes into the tasks at that moment
  (\<open>updateTaskStatusesToCancelled\<close>) is left out.  What the
  catch handler and \<open>processSuccessExecution\<close> make of the last state is \<open>finishExecution\<close>.  An array of
  outputs that \<open>handleNodeErrorOutput\<close> has rewritten in part when it throws counts as not rewritten.
\<close>

section \<open>Definitions\<close>

subsection \<open>Whether the input is there\<close>

fun ensureInputs :: "Workflow \<Rightarrow> IExecuteData \<Rightarrow> nat list \<Rightarrow> bool" where
  "ensureInputs workflow executionData [] = True"
| "ensureInputs workflow executionData (i # is) =
     (if getHighestNode workflow (entry_name executionData) (Some i) = [] then True
      else
        (case main_data executionData of
           None \<Rightarrow> False
         | Some inputs \<Rightarrow>
             if isLegacyExecutionOrder workflow \<and> (length inputs < i \<or> i < length inputs \<and> inputs ! i = None) then False
             else ensureInputs workflow executionData is))"

definition ensureInputData :: "Workflow \<Rightarrow> IExecuteData \<Rightarrow> bool" where
  "ensureInputData workflow executionData =
     ensureInputs workflow executionData [0..<numberOfInputs workflow (entry_name executionData)]"

subsection \<open>Trying a node\<close>

text \<open>Further calls after one that reported an error in its output; a call that throws does not count
  as a try here.  The first component is the number of tries left after the current one.\<close>

primrec softLoop ::
  "nat \<Rightarrow> engine \<Rightarrow> IExecuteData \<Rightarrow> nat \<Rightarrow> node_result \<Rightarrow> run_state \<Rightarrow> nat \<times> run_state \<times> (ExecutionError + node_result)" where
  "softLoop 0 env executionData runIndex r rs = (0, rs, Inr r)"
| "softLoop (Suc left) env executionData runIndex r rs =
     (if checkFailure r then
        (case callNode env executionData runIndex None rs of
           (rs, Inl e) \<Rightarrow> (Suc left, rs, Inl e)
         | (rs, Inr r) \<Rightarrow> softLoop left env executionData runIndex r rs)
      else (Suc left, rs, Inr r))"

definition pinned :: "engine \<Rightarrow> IExecuteData \<Rightarrow> INodeExecutionData list option" where
  "pinned env executionData =
     (if is_disabled (exec_node executionData) then None else map_get (en_pinData env) (entry_name executionData))"

datatype try_outcome = Caught ExecutionError | Finished | NextIteration

text \<open>The rest of the try block once the node has returned.\<close>

definition finishTry ::
  "engine \<Rightarrow> IExecuteData \<Rightarrow> bool \<Rightarrow> node_output \<Rightarrow> run_state \<Rightarrow> run_state \<times> node_output \<times> try_outcome" where
  "finishTry env executionData hasErrorOutput data rs =
     (case (case data of
              Some outs \<Rightarrow> if hasErrorOutput then map_sum id Some (handleNodeErrorOutput env executionData outs) else Inr data
            | None \<Rightarrow> Inr None) of
        Inl e \<Rightarrow> (rs, data, Caught (thrown e))
      | Inr data \<Rightarrow>
          (case assignPairedItems data executionData of
             Inl e \<Rightarrow> (rs, data, Caught (thrown e))
           | Inr data \<Rightarrow>
               let rs = (if data = None then rs else rs\<lparr>rs_lastNodeExecuted := Some (entry_name executionData)\<rparr>)
               in case alwaysOutput executionData data of
                    Inl e \<Rightarrow> (rs, data, Caught (thrown e))
                  | Inr data \<Rightarrow> (rs, data, if data = None \<and> rs_waitTill rs = None then NextIteration else Finished)))"

text \<open>One pass through the body of the retry loop: the tries left, the results of tools collected so
  far, the state, the data and how the pass ended.\<close>

definition attempt ::
  "engine \<Rightarrow> IExecuteData \<Rightarrow> nat \<Rightarrow> nat \<Rightarrow> EngineResponse \<Rightarrow> node_output \<Rightarrow> run_state
     \<Rightarrow> nat \<times> EngineResponse \<times> run_state \<times> node_output \<times> try_outcome" where
  "attempt env executionData runIndex left response data rs =
     (case pinned env executionData of
        Some items \<Rightarrow>
          (left, response, finishTry env executionData False (Some [Some items]) rs)
      | None \<Rightarrow>
          let response = collectResponses executionData (rs_runData rs) response
          in case (case callNode env executionData runIndex (Some response) rs of
                     (rs, Inl e) \<Rightarrow> (left, rs, Inl e)
                   | (rs, Inr r) \<Rightarrow> softLoop left env executionData runIndex r rs) of
               (left, rs, Inl e) \<Rightarrow> (left, response, rs, data, Caught e)
             | (left, rs, Inr (Request request)) \<Rightarrow>
                 (case handleEngineRequest executionData runIndex request rs of
                    (rs, None) \<Rightarrow> (left, response, rs, data, NextIteration)
                  | (rs, Some e) \<Rightarrow> (left, response, rs, data, Caught (thrown e)))
             | (left, rs, Inr (Output d)) \<Rightarrow>
                 (left, response,
                  finishTry env executionData (node_onError (exec_node executionData) = Some ''continueErrorOutput'') d rs))"

lemma softLoop_left: "softLoop left env e ri r rs = (left', rs', res) \<Longrightarrow> left' \<le> left"
  by (induction left arbitrary: r rs) (force split: if_splits prod.splits sum.splits)+

lemma attempt_left: "attempt env e ri left resp d rs = (left', resp', rs', d', out) \<Longrightarrow> left' \<le> left"
  by (auto simp: attempt_def Let_def dest!: softLoop_left
      split: option.splits prod.splits sum.splits node_result.splits)

text \<open>The retry loop: the state, the error of the last try and its data; \<open>None\<close> when the iteration of
  the outer loop ends.\<close>

function tryLoop ::
  "engine \<Rightarrow> IExecuteData \<Rightarrow> nat \<Rightarrow> nat \<Rightarrow> EngineResponse \<Rightarrow> node_output \<Rightarrow> run_state
     \<Rightarrow> run_state \<times> (ExecutionError option \<times> node_output) option" where
  "tryLoop env executionData runIndex left response data rs =
     (case attempt env executionData runIndex left response data rs of
        (left', response, rs, data, out) \<Rightarrow>
          (case out of
             NextIteration \<Rightarrow> (rs, None)
           | Finished \<Rightarrow> (rs, Some (None, data))
           | Caught e \<Rightarrow>
               let rs = rs\<lparr>rs_lastNodeExecuted := Some (entry_name executionData)\<rparr>
               in if left' = 0 then (rs, Some (Some e, data))
                  else tryLoop env executionData runIndex (left' - 1) response data rs))"
  by pat_completeness auto

termination tryLoop
  by (relation "measure (\<lambda>(env, e, ri, left, resp, d, rs). left)") (auto dest!: attempt_left [OF sym])

declare tryLoop.simps [simp del]


subsection \<open>Recording a run\<close>

text \<open>\<open>Object.assign\<close> of the new task data to a run that is there already: what the new data does not
  have is kept.\<close>

definition assign_task :: "ITaskData \<Rightarrow> ITaskData \<Rightarrow> ITaskData" where
  "assign_task old new =
     new\<lparr>task_error := (if task_error new = None then task_error old else task_error new),
         task_data := (if task_data new = None then task_data old else task_data new),
         task_inputOverride := (if task_inputOverride new = None then task_inputOverride old else task_inputOverride new)\<rparr>"

definition storeRun :: "string \<Rightarrow> nat \<Rightarrow> ITaskData \<Rightarrow> IRunData \<Rightarrow> IRunData" where
  "storeRun name runIndex task runData =
     (let runs = own_or [] runData name
      in map_set name (if runIndex < length runs then runs[runIndex := assign_task (runs ! runIndex) task] else runs @ [task]) runData)"

definition existingOverride :: "IRunData \<Rightarrow> string \<Rightarrow> nat \<Rightarrow> ITaskDataConnections" where
  "existingOverride runData name runIndex =
     (let runs = own_or [] runData name
      in if runIndex < length runs
         then (case task_inputOverride (runs ! runIndex) of None \<Rightarrow> [] | Some d \<Rightarrow> d) else [])"

definition newTask :: "IExecuteData \<Rightarrow> nat \<Rightarrow> run_state \<Rightarrow> ITaskData" where
  "newTask executionData index rs =
     \<lparr>task_executionIndex = Some index,
      task_source = (case exec_source executionData of None \<Rightarrow> [] | Some source \<Rightarrow> own_or [] source Main),
      task_data = None, task_error = None,
      task_executionStatus = Some (if rs_waitTill rs = None then Success else Waiting),
      task_inputOverride = None, task_metadata = exec_metadata executionData\<rparr>"

text \<open>The data of a task, logged under the connection type of a tool where the node is one.\<close>

definition withData :: "IExecuteData \<Rightarrow> nat \<Rightarrow> IRunData \<Rightarrow> INodeExecutionData list option list \<Rightarrow> ITaskData \<Rightarrow> ITaskData" where
  "withData executionData runIndex runData data task =
     (case node_rewireOutputLogTo (exec_node executionData) of
        None \<Rightarrow> task\<lparr>task_data := Some [(Main, data)]\<rparr>
      | Some t \<Rightarrow>
          task\<lparr>task_data := Some [(t, data)],
               task_inputOverride := Some (existingOverride runData (entry_name executionData) runIndex)\<rparr>)"

definition unshiftEntry :: "IExecuteData \<Rightarrow> run_state \<Rightarrow> run_state" where
  "unshiftEntry executionData rs =
     rs\<lparr>rs_execution := (rs_execution rs)\<lparr>nodeExecutionStack := executionData # nodeExecutionStack (rs_execution rs)\<rparr>\<rparr>"

subsection \<open>An iteration of the loop\<close>

text \<open>The head of the loop, its end, an execution cancelled (or timed out) at the head, and an error that
  leaves the loop.\<close>

datatype loop_state =
  Looping run_state | Stopped run_state | CanceledAt bool run_state | Rejected ExecutionError run_state

text \<open>Behind a recorded run: the nodes it is connected with, and waiting nodes if there are none.\<close>

definition scheduleNext ::
  "engine \<Rightarrow> IExecuteData \<Rightarrow> nat \<Rightarrow> INodeExecutionData list option list \<Rightarrow> run_state \<Rightarrow> loop_state" where
  "scheduleNext env executionData runIndex data rs =
     (case addOutputs (rs_workflow rs) (rs_runData rs) (entry_name executionData) data runIndex (rs_execution rs) of
        Inl e \<Rightarrow> Rejected (thrown e) rs
      | Inr st \<Rightarrow>
          (case releaseWaiting (rs_workflow rs) (en_rules env) st of
             Inl e \<Rightarrow> Rejected (thrown e) (rs\<lparr>rs_execution := st\<rparr>)
           | Inr st \<Rightarrow> Looping (rs\<lparr>rs_execution := st\<rparr>)))"

text \<open>A run whose data is passed on.\<close>

definition recordSuccess ::
  "engine \<Rightarrow> IExecuteData \<Rightarrow> nat \<Rightarrow> ITaskData \<Rightarrow> node_output \<Rightarrow> run_state \<Rightarrow> loop_state" where
  "recordSuccess env executionData runIndex task data rs =
     (case mergeErrors data of
        Inl e \<Rightarrow> Rejected (thrown e) rs
      | Inr outs \<Rightarrow>
          let name = entry_name executionData;
              data = map Some outs;
              rs = rs\<lparr>rs_runData :=
                storeRun name runIndex (withData executionData runIndex (rs_runData rs) data task) (rs_runData rs)\<rparr>
          in if rs_waitTill rs \<noteq> None then Stopped (unshiftEntry executionData rs)
             else if en_destination env = Some name then Looping rs
             else scheduleNext env executionData runIndex data rs)"

text \<open>A run that failed and ends the execution: the entry goes back to the stack.\<close>

definition recordFailure :: "IExecuteData \<Rightarrow> nat \<Rightarrow> ITaskData \<Rightarrow> ExecutionError \<Rightarrow> run_state \<Rightarrow> run_state" where
  "recordFailure executionData runIndex task e rs =
     (let task = (if node_rewireOutputLogTo (exec_node executionData) = None then task
                  else withData executionData runIndex (rs_runData rs) [Some [error_item e]] task)
      in unshiftEntry executionData (rs\<lparr>rs_runData := storeRun (entry_name executionData) runIndex task (rs_runData rs)\<rparr>))"

definition isAiToolExecution :: "INode \<Rightarrow> bool" where
  "isAiToolExecution node = (node_rewireOutputLogTo node = Some AiTool)"

definition goesOn :: "INode \<Rightarrow> bool" where
  "goesOn node = (continuesOnError node \<or> isAiToolExecution node \<and> node_onError node \<noteq> Some ''stopWorkflow'')"

text \<open>The data that goes on in place of the output of a failed node.\<close>

definition dataOnError :: "IExecuteData \<Rightarrow> ExecutionError \<Rightarrow> node_output \<Rightarrow> node_output" where
  "dataOnError executionData e data =
     (if isAiToolExecution (exec_node executionData) then Some [Some [error_item e]]
      else (case main_data executionData of Some (Some items # _) \<Rightarrow> Some [Some items] | _ \<Rightarrow> data))"

definition recordRun ::
  "engine \<Rightarrow> IExecuteData \<Rightarrow> nat \<Rightarrow> nat \<Rightarrow> ExecutionError option \<Rightarrow> node_output \<Rightarrow> run_state \<Rightarrow> loop_state" where
  "recordRun env executionData runIndex index error data rs =
     (let name = entry_name executionData;
          rs = rs\<lparr>rs_runData := map_set name (own_or [] (rs_runData rs) name) (rs_runData rs), rs_executionError := error\<rparr>;
          task = newTask executionData index rs
      in case error of
           None \<Rightarrow> recordSuccess env executionData runIndex task data rs
         | Some e \<Rightarrow>
             let task = task\<lparr>task_error := Some e, task_executionStatus := Some ErrorStatus\<rparr>
             in if goesOn (exec_node executionData)
                then recordSuccess env executionData runIndex task (dataOnError executionData e data) rs
                else Stopped (recordFailure executionData runIndex task e rs))"

definition runIndexOf :: "IExecuteData \<Rightarrow> IRunData \<Rightarrow> nat" where
  "runIndexOf executionData runData =
     (case exec_runIndex executionData of
        Some i \<Rightarrow> i
      | None \<Rightarrow> length (own_or [] runData (entry_name executionData)))"

definition endlessLoop :: ExecutionError where
  "endlessLoop = thrown (AppError ''Stopped execution because it seems to be in an endless loop'')"

text \<open>An iteration with the entry taken from the stack and its input paired.\<close>

definition runEntry :: "engine \<Rightarrow> IExecuteData \<Rightarrow> nat \<Rightarrow> run_state \<Rightarrow> loop_state" where
  "runEntry env executionData index rs =
     (let name = entry_name executionData; runIndex = runIndexOf executionData (rs_runData rs)
      in if rs_lastTry rs = Some (name, runIndex) then Rejected endlessLoop rs
         else if (case en_runNodeFilter env of None \<Rightarrow> False | Some names \<Rightarrow> name \<notin> set names) then Looping rs
         else if \<not> ensureInputData (rs_workflow rs) executionData then
           Looping (rs\<lparr>rs_lastTry := Some (name, runIndex),
             rs_execution := (rs_execution rs)\<lparr>nodeExecutionStack := nodeExecutionStack (rs_execution rs) @ [executionData]\<rparr>\<rparr>)
         else
           (case tryLoop env executionData runIndex (maxTries executionData - 1) makeEngineResponse None rs of
              (rs, None) \<Rightarrow> Looping rs
            | (rs, Some (error, data)) \<Rightarrow> recordRun env executionData runIndex index error data rs))"

definition executionStep :: "engine \<Rightarrow> run_state \<Rightarrow> loop_state" where
  "executionStep env rs =
     (case nodeExecutionStack (rs_execution rs) of
        [] \<Rightarrow> Stopped rs
      | executionData # rest \<Rightarrow>
          runEntry env (pairInputs executionData) (rs_executionIndex rs)
            (rs\<lparr>rs_execution := (rs_execution rs)\<lparr>nodeExecutionStack := rest\<rparr>, rs_executionError := None,
                rs_executionIndex := Suc (rs_executionIndex rs)\<rparr>))"


subsection \<open>The loop\<close>

inductive loop_step :: "engine \<Rightarrow> loop_state \<Rightarrow> loop_state \<Rightarrow> bool" for env where
  iterate: "loop_step env (Looping rs) (executionStep env rs)"
| cancel: "nodeExecutionStack (rs_execution rs) \<noteq> [] \<Longrightarrow> loop_step env (Looping rs) (CanceledAt timedOut rs)"

inductive_cases loop_stepE: "loop_step env (Looping rs) s"
inductive_simps loop_step_Looping: "loop_step env (Looping rs) s"
inductive_simps loop_step_ended:
  "loop_step env (Stopped rs) s" "loop_step env (CanceledAt timedOut rs) s" "loop_step env (Rejected e rs) s"

fun state_of :: "loop_state \<Rightarrow> run_state" where
  "state_of (Looping rs) = rs"
| "state_of (Stopped rs) = rs"
| "state_of (CanceledAt timedOut rs) = rs"
| "state_of (Rejected e rs) = rs"

subsection \<open>The end of an execution\<close>

record IRun =
  run_status :: ExecutionStatus
  run_error :: "ExecutionError option"
  run_waitTill :: "nat option"
  run_finished :: bool

fun js_includes :: "string \<Rightarrow> string \<Rightarrow> bool" where
  "js_includes [] t = (t = [])"
| "js_includes (c # s) t = (take (length t) (c # s) = t \<or> js_includes s t)"

definition processSuccessExecution :: "run_state \<Rightarrow> ExecutionError option \<Rightarrow> IRun" where
  "processSuccessExecution rs error =
     (case error of
        Some e \<Rightarrow>
          \<lparr>run_status = (if js_includes (error_message e) ''canceled'' \<or>
                           (case error_name e of None \<Rightarrow> False | Some n \<Rightarrow> js_includes n ''Cancelled'')
                         then Canceled else ErrorStatus),
           run_error = Some e, run_waitTill = None, run_finished = False\<rparr>
      | None \<Rightarrow>
          if rs_waitTill rs \<noteq> None
          then \<lparr>run_status = Waiting, run_error = None, run_waitTill = rs_waitTill rs, run_finished = False\<rparr>
          else \<lparr>run_status = Success, run_error = None, run_waitTill = None, run_finished = True\<rparr>)"

definition cancelError :: "bool \<Rightarrow> ExecutionError" where
  "cancelError timedOut =
     (if timedOut then \<lparr>error_name = Some ''TimeoutExecutionCancelledError'',
        error_message = ''The execution was cancelled because it timed out''\<rparr>
      else \<lparr>error_name = Some ''ManualExecutionCancelledError'', error_message = ''The execution was cancelled manually''\<rparr>)"

text \<open>The catch handler leaves the status as it was when the execution began.\<close>

fun finishExecution :: "loop_state \<Rightarrow> IRun option" where
  "finishExecution (Looping rs) = None"
| "finishExecution (Stopped rs) = Some (processSuccessExecution rs (rs_executionError rs))"
| "finishExecution (CanceledAt timedOut rs) =
     Some (processSuccessExecution rs (Some (case rs_executionError rs of None \<Rightarrow> cancelError timedOut | Some e \<Rightarrow> e)))"
| "finishExecution (Rejected e rs) =
     Some \<lparr>run_status = Running, run_error = Some e, run_waitTill = None, run_finished = False\<rparr>"

subsection \<open>Resuming an execution that waited\<close>

definition disableNode :: "nat \<Rightarrow> INode \<Rightarrow> INode" where
  "disableNode ref node = (if node_ref node = ref then node\<lparr>node_disabled := Some True\<rparr> else node)"

definition disableAll :: "nat \<Rightarrow> run_state \<Rightarrow> run_state" where
  "disableAll ref rs =
     rs\<lparr>rs_workflow := (rs_workflow rs)\<lparr>wf_nodes := map (\<lambda>(name, node). (name, disableNode ref node)) (wf_nodes (rs_workflow rs))\<rparr>,
        rs_execution := (rs_execution rs)\<lparr>nodeExecutionStack :=
          map (\<lambda>e. e\<lparr>exec_node := disableNode ref (exec_node e)\<rparr>) (nodeExecutionStack (rs_execution rs))\<rparr>\<rparr>"

definition handleWaitingState :: "run_state \<Rightarrow> run_state result" where
  "handleWaitingState rs =
     (if rs_waitTill rs = None then Inr rs
      else
        let rs = rs\<lparr>rs_waitTill := None\<rparr>
        in case nodeExecutionStack (rs_execution rs) of
             [] \<Rightarrow> Inl TypeError
           | entry # _ \<Rightarrow>
               let rs = (if resumeError entry = None then disableAll (node_ref (exec_node entry)) rs else rs)
               in case rs_lastNodeExecuted rs of
                    None \<Rightarrow> Inl TypeError
                  | Some name \<Rightarrow>
                      (case map_get (rs_runData rs) name of
                         None \<Rightarrow> Inl TypeError
                       | Some runs \<Rightarrow> Inr (rs\<lparr>rs_runData := map_set name (butlast runs) (rs_runData rs)\<rparr>)))"

end
