(* ===== verification/Execution_Invariants.thy ===== *)
theory Execution_Invariants
  imports Execution_Loop
begin

text \<open>
  What holds in every state of an execution.  The locales \<open>step_order\<close> and \<open>step_invariant\<close> lift a
  fact about one step to all states that can be reached; they are interpreted on the step relation
  of the execution loop.  The other lemmas say what each part of an iteration may change.
\<close>

section \<open>Relations along the steps of a machine\<close>

locale step_order =
  fixes step :: "'s \<Rightarrow> 's \<Rightarrow> bool" and rel :: "'s \<Rightarrow> 's \<Rightarrow> bool"
  assumes rel_refl: "rel s s"
    and rel_trans: "rel s t \<Longrightarrow> rel t u \<Longrightarrow> rel s u"
    and rel_step: "step s t \<Longrightarrow> rel s t"
begin

lemma rel_reachable: "step\<^sup>*\<^sup>* s t \<Longrightarrow> rel s t"
  by (induction rule: rtranclp_induct) (auto intro: rel_refl rel_trans rel_step)

end

locale step_invariant =
  fixes step :: "'s \<Rightarrow> 's \<Rightarrow> bool" and inv :: "'s \<Rightarrow> bool"
  assumes inv_step: "step s t \<Longrightarrow> inv s \<Longrightarrow> inv t"

sublocale step_invariant \<subseteq> kept: step_order step "\<lambda>s t. inv s \<longrightarrow> inv t"
  by unfold_locales (auto intro: inv_step)

context step_invariant
begin

lemma inv_reachable: "step\<^sup>*\<^sup>* s t \<Longrightarrow> inv s \<Longrightarrow> inv t"
  using kept.rel_reachable by blast

end

section \<open>What the tries of a node change\<close>

text \<open>The runs of a node that have ended; the empty run of a tool has no status.\<close>

definition ran :: "IRunData \<Rightarrow> string \<Rightarrow> ITaskData list" where
  "ran runData n = filter (\<lambda>t. task_executionStatus t \<noteq> None) (own_or [] runData n)"

text \<open>Two workflows that differ at most in what a run writes into node objects.\<close>

definition same_shape :: "Workflow \<Rightarrow> Workflow \<Rightarrow> bool" where
  "same_shape w w' \<longleftrightarrow> connectionsBySourceNode w' = connectionsBySourceNode w \<and>
     connectionsByDestinationNode w' = connectionsByDestinationNode w \<and>
     wf_executionOrder w' = wf_executionOrder w \<and>
     map (\<lambda>(k, node). (k, node_name node)) (wf_nodes w') = map (\<lambda>(k, node). (k, node_name node)) (wf_nodes w)"

definition only_tries :: "run_state \<Rightarrow> run_state \<Rightarrow> bool" where
  "only_tries rs rs' \<longleftrightarrow> same_shape (rs_workflow rs) (rs_workflow rs') \<and>
     rs_executionIndex rs' = rs_executionIndex rs \<and> rs_lastTry rs' = rs_lastTry rs \<and>
     rs_resultError rs' = rs_resultError rs \<and> rs_executionError rs' = rs_executionError rs \<and>
     (\<forall>n. \<exists>ps. own_or [] (rs_runData rs') n = own_or [] (rs_runData rs) n @ ps \<and>
        (\<forall>p\<in>set ps. task_executionStatus p = None))"

lemma same_shape_refl [simp]: "same_shape w w"
  by (simp add: same_shape_def)

lemma same_shape_trans: "same_shape u v \<Longrightarrow> same_shape v w \<Longrightarrow> same_shape u w"
  by (simp add: same_shape_def)

lemma only_tries_refl [simp]: "only_tries rs rs"
  by (simp add: only_tries_def)

lemma only_tries_trans:
  assumes "only_tries a b" "only_tries b c"
  shows "only_tries a c"
proof -
  have "\<exists>ps. own_or [] (rs_runData c) n = own_or [] (rs_runData a) n @ ps \<and> (\<forall>p\<in>set ps. task_executionStatus p = None)" for n
  proof -
    obtain ps qs where "own_or [] (rs_runData b) n = own_or [] (rs_runData a) n @ ps"
      "own_or [] (rs_runData c) n = own_or [] (rs_runData b) n @ qs"
      "\<forall>p\<in>set ps. task_executionStatus p = None" "\<forall>p\<in>set qs. task_executionStatus p = None"
      using assms unfolding only_tries_def by meson
    then show ?thesis
      by (intro exI [of _ "ps @ qs"]) auto
  qed
  then show ?thesis
    using assms unfolding only_tries_def by (auto intro: same_shape_trans)
qed

named_theorems only_tries_intros \<open>the operations that leave everything but the tries alone\<close>

lemma only_tries_updates [simp, only_tries_intros]:
  "only_tries rs (rs\<lparr>rs_lastNodeExecuted := l\<rparr>)" "only_tries rs (rs\<lparr>rs_execution := st\<rparr>)"
  "only_tries rs (rs\<lparr>rs_calls := c, rs_waitTill := w\<rparr>)"
  by (simp_all add: only_tries_def)

lemma only_tries_callNode [only_tries_intros]: "callNode env e ri resp rs = (rs', r) \<Longrightarrow> only_tries rs rs'"
  by (auto simp: callNode_def split: prod.splits)

lemma same_shape_map_nodes:
  assumes "\<And>node. node_name (f node) = node_name node"
  shows "same_shape w (w\<lparr>wf_nodes := map (\<lambda>(k, node). (k, f node)) (wf_nodes w)\<rparr>)"
  using assms by (simp add: same_shape_def case_prod_beta)

lemma node_name_rewire [simp]: "node_name (rewireNode ref t node) = node_name node"
  by (simp add: rewireNode_def)

lemma only_tries_rewireAll: "only_tries rs (rewireAll ref t rs)"
  by (simp add: only_tries_def rewireAll_def same_shape_map_nodes)

lemma only_tries_prepareAction:
  assumes "prepareAction e ri action rs = (rs', r)"
  shows "only_tries rs rs'"
proof (cases "getNode (rs_workflow rs) (action_nodeName action)")
  case None
  with assms show ?thesis
    by (simp add: prepareAction_def)
next
  case (Some node)
  with assms obtain task where "rs' = (rewireAll (node_ref node) (action_type action) rs)\<lparr>rs_runData :=
      map_set (node_name node) (own_or [] (rs_runData (rewireAll (node_ref node) (action_type action) rs)) (node_name node) @ [task])
        (rs_runData (rewireAll (node_ref node) (action_type action) rs))\<rparr>" "task_executionStatus task = None"
    by (auto simp: prepareAction_def Let_def initializeNodeRunData_def placeholder_def)
  then have "only_tries (rewireAll (node_ref node) (action_type action) rs) rs'"
    by (auto simp: only_tries_def)
  with only_tries_rewireAll show ?thesis
    by (rule only_tries_trans)
qed

lemma only_tries_prepareRequested:
  "prepareRequestedNodesForExecution e ri actions rs = (rs', r) \<Longrightarrow> only_tries rs rs'"
proof (induction actions arbitrary: rs rs' r)
  case (Cons action actions)
  obtain rs1 r1 where one: "prepareAction e ri action rs = (rs1, r1)"
    by fastforce
  obtain rs2 r2 where two: "prepareRequestedNodesForExecution e ri actions rs1 = (rs2, r2)"
    by fastforce
  from Cons.prems one two have "rs' = rs1 \<or> rs' = rs2"
    by (auto split: sum.splits)
  with Cons.IH [OF two] only_tries_prepareAction [OF one] show ?case
    by (auto intro: only_tries_trans)
qed simp

lemma only_tries_addAll: "addAllRequested nbs rs = (rs', r) \<Longrightarrow> only_tries rs rs'"
proof (induction nbs arbitrary: rs)
  case (Cons nb nbs)
  obtain rs1 r1 where one: "addRequested nb rs = (rs1, r1)"
    by fastforce
  then have "only_tries rs rs1"
    by (auto simp: addRequested_def split: option.splits sum.splits)
  with Cons one show ?case
    by (auto split: option.splits intro: only_tries_trans)
qed simp

lemma only_tries_handleEngineRequest [only_tries_intros]:
  assumes "handleEngineRequest e ri request rs = (rs', r)"
  shows "only_tries rs rs'"
proof -
  obtain rs1 r1 where one: "handleRequest e ri request rs = (rs1, r1)"
    by fastforce
  then have "only_tries rs rs1"
    by (auto simp: handleRequest_def split: prod.splits sum.splits option.splits dest!: only_tries_prepareRequested)
  with assms one show ?thesis
    by (auto simp: handleEngineRequest_def split: sum.splits intro: only_tries_trans dest: only_tries_addAll)
qed

lemma only_tries_finishTry [only_tries_intros]: "finishTry env e err d rs = (rs', d', out) \<Longrightarrow> only_tries rs rs'"
  by (auto simp: finishTry_def Let_def split: option.splits sum.splits if_splits)

text \<open>A relation that holds along the calls, the requests and the end of a try holds along all tries.\<close>

locale try_relation =
  fixes env :: engine and e :: IExecuteData and ri :: nat and R :: "run_state \<Rightarrow> run_state \<Rightarrow> bool"
  assumes R_refl: "R rs rs"
    and R_trans: "R rs rs' \<Longrightarrow> R rs' rs'' \<Longrightarrow> R rs rs''"
    and R_call: "callNode env e ri resp rs = (rs', r) \<Longrightarrow> R rs rs'"
    and R_request: "handleEngineRequest e ri request rs = (rs', err) \<Longrightarrow> R rs rs'"
    and R_finish: "finishTry env e b d rs = (rs', d', out) \<Longrightarrow> R rs rs'"
    and R_last: "R rs (rs\<lparr>rs_lastNodeExecuted := l\<rparr>)"
begin

lemma R_softLoop: "softLoop left env e ri r rs = (left', rs', res) \<Longrightarrow> R rs rs'"
proof (induction left arbitrary: r rs)
  case (Suc left)
  obtain rs1 r1 where one: "callNode env e ri None rs = (rs1, r1)"
    by fastforce
  with Suc R_call [OF one] show ?case
    by (auto split: if_splits sum.splits intro: R_trans R_refl)
qed (simp add: R_refl)

lemma R_attempt:
  assumes "attempt env e ri left resp d rs = (left', resp', rs', d', out)"
  shows "R rs rs'"
proof (cases "pinned env e")
  case (Some items)
  with assms show ?thesis
    by (auto simp: attempt_def intro: R_finish)
next
  case None
  obtain rs1 r1 where one: "callNode env e ri (Some (collectResponses e (rs_runData rs) resp)) rs = (rs1, r1)"
    by fastforce
  obtain left2 rs2 r2 where two: "(case r1 of Inl err \<Rightarrow> (left, rs1, Inl err) | Inr r \<Rightarrow> softLoop left env e ri r rs1) = (left2, rs2, r2)"
    by (cases "case r1 of Inl err \<Rightarrow> (left, rs1, Inl err) | Inr r \<Rightarrow> softLoop left env e ri r rs1") auto
  have "R rs rs1" "R rs1 rs2"
    using R_call [OF one] two by (auto split: sum.splits dest: R_softLoop intro: R_refl)
  then have "R rs rs2"
    by (rule R_trans)
  moreover have "R rs2 rs'"
    using assms None one two
    by (auto simp: attempt_def Let_def split: sum.splits node_result.splits prod.splits option.splits
        dest: R_request R_finish intro: R_refl)
  ultimately show ?thesis
    by (rule R_trans)
qed

lemma R_tryLoop: "tryLoop env e ri left resp d rs = (rs', res) \<Longrightarrow> R rs rs'"
proof (induction left arbitrary: resp d rs rule: less_induct)
  case (less left)
  obtain left1 resp1 rs1 d1 out where one: "attempt env e ri left resp d rs = (left1, resp1, rs1, d1, out)"
    by (cases "attempt env e ri left resp d rs") auto
  let ?rs = "rs1\<lparr>rs_lastNodeExecuted := Some (entry_name e)\<rparr>"
  have first: "R rs rs1" "R rs ?rs"
    using R_attempt [OF one] R_last R_trans by blast+
  have "R ?rs rs'" if "left1 \<noteq> 0" "tryLoop env e ri (left1 - 1) resp1 d1 ?rs = (rs', res)"
    using less.IH [OF _ that(2)] that(1) attempt_left [OF one] by simp
  with less.prems one first show ?case
    by (cases out) (auto simp: tryLoop.simps [of env e ri left resp d rs] Let_def split: if_splits intro: R_trans)
qed

end

interpretation tries: try_relation env e ri only_tries
  by unfold_locales (auto intro: only_tries_trans only_tries_intros)

section \<open>What an iteration writes into the run data\<close>

definition runs_of :: "run_state \<Rightarrow> string \<Rightarrow> ITaskData list" where
  "runs_of rs n = own_or [] (rs_runData rs) n"

text \<open>At most the run at one place is new: that of the entry's node, with the index of this iteration
  and a status.\<close>

definition stored_at :: "string \<Rightarrow> nat \<Rightarrow> nat \<Rightarrow> run_state \<Rightarrow> run_state \<Rightarrow> bool" where
  "stored_at name runIndex index rs rs' \<longleftrightarrow>
     (\<exists>task. task_executionIndex task = Some index \<and> task_executionStatus task \<noteq> None \<and>
        (\<forall>n. runs_of rs' n = own_or [] (storeRun name runIndex task (rs_runData rs)) n))"

lemma runs_of_simps [simp]:
  "runs_of (rs\<lparr>rs_execution := st\<rparr>) n = runs_of rs n" "runs_of (rs\<lparr>rs_runData := rd\<rparr>) n = own_or [] rd n"
  "runs_of (unshiftEntry e rs) n = runs_of rs n"
  by (simp_all add: runs_of_def unshiftEntry_def)

lemma scheduleNext_runs [simp]:
  "runs_of (state_of (scheduleNext env e ri data rs)) n = runs_of rs n"
  "rs_executionIndex (state_of (scheduleNext env e ri data rs)) = rs_executionIndex rs"
  "rs_executionError (state_of (scheduleNext env e ri data rs)) = rs_executionError rs"
  by (simp_all add: scheduleNext_def split: sum.splits)

lemma withData_keeps [simp]:
  "task_executionIndex (withData e ri rd data task) = task_executionIndex task"
  "task_executionStatus (withData e ri rd data task) = task_executionStatus task"
  "task_error (withData e ri rd data task) = task_error task"
  by (simp_all add: withData_def split: option.splits)

lemma recordSuccess_runs:
  assumes "task_executionIndex task = Some index" "task_executionStatus task \<noteq> None"
  shows "(\<forall>n. runs_of (state_of (recordSuccess env e ri task data rs)) n = runs_of rs n) \<or>
    stored_at (entry_name e) ri index rs (state_of (recordSuccess env e ri task data rs))"
proof (cases "mergeErrors data")
  case (Inl err)
  then show ?thesis
    by (simp add: recordSuccess_def)
next
  case (Inr outs)
  let ?task = "withData e ri (rs_runData rs) (map Some outs) task"
  have "\<forall>n. runs_of (state_of (recordSuccess env e ri task data rs)) n = own_or [] (storeRun (entry_name e) ri ?task (rs_runData rs)) n"
    using Inr by (simp add: recordSuccess_def Let_def)
  with assms show ?thesis
    unfolding stored_at_def by (intro disjI2 exI [of _ ?task]) simp
qed

lemma recordSuccess_index [simp]:
  "rs_executionIndex (state_of (recordSuccess env e ri task data rs)) = rs_executionIndex rs"
  "rs_executionError (state_of (recordSuccess env e ri task data rs)) = rs_executionError rs"
  by (simp_all add: recordSuccess_def Let_def unshiftEntry_def split: sum.splits)

lemma recordFailure_runs:
  assumes "task_executionIndex task = Some index" "task_executionStatus task \<noteq> None"
  shows "stored_at (entry_name e) ri index rs (recordFailure e ri task err rs)"
  using assms unfolding stored_at_def
  by (intro exI [of _ "if node_rewireOutputLogTo (exec_node e) = None then task
    else withData e ri (rs_runData rs) [Some [error_item err]] task"]) (simp add: recordFailure_def Let_def)

lemma own_or_storeRun:
  "own_or [] (storeRun name ri task rd) n =
     (if n = name then
        (if ri < length (own_or [] rd n) then (own_or [] rd n)[ri := assign_task (own_or [] rd n ! ri) task]
         else own_or [] rd n @ [task])
      else own_or [] rd n)"
  by (simp add: storeRun_def Let_def)

lemma stored_at_same_runs:
  assumes "\<forall>n. runs_of rs n = runs_of rs0 n" "stored_at name ri index rs rs'"
  shows "stored_at name ri index rs0 rs'"
proof -
  have "own_or [] (storeRun name ri task (rs_runData rs)) n = own_or [] (storeRun name ri task (rs_runData rs0)) n" for task n
    using assms(1) by (simp only: own_or_storeRun runs_of_def)
  with assms(2) show ?thesis
    by (simp add: stored_at_def)
qed

lemma recordRun_runs:
  "(\<forall>n. runs_of (state_of (recordRun env e ri index err data rs)) n = runs_of rs n) \<or>
    stored_at (entry_name e) ri index rs (state_of (recordRun env e ri index err data rs))"
proof -
  let ?rs = "rs\<lparr>rs_runData := map_set (entry_name e) (own_or [] (rs_runData rs) (entry_name e)) (rs_runData rs), rs_executionError := err\<rparr>"
  let ?task = "newTask e index ?rs"
  have same: "\<forall>n. runs_of ?rs n = runs_of rs n"
    by (simp add: runs_of_def)
  have task: "task_executionIndex ?task = Some index" "task_executionStatus ?task \<noteq> None"
    by (simp_all add: newTask_def)
  note unfold = recordRun_def [unfolded Let_def]
  show ?thesis
  proof (cases err)
    case None
    with recordSuccess_runs [OF task, of env e ri data ?rs] same stored_at_same_runs [OF same] show ?thesis
      by (auto simp: unfold)
  next
    case (Some e')
    let ?etask = "?task\<lparr>task_error := Some e', task_executionStatus := Some ErrorStatus\<rparr>"
    have "task_executionIndex ?etask = Some index" "task_executionStatus ?etask \<noteq> None"
      using task by simp_all
    note s = recordSuccess_runs [OF this, of env e ri "dataOnError e e' data" ?rs] and
      f = recordFailure_runs [OF this, of e ri ?rs e']
    from Some s f same stored_at_same_runs [OF same] show ?thesis
      by (auto simp: unfold)
  qed
qed

lemma recordRun_index [simp]:
  "rs_executionIndex (state_of (recordRun env e ri index err data rs)) = rs_executionIndex rs"
  "rs_executionError (state_of (recordRun env e ri index err data rs)) = err"
  by (simp_all add: recordRun_def Let_def recordFailure_def unshiftEntry_def split: option.splits)

text \<open>Whether the filter lets a node run.\<close>

definition may_run :: "engine \<Rightarrow> string \<Rightarrow> bool" where
  "may_run env name \<longleftrightarrow> (case en_runNodeFilter env of None \<Rightarrow> True | Some names \<Rightarrow> name \<in> set names)"

lemma runEntry_runs:
  "rs_executionIndex (state_of (runEntry env e index rs)) = rs_executionIndex rs \<and>
    (\<exists>rs1. only_tries rs rs1 \<and>
       ((\<forall>n. runs_of (state_of (runEntry env e index rs)) n = runs_of rs1 n) \<or>
        may_run env (entry_name e) \<and> stored_at (entry_name e) (runIndexOf e (rs_runData rs)) index rs1 (state_of (runEntry env e index rs))))"
proof (cases "rs_lastTry rs = Some (entry_name e, runIndexOf e (rs_runData rs)) \<or> \<not> may_run env (entry_name e) \<or>
    \<not> ensureInputData (rs_workflow rs) e")
  case True
  then have "rs_executionIndex (state_of (runEntry env e index rs)) = rs_executionIndex rs"
    "\<forall>n. runs_of (state_of (runEntry env e index rs)) n = runs_of rs n"
    by (auto simp: runEntry_def may_run_def runs_of_def Let_def split: option.splits)
  then show ?thesis
    by (intro conjI exI [of _ rs]) auto
next
  case False
  obtain rs1 res where loop: "tryLoop env e (runIndexOf e (rs_runData rs)) (maxTries e - 1) makeEngineResponse None rs = (rs1, res)"
    by fastforce
  have "runEntry env e index rs = (case res of None \<Rightarrow> Looping rs1
      | Some (err, data) \<Rightarrow> recordRun env e (runIndexOf e (rs_runData rs)) index err data rs1)"
    using False loop by (auto simp: runEntry_def may_run_def Let_def split: option.splits)
  moreover have "rs_executionIndex rs1 = rs_executionIndex rs" "only_tries rs rs1"
    using tries.R_tryLoop [OF loop] by (simp_all add: only_tries_def)
  ultimately show ?thesis
    using False recordRun_runs by (fastforce split: option.splits prod.splits)
qed


lemma stored_at_other: "stored_at name ri index rs rs' \<Longrightarrow> n \<noteq> name \<Longrightarrow> runs_of rs' n = runs_of rs n"
  by (auto simp: stored_at_def own_or_storeRun runs_of_def)

text \<open>New empty runs of tools only.\<close>

definition adds_placeholders :: "(string \<Rightarrow> ITaskData list) \<Rightarrow> (string \<Rightarrow> ITaskData list) \<Rightarrow> bool" where
  "adds_placeholders f g \<longleftrightarrow> (\<forall>n. \<exists>ps. g n = f n @ ps \<and> (\<forall>p\<in>set ps. task_executionStatus p = None))"

lemma adds_placeholders_refl [simp]: "adds_placeholders f f"
  by (simp add: adds_placeholders_def)

lemma pairInputs_node [simp]: "exec_node (pairInputs e) = exec_node e"
  by (simp add: pairInputs_def)

text \<open>A step adds empty runs, and then at most one ended run: that of a node the filter lets run,
  with an execution index that was not used before.\<close>

lemma step_runs:
  assumes "loop_step env s t"
  shows "rs_executionIndex (state_of s) \<le> rs_executionIndex (state_of t) \<and>
    (\<exists>rs1. adds_placeholders (runs_of (state_of s)) (runs_of rs1) \<and>
       ((\<forall>n. runs_of (state_of t) n = runs_of rs1 n) \<or>
        (\<exists>name ri. may_run env name \<and> rs_executionIndex (state_of t) = Suc (rs_executionIndex (state_of s)) \<and>
           stored_at name ri (rs_executionIndex (state_of s)) rs1 (state_of t))))"
  using assms
proof cases
  case (iterate rs)
  show ?thesis
  proof (cases "nodeExecutionStack (rs_execution rs)")
    case Nil
    with iterate show ?thesis
      by (intro conjI exI [of _ rs]) (auto simp: executionStep_def)
  next
    case (Cons e rest)
    let ?rs = "rs\<lparr>rs_execution := (rs_execution rs)\<lparr>nodeExecutionStack := rest\<rparr>, rs_executionError := None,
      rs_executionIndex := Suc (rs_executionIndex rs)\<rparr>"
    have t: "t = runEntry env (pairInputs e) (rs_executionIndex rs) ?rs"
      using iterate Cons by (simp add: executionStep_def)
    obtain rs1 where rs1: "only_tries ?rs rs1"
      "(\<forall>n. runs_of (state_of t) n = runs_of rs1 n) \<or> may_run env (entry_name e) \<and>
        stored_at (entry_name e) (runIndexOf (pairInputs e) (rs_runData ?rs)) (rs_executionIndex rs) rs1 (state_of t)"
      and "rs_executionIndex (state_of t) = Suc (rs_executionIndex rs)"
      using runEntry_runs [of env "pairInputs e" "rs_executionIndex rs" ?rs] unfolding t by auto
    moreover have "adds_placeholders (runs_of rs) (runs_of rs1)"
      using rs1(1) by (simp add: only_tries_def adds_placeholders_def runs_of_def)
    ultimately show ?thesis
      using iterate by auto
  qed
next
  case (cancel rs timedOut)
  then show ?thesis
    by (intro conjI exI [of _ rs]) auto
qed

section \<open>The filter\<close>

lemma ran_simp: "ran (rs_runData rs) n = filter (\<lambda>t. task_executionStatus t \<noteq> None) (runs_of rs n)"
  by (simp add: ran_def runs_of_def)

lemma ran_placeholders:
  assumes "adds_placeholders (runs_of rs) (runs_of rs1)"
  shows "ran (rs_runData rs1) n = ran (rs_runData rs) n"
proof -
  obtain ps where "runs_of rs1 n = runs_of rs n @ ps" "\<forall>p\<in>set ps. task_executionStatus p = None"
    using assms by (auto simp: adds_placeholders_def)
  then show ?thesis
    by (simp add: ran_simp filter_empty_conv)
qed

definition outside_kept :: "engine \<Rightarrow> loop_state \<Rightarrow> loop_state \<Rightarrow> bool" where
  "outside_kept env s t \<longleftrightarrow>
     (\<forall>n. \<not> may_run env n \<longrightarrow> ran (rs_runData (state_of t)) n = ran (rs_runData (state_of s)) n)"

interpretation filtered: step_order "loop_step env" "outside_kept env"
proof
  fix s t
  assume step: "loop_step env s t"
  have "ran (rs_runData (state_of t)) n = ran (rs_runData (state_of s)) n" if n: "\<not> may_run env n" for n
  proof -
    obtain rs1 where rs1: "adds_placeholders (runs_of (state_of s)) (runs_of rs1)" "runs_of (state_of t) n = runs_of rs1 n"
      using step_runs [OF step] n stored_at_other by metis
    then show ?thesis
      using ran_placeholders [OF rs1(1), of n] by (simp add: ran_simp)
  qed
  then show "outside_kept env s t"
    by (simp add: outside_kept_def)
qed (auto simp: outside_kept_def)


section \<open>Execution indexes\<close>

text \<open>Every ended run has an execution index below the next one, and no two have the same.\<close>

definition has_run :: "run_state \<Rightarrow> string \<Rightarrow> nat \<Rightarrow> nat \<Rightarrow> bool" where
  "has_run rs n i k \<longleftrightarrow> i < length (runs_of rs n) \<and> task_executionStatus (runs_of rs n ! i) \<noteq> None \<and>
     task_executionIndex (runs_of rs n ! i) = Some k"

definition indexes_ok :: "run_state \<Rightarrow> bool" where
  "indexes_ok rs \<longleftrightarrow>
     (\<forall>n i. i < length (runs_of rs n) \<and> task_executionStatus (runs_of rs n ! i) \<noteq> None \<longrightarrow>
        (\<exists>k < rs_executionIndex rs. has_run rs n i k)) \<and>
     (\<forall>n i m j k. has_run rs n i k \<and> has_run rs m j k \<longrightarrow> n = m \<and> i = j)"

lemma has_run_placeholders:
  assumes "adds_placeholders (runs_of rs) (runs_of rs1)"
  shows "has_run rs1 n i k \<longleftrightarrow> has_run rs n i k"
    and "i < length (runs_of rs1 n) \<Longrightarrow> task_executionStatus (runs_of rs1 n ! i) \<noteq> None \<Longrightarrow>
      i < length (runs_of rs n) \<and> task_executionStatus (runs_of rs n ! i) \<noteq> None"
proof -
  obtain ps where ps: "runs_of rs1 n = runs_of rs n @ ps" "\<forall>p\<in>set ps. task_executionStatus p = None"
    using assms by (auto simp: adds_placeholders_def)
  have last: "task_executionStatus (runs_of rs1 n ! i) = None" if "\<not> i < length (runs_of rs n)" "i < length (runs_of rs1 n)"
    using ps that by (simp add: nth_append)
  with ps show "has_run rs1 n i k \<longleftrightarrow> has_run rs n i k"
    by (auto simp: has_run_def nth_append)
  assume i: "i < length (runs_of rs1 n)" "task_executionStatus (runs_of rs1 n ! i) \<noteq> None"
  with last have "i < length (runs_of rs n)"
    by blast
  with i(2) ps(1) show "i < length (runs_of rs n) \<and> task_executionStatus (runs_of rs n ! i) \<noteq> None"
    by (simp add: nth_append)
qed

lemma assign_task_keeps [simp]:
  "task_executionIndex (assign_task old new) = task_executionIndex new"
  "task_executionStatus (assign_task old new) = task_executionStatus new"
  by (simp_all add: assign_task_def)

text \<open>The place a run is stored at, and the other places.\<close>

lemma stored_at_places:
  assumes "stored_at name ri index rs rs'"
  obtains i0 where "has_run rs' name i0 index" "i0 < length (runs_of rs' name)"
    "\<And>n i. (n, i) \<noteq> (name, i0) \<Longrightarrow> i < length (runs_of rs' n) \<longleftrightarrow> i < length (runs_of rs n)"
    "\<And>n i. (n, i) \<noteq> (name, i0) \<Longrightarrow> i < length (runs_of rs' n) \<Longrightarrow> runs_of rs' n ! i = runs_of rs n ! i"
proof -
  let ?i0 = "if ri < length (runs_of rs name) then ri else length (runs_of rs name)"
  obtain task where task: "task_executionIndex task = Some index" "task_executionStatus task \<noteq> None"
    "\<And>n. runs_of rs' n = (if n = name then (if ri < length (runs_of rs n) then (runs_of rs n)[ri := assign_task (runs_of rs n ! ri) task]
         else runs_of rs n @ [task]) else runs_of rs n)"
    using assms by (auto simp: stored_at_def own_or_storeRun runs_of_def)
  show thesis
  proof (rule that [of ?i0])
    show "has_run rs' name ?i0 index" "?i0 < length (runs_of rs' name)"
      using task by (auto simp: has_run_def)
    fix n i
    assume "(n, i) \<noteq> (name, ?i0)"
    then show "i < length (runs_of rs' n) \<longleftrightarrow> i < length (runs_of rs n)"
      "i < length (runs_of rs' n) \<Longrightarrow> runs_of rs' n ! i = runs_of rs n ! i"
      using task(3) [of n] by (auto split: if_splits simp: nth_append)
  qed
qed

lemma indexes_ok_placeholders:
  assumes "indexes_ok rs" "adds_placeholders (runs_of rs) (runs_of rs1)" "rs_executionIndex rs \<le> k"
  shows "indexes_ok (rs1\<lparr>rs_executionIndex := k\<rparr>)"
proof -
  note has = has_run_placeholders [OF assms(2)]
  have upd: "runs_of (rs1\<lparr>rs_executionIndex := k\<rparr>) = runs_of rs1" "has_run (rs1\<lparr>rs_executionIndex := k\<rparr>) = has_run rs1"
    by (auto simp: runs_of_def has_run_def fun_eq_iff)
  have "\<exists>k' < k. has_run rs1 n i k'" if "i < length (runs_of rs1 n)" "task_executionStatus (runs_of rs1 n ! i) \<noteq> None" for n i
    using has(2) [OF that] assms(1,3) has(1) unfolding indexes_ok_def by (meson less_le_trans)
  moreover have "n = m \<and> i = j" if "has_run rs1 n i k'" "has_run rs1 m j k'" for n i m j k'
    using that assms(1) unfolding has(1) indexes_ok_def by blast
  ultimately show ?thesis
    unfolding indexes_ok_def upd by auto
qed


lemma indexes_ok_stored:
  assumes ok: "indexes_ok rs" and new: "stored_at name ri (rs_executionIndex rs) rs rs'"
    and next_index: "rs_executionIndex rs' = Suc (rs_executionIndex rs)"
  shows "indexes_ok rs'"
proof -
  let ?k = "rs_executionIndex rs"
  obtain i0 where place: "has_run rs' name i0 ?k"
    and len: "\<And>n i. (n, i) \<noteq> (name, i0) \<Longrightarrow> i < length (runs_of rs' n) \<longleftrightarrow> i < length (runs_of rs n)"
    and eq: "\<And>n i. (n, i) \<noteq> (name, i0) \<Longrightarrow> i < length (runs_of rs' n) \<Longrightarrow> runs_of rs' n ! i = runs_of rs n ! i"
    by (rule stored_at_places [OF new]) blast
  have old: "has_run rs' n i k \<longleftrightarrow> has_run rs n i k" if "(n, i) \<noteq> (name, i0)" for n i k
    using len [OF that] eq [OF that] by (auto simp: has_run_def)
  have below: "k < ?k" if "has_run rs n i k" for n i k
    using that ok unfolding indexes_ok_def has_run_def by (metis option.inject)
  have here: "k = ?k" if "has_run rs' name i0 k" for k
    using that place by (simp add: has_run_def)
  have "\<exists>k < Suc ?k. has_run rs' n i k" if "i < length (runs_of rs' n)" "task_executionStatus (runs_of rs' n ! i) \<noteq> None" for n i
  proof (cases "(n, i) = (name, i0)")
    case True
    with place show ?thesis
      by auto
  next
    case False
    then have "i < length (runs_of rs n)" "task_executionStatus (runs_of rs n ! i) \<noteq> None"
      using that len eq by auto
    with ok old [OF False] show ?thesis
      unfolding indexes_ok_def by (meson less_SucI)
  qed
  moreover have "n = m \<and> i = j" if two: "has_run rs' n i k" "has_run rs' m j k" for n i m j k
  proof (cases "(n, i) = (name, i0) \<or> (m, j) = (name, i0)")
    case True
    then have "k = ?k"
      using two here by auto
    then have "(n, i) = (name, i0)" "(m, j) = (name, i0)"
      using two old below by (metis less_irrefl)+
    then show ?thesis
      by simp
  next
    case False
    then have "has_run rs n i k" "has_run rs m j k"
      using two old by auto
    then show ?thesis
      using ok unfolding indexes_ok_def by blast
  qed
  ultimately show ?thesis
    unfolding indexes_ok_def next_index by blast
qed

lemma indexes_ok_cong:
  assumes "\<forall>n. runs_of rs n = runs_of rs' n" "rs_executionIndex rs = rs_executionIndex rs'"
  shows "indexes_ok rs = indexes_ok rs'"
  using assms by (simp add: indexes_ok_def has_run_def)

interpretation indexed: step_invariant "loop_step env" "\<lambda>s. indexes_ok (state_of s)"
proof
  fix s t
  assume step: "loop_step env s t" and ok: "indexes_ok (state_of s)"
  let ?k = "rs_executionIndex (state_of s)" and ?k' = "rs_executionIndex (state_of t)"
  have le: "?k \<le> ?k'"
    using step_runs [OF step] by blast
  obtain rs1 where rs1: "adds_placeholders (runs_of (state_of s)) (runs_of rs1)"
    and "(\<forall>n. runs_of (state_of t) n = runs_of rs1 n) \<or>
      (\<exists>name ri. ?k' = Suc ?k \<and> stored_at name ri ?k rs1 (state_of t))"
    using step_runs [OF step] by blast
  then consider "\<forall>n. runs_of (state_of t) n = runs_of rs1 n"
    | name ri where "?k' = Suc ?k" "stored_at name ri ?k rs1 (state_of t)"
    by blast
  then show "indexes_ok (state_of t)"
  proof cases
    case 1
    then have "indexes_ok (state_of t) = indexes_ok (rs1\<lparr>rs_executionIndex := ?k'\<rparr>)"
      by (intro indexes_ok_cong) (simp_all add: runs_of_def)
    with indexes_ok_placeholders [OF ok rs1 le] show ?thesis
      by simp
  next
    case (2 name ri)
    have "indexes_ok (rs1\<lparr>rs_executionIndex := ?k\<rparr>)"
      using indexes_ok_placeholders [OF ok rs1 order_refl] .
    moreover have "stored_at name ri ?k (rs1\<lparr>rs_executionIndex := ?k\<rparr>) (state_of t)"
      using 2(2) by (rule stored_at_same_runs [rotated]) (simp add: runs_of_def)
    ultimately show ?thesis
      using indexes_ok_stored [of "rs1\<lparr>rs_executionIndex := ?k\<rparr>" name ri "state_of t"] 2(1) by simp
  qed
qed


section \<open>Sample executions\<close>

text \<open>An engine whose nodes all have a function \<open>execute\<close>, given by the number of the call.\<close>

definition sample_engine :: "(nat \<Rightarrow> nat option \<times> (ExecutionError + node_result)) \<Rightarrow> engine" where
  "sample_engine replies =
     \<lparr>en_nodeTypes = \<lambda>node. Some \<lparr>kind_name = node_type node, kind_execute = True, kind_poll = False, kind_trigger = False,
        kind_webhook = False, kind_supplyData = False, kind_declarative = False\<rparr>,
      en_rules = no_rules, en_manual = True, en_runNodeFilter = None, en_destination = None, en_pinData = [],
      en_execute = \<lambda>n call. replies n, en_produce = \<lambda>n call. Inr None, en_mainOutputs = \<lambda>node. 1,
      en_pairedItem = \<lambda>source p. Inr None\<rparr>"

definition failure :: ExecutionError where
  "failure = \<lparr>error_name = Some ''NodeOperationError'', error_message = ''failed''\<rparr>"

definition sample_entry :: "INode \<Rightarrow> IExecuteData" where
  "sample_entry node =
     \<lparr>exec_node = node, exec_data = [(Main, [Some [sample_item]])], exec_source = None, exec_runIndex = None, exec_metadata = None\<rparr>"

definition sample_state :: "Workflow \<Rightarrow> IExecuteData list \<Rightarrow> run_state" where
  "sample_state workflow entries =
     \<lparr>rs_workflow = workflow, rs_execution = no_stack\<lparr>nodeExecutionStack := entries\<rparr>, rs_runData = [],
      rs_lastNodeExecuted = None, rs_resultError = None, rs_waitTill = None, rs_executionIndex = 0,
      rs_lastTry = None, rs_executionError = None, rs_calls = 0\<rparr>"

text \<open>A workflow with a branch and a merge, started at its first node; every node passes one item on.\<close>

definition passing :: engine where
  "passing = sample_engine (\<lambda>n. (None, Inr (Output (Some [Some [sample_item]]))))"

definition merge_start :: run_state where
  "merge_start = sample_state merge_workflow [sample_entry (sample_node 0 ''t'')]"

primrec iterate_loop :: "nat \<Rightarrow> engine \<Rightarrow> loop_state \<Rightarrow> loop_state" where
  "iterate_loop 0 env s = s"
| "iterate_loop (Suc k) env s = (case s of Looping rs \<Rightarrow> iterate_loop k env (executionStep env rs) | _ \<Rightarrow> s)"

lemma iterate_loop_reachable: "(loop_step env)\<^sup>*\<^sup>* s (iterate_loop k env s)"
proof (induction k arbitrary: s)
  case (Suc k)
  show ?case
  proof (cases s)
    case (Looping rs)
    with Suc [of "executionStep env rs"] loop_step.iterate [of env rs] show ?thesis
      by (simp add: converse_rtranclp_into_rtranclp)
  qed simp_all
qed simp

text \<open>The execution with a filter that leaves out one branch and the merging node.\<close>

definition filtering :: engine where
  "filtering = passing\<lparr>en_runNodeFilter := Some [''t'', ''a'']\<rparr>"



end
