(* ===== verification/Execution_Outcomes.thy ===== *)
theory Execution_Outcomes
  imports Execution_Invariants
begin

text \<open>
  How iterations of the execution loop end: how often a node is tried, what a failed node leaves
  behind, what happens to an execution that waits and is resumed, and how tools requested by a node
  are run.
\<close>

section \<open>The number of tries\<close>

lemma calls_prepareRequested:
  "prepareRequestedNodesForExecution e ri actions rs = (rs', r) \<Longrightarrow> rs_calls rs' = rs_calls rs"
proof (induction actions arbitrary: rs rs' r)
  case (Cons action actions)
  obtain rs1 r1 where one: "prepareAction e ri action rs = (rs1, r1)"
    by fastforce
  then have "rs_calls rs1 = rs_calls rs"
    by (auto simp: prepareAction_def Let_def initializeNodeRunData_def rewireAll_def split: option.splits)
  with Cons one show ?case
    by (auto split: sum.splits prod.splits)
qed simp

lemma calls_addRequested: "addRequested nb rs = (rs', r) \<Longrightarrow> rs_calls rs' = rs_calls rs"
  by (auto simp: addRequested_def split: option.splits sum.splits)

lemma calls_addAll: "addAllRequested nbs rs = (rs', r) \<Longrightarrow> rs_calls rs' = rs_calls rs"
proof (induction nbs arbitrary: rs)
  case (Cons nb nbs)
  obtain rs1 r1 where one: "addRequested nb rs = (rs1, r1)"
    by fastforce
  then have "rs_calls rs1 = rs_calls rs"
    by (rule calls_addRequested)
  with Cons one show ?case
    by (auto split: option.splits)
qed simp

lemma calls_handleEngineRequest: "handleEngineRequest e ri request rs = (rs', r) \<Longrightarrow> rs_calls rs' = rs_calls rs"
  by (auto simp: handleEngineRequest_def handleRequest_def split: prod.splits sum.splits option.splits
      dest!: calls_prepareRequested calls_addRequested calls_addAll)

lemma calls_callNode: "callNode env e ri resp rs = (rs', r) \<Longrightarrow> rs_calls rs' = Suc (rs_calls rs)"
  by (auto simp: callNode_def split: prod.splits)

lemma calls_finishTry: "finishTry env e err d rs = (rs', d', out) \<Longrightarrow> rs_calls rs' = rs_calls rs"
  by (auto simp: finishTry_def Let_def split: option.splits sum.splits if_splits)

lemma calls_softLoop:
  "softLoop left env e ri r rs = (left', rs', res) \<Longrightarrow>
    rs_calls rs' + left' = rs_calls rs + left + (case res of Inl _ \<Rightarrow> 1 | Inr _ \<Rightarrow> 0) \<and> (isl res \<longrightarrow> 0 < left')"
proof (induction left arbitrary: r rs)
  case (Suc left)
  obtain rs1 r1 where one: "callNode env e ri None rs = (rs1, r1)"
    by fastforce
  show ?case
  proof (cases "checkFailure r \<and> \<not> isl r1")
    case True
    then obtain r2 where "r1 = Inr r2"
      by (cases r1) auto
    with True one Suc.prems have "softLoop left env e ri r2 rs1 = (left', rs', res)"
      by simp
    with Suc.IH calls_callNode [OF one] show ?thesis
      by simp
  next
    case False
    with Suc.prems one calls_callNode [OF one] show ?thesis
      by (auto split: if_splits sum.splits)
  qed
qed auto

lemma calls_attempt:
  assumes "attempt env e ri left resp d rs = (left', resp', rs', d', out)" "pinned env e = None"
  shows "rs_calls rs < rs_calls rs' \<and> rs_calls rs' + left' \<le> rs_calls rs + left + (if left' = 0 then 1 else 2)"
proof -
  obtain rs1 r1 where one: "callNode env e ri (Some (collectResponses e (rs_runData rs) resp)) rs = (rs1, r1)"
    by fastforce
  obtain left2 rs2 r2 where two: "(case r1 of Inl err \<Rightarrow> (left, rs1, Inl err) | Inr r \<Rightarrow> softLoop left env e ri r rs1) = (left2, rs2, r2)"
    by (cases "case r1 of Inl err \<Rightarrow> (left, rs1, Inl err) | Inr r \<Rightarrow> softLoop left env e ri r rs1") auto
  have "rs_calls rs1 = Suc (rs_calls rs)"
    using calls_callNode [OF one] .
  moreover have "rs_calls rs1 \<le> rs_calls rs2 \<and> rs_calls rs2 + left2 \<le> rs_calls rs1 + left + (if left2 = 0 then 0 else 1)"
  proof (cases r1)
    case (Inr r)
    with two have soft: "softLoop left env e ri r rs1 = (left2, rs2, r2)"
      by simp
    show ?thesis
      using calls_softLoop [OF soft] softLoop_left [OF soft] by (cases r2) auto
  qed (use two in auto)
  moreover have "left' = left2" "rs_calls rs' = rs_calls rs2"
    using assms one two by (auto simp: attempt_def Let_def split: sum.splits node_result.splits prod.splits option.splits
        dest: calls_handleEngineRequest calls_finishTry)
  ultimately show ?thesis
    by (auto split: if_splits)
qed

lemma calls_tryLoop:
  "tryLoop env e ri left resp d rs = (rs', res) \<Longrightarrow> pinned env e = None \<Longrightarrow>
    rs_calls rs < rs_calls rs' \<and> rs_calls rs' \<le> rs_calls rs + (2 * left + 1)"
proof (induction env e ri left resp d rs rule: tryLoop.induct)
  case (1 env e ri left resp d rs)
  obtain left1 resp1 rs1 d1 out where one: "attempt env e ri left resp d rs = (left1, resp1, rs1, d1, out)"
    by (cases "attempt env e ri left resp d rs") auto
  note calls = calls_attempt [OF one 1(3)] and left1 = attempt_left [OF one]
  note loop = tryLoop.simps [of env e ri left resp d rs]
  show ?case
  proof (cases out)
    case (Caught err)
    let ?rs = "rs1\<lparr>rs_lastNodeExecuted := Some (entry_name e)\<rparr>"
    show ?thesis
    proof (cases "left1 = 0")
      case True
      with 1(2) one Caught calls left1 show ?thesis
        by (auto simp: loop Let_def)
    next
      case False
      then have "tryLoop env e ri (left1 - 1) resp1 d1 ?rs = (rs', res)"
        using 1(2) one Caught by (simp add: loop Let_def)
      with 1(1) [OF one [symmetric] refl refl refl Caught refl False] 1(3)
      have "rs_calls rs1 < rs_calls rs' \<and> rs_calls rs' \<le> rs_calls rs1 + (2 * (left1 - 1) + 1)"
        by simp
      with calls left1 False show ?thesis
        by simp arith
    qed
  qed (use 1(2) one calls left1 in \<open>auto simp: loop split: if_splits\<close>)
qed

lemma calls_recordRun [simp]: "rs_calls (state_of (recordRun env e ri index err data rs)) = rs_calls rs"
proof -
  have "rs_calls (state_of (scheduleNext env e ri d rs)) = rs_calls rs" for d rs
    by (simp add: scheduleNext_def split: sum.splits)
  then have "rs_calls (state_of (recordSuccess env e ri task d rs)) = rs_calls rs" for task d rs
    by (simp add: recordSuccess_def Let_def unshiftEntry_def split: sum.splits)
  then show ?thesis
    by (simp add: recordRun_def Let_def recordFailure_def unshiftEntry_def split: option.splits)
qed

lemma maxTries_range: "1 \<le> maxTries e" "maxTries e \<le> 5"
  by (auto simp: maxTries_def)

lemma maxTries_pairInputs [simp]: "maxTries (pairInputs e) = maxTries e"
  by (simp add: maxTries_def retries_def resumeError_def pairInputs_def)

text \<open>\<^bold>\<open>C12.\<close> 
  A node is tried a bounded number of times.  The limit of tries is between one and five, the pause
  between them at most five seconds; an iteration calls the node at least once unless it has pinned
  data, at most twice per try but for the last, and exactly once when the node is not to be retried.
\<close>
theorem tries_bounded:
  assumes "tryLoop env e ri (maxTries e - 1) resp d rs = (rs', res)" "pinned env e = None"
  shows "1 \<le> maxTries e \<and> maxTries e \<le> 5 \<and> 0 \<le> waitBetweenTries e \<and> waitBetweenTries e \<le> 5000 \<and>
    rs_calls rs < rs_calls rs' \<and> rs_calls rs' < rs_calls rs + 2 * maxTries e \<and>
    (\<not> retries e \<longrightarrow> rs_calls rs' = Suc (rs_calls rs))"
proof -
  have "rs_calls rs < rs_calls rs' \<and> rs_calls rs' \<le> rs_calls rs + (2 * (maxTries e - 1) + 1)"
    using calls_tryLoop [OF assms] .
  moreover have "\<not> retries e \<Longrightarrow> maxTries e = 1"
    by (simp add: maxTries_def)
  ultimately show ?thesis
    using maxTries_range [of e] by (auto simp: waitBetweenTries_def)
qed

text \<open>A node that is retried up to five times, and that alternates between an error in its output and
  an exception.\<close>

definition retried_node :: INode where
  "retried_node = (sample_node 0 ''t'')\<lparr>node_retryOnFail := Some True, node_maxTries := Some 5\<rparr>"

definition alternating :: "nat \<Rightarrow> nat option \<times> (ExecutionError + node_result)" where
  "alternating n = (None, if even n then Inr (Output (Some [Some [error_item failure]])) else Inl failure)"

text \<open>The comment and the option speak of tries; the node is called nine times with a limit of five.\<close>

lemma nine_calls_in_five_tries:
  "maxTries (sample_entry retried_node) = 5 \<and>
   rs_calls (fst (tryLoop (sample_engine alternating) (sample_entry retried_node) 0 4 makeEngineResponse None
     (sample_state merge_workflow []))) = 9"
  by code_simp

theorem tries_bounded_witness:
  "\<exists>rs' res. tryLoop (sample_engine alternating) (sample_entry retried_node) 0 4 makeEngineResponse None (sample_state merge_workflow []) = (rs', res) \<and>
     0 < rs_calls rs' \<and> rs_calls rs' < 10"
proof -
  obtain rs' res where loop: "tryLoop (sample_engine alternating) (sample_entry retried_node) 0
      (maxTries (sample_entry retried_node) - 1) makeEngineResponse None (sample_state merge_workflow []) = (rs', res)"
    by fastforce
  have "pinned (sample_engine alternating) (sample_entry retried_node) = None" "maxTries (sample_entry retried_node) = 5"
    by code_simp+
  with tries_bounded [OF loop] loop show ?thesis
    by (intro exI [of _ rs'] exI [of _ res]) (simp add: sample_state_def)
qed


section \<open>A node that fails\<close>

lemma resolve_again:
  "resolveSourceOverwrite (item\<lparr>item_pairedItem := Some (PairedTo
      \<lparr>pair_item = i, pair_input = input, pair_sourceOverwrite = resolveSourceOverwrite item e\<rparr>)\<rparr>) (e\<lparr>exec_data := d\<rparr>)
    = resolveSourceOverwrite item e"
  by (auto simp: resolveSourceOverwrite_def split: option.splits paired_item.splits)

lemma pairItems_again: "pairItems (e\<lparr>exec_data := d\<rparr>) input (pairItems e input items) = pairItems e input items"
  by (simp add: pairItems_def list_eq_iff_nth_eq nth_enumerate_eq resolve_again)

text \<open>The input of an entry that goes back to the stack is the one it ran with: pairing it again
  changes nothing.\<close>

lemma pairInputs_again: "pairInputs (pairInputs e) = pairInputs e"
proof -
  have "map (\<lambda>(input, items). map_option (pairItems (e\<lparr>exec_data := d\<rparr>) input) items)
      (enumerate 0 (map (\<lambda>(input, items). map_option (pairItems e input) items) (enumerate 0 inputs)))
    = map (\<lambda>(input, items). map_option (pairItems e input) items) (enumerate 0 inputs)" for d inputs
    by (simp add: list_eq_iff_nth_eq nth_enumerate_eq option.map_comp comp_def pairItems_again)
  then show ?thesis
    by (simp add: pairInputs_def comp_def case_prod_beta)
qed

lemma tryLoop_error_last:
  "tryLoop env e ri left resp d rs = (rs', Some (Some err, data)) \<Longrightarrow> rs_lastNodeExecuted rs' = Some (entry_name e)"
proof (induction env e ri left resp d rs rule: tryLoop.induct)
  case (1 env e ri left resp d rs)
  obtain left1 resp1 rs1 d1 out where one: "attempt env e ri left resp d rs = (left1, resp1, rs1, d1, out)"
    by (cases "attempt env e ri left resp d rs") auto
  with 1(2) show ?case
    using 1(1) [OF one [symmetric] refl refl refl _ refl]
    by (cases out) (auto simp: tryLoop.simps [of env e ri left resp d rs] Let_def split: if_splits)
qed

text \<open>Nodes that make no requests leave the stack alone while they are tried.\<close>

definition no_requests :: "engine \<Rightarrow> bool" where
  "no_requests env \<longleftrightarrow> (\<forall>n call request. snd (en_execute env n call) \<noteq> Inr (Request request))"

definition untouched :: "run_state \<Rightarrow> run_state \<Rightarrow> bool" where
  "untouched rs rs' \<longleftrightarrow> rs_execution rs' = rs_execution rs \<and> rs_runData rs' = rs_runData rs \<and> rs_workflow rs' = rs_workflow rs"

lemma callNode_no_request:
  assumes "no_requests env" "callNode env e ri resp rs = (rs', r)"
  shows "untouched rs rs' \<and> r \<noteq> Inr (Request request)"
proof -
  have "snd (runKind env k n call) \<noteq> Inr (Request request)" for k n call
  proof -
    have out: "map_sum id Output x \<noteq> Inr (Request request)" for x :: "ExecutionError + node_output"
      by (cases x) simp_all
    show ?thesis
      using assms(1) out by (simp add: runKind_def no_requests_def Let_def)
  qed
  then have "snd (runNode env rs e ri resp) \<noteq> Inr (Request request)"
    by (auto simp: runNode_def Let_def split: option.splits)
  with assms(2) show ?thesis
    by (auto simp: callNode_def untouched_def split: prod.splits)
qed

lemma softLoop_no_request:
  assumes "no_requests env"
  shows "softLoop left env e ri r rs = (left', rs', res) \<Longrightarrow> r \<noteq> Request request \<Longrightarrow>
    untouched rs rs' \<and> res \<noteq> Inr (Request request)"
proof (induction left arbitrary: r rs)
  case (Suc left)
  obtain rs1 r1 where one: "callNode env e ri None rs = (rs1, r1)"
    by fastforce
  with Suc callNode_no_request [OF assms one, of request] show ?case
    by (auto simp: untouched_def split: if_splits sum.splits)
qed (auto simp: untouched_def)

lemma attempt_no_request:
  assumes "no_requests env" "attempt env e ri left resp d rs = (left', resp', rs', d', out)"
  shows "untouched rs rs'"
proof (cases "pinned env e")
  case (Some items)
  with assms show ?thesis
    by (auto simp: attempt_def finishTry_def untouched_def Let_def split: option.splits sum.splits if_splits)
next
  case None
  obtain rs1 r1 where one: "callNode env e ri (Some (collectResponses e (rs_runData rs) resp)) rs = (rs1, r1)"
    by fastforce
  obtain left2 rs2 r2 where two: "(case r1 of Inl err \<Rightarrow> (left, rs1, Inl err) | Inr r \<Rightarrow> softLoop left env e ri r rs1) = (left2, rs2, r2)"
    by (cases "case r1 of Inl err \<Rightarrow> (left, rs1, Inl err) | Inr r \<Rightarrow> softLoop left env e ri r rs1") auto
  have "untouched rs rs2 \<and> r2 \<noteq> Inr (Request request)" for request
    using callNode_no_request [OF assms(1) one, of request] two
    by (auto simp: untouched_def split: sum.splits dest!: softLoop_no_request [OF assms(1), of _ _ _ _ _ _ _ _ request])
  moreover have "untouched rs2 rs'" if "finishTry env e err' data' rs2 = (rs', d', out)" for err' data'
    using that by (auto simp: finishTry_def untouched_def Let_def split: option.splits sum.splits if_splits)
  ultimately show ?thesis
    using assms(2) None one two
    by (auto simp: attempt_def untouched_def Let_def split: sum.splits node_result.splits prod.splits)
qed

lemma tryLoop_no_request:
  "tryLoop env e ri left resp d rs = (rs', res) \<Longrightarrow> no_requests env \<Longrightarrow> untouched rs rs'"
proof (induction env e ri left resp d rs rule: tryLoop.induct)
  case (1 env e ri left resp d rs)
  obtain left1 resp1 rs1 d1 out where one: "attempt env e ri left resp d rs = (left1, resp1, rs1, d1, out)"
    by (cases "attempt env e ri left resp d rs") auto
  with 1(2) show ?case
    using 1(1) [OF one [symmetric] refl refl refl _ refl] attempt_no_request [OF 1(3) one] 1(3)
    by (cases out) (auto simp: tryLoop.simps [of env e ri left resp d rs] untouched_def Let_def split: if_splits)
qed


text \<open>An iteration that reaches the record of a run.\<close>

lemma executionStep_recorded:
  assumes "nodeExecutionStack (rs_execution rs) = e # rest" "executionStep env rs = Stopped rs'"
  obtains rs0 rs1 err data where
    "rs0 = rs\<lparr>rs_execution := (rs_execution rs)\<lparr>nodeExecutionStack := rest\<rparr>, rs_executionError := None,
       rs_executionIndex := Suc (rs_executionIndex rs)\<rparr>"
    "tryLoop env (pairInputs e) (runIndexOf (pairInputs e) (rs_runData rs)) (maxTries e - 1) makeEngineResponse None rs0
       = (rs1, Some (err, data))"
    "recordRun env (pairInputs e) (runIndexOf (pairInputs e) (rs_runData rs)) (rs_executionIndex rs) err data rs1 = Stopped rs'"
proof -
  let ?rs0 = "rs\<lparr>rs_execution := (rs_execution rs)\<lparr>nodeExecutionStack := rest\<rparr>, rs_executionError := None,
    rs_executionIndex := Suc (rs_executionIndex rs)\<rparr>"
  have "runEntry env (pairInputs e) (rs_executionIndex rs) ?rs0 = Stopped rs'"
    using assms by (simp add: executionStep_def)
  with that [of ?rs0] show thesis
    by (auto simp: runEntry_def Let_def split: if_splits option.splits prod.splits)
qed

text \<open>The iteration stops, without waiting, only at a node that failed and does not go on.\<close>

lemma recordRun_Stopped:
  assumes "recordRun env e ri index err data rs = Stopped rs'" "rs_waitTill rs' = None"
  obtains error where "err = Some error" "\<not> goesOn (exec_node e)" "rs_lastNodeExecuted rs' = rs_lastNodeExecuted rs"
    "rs_executionError rs' = Some error"
    "rs_execution rs' = (rs_execution rs)\<lparr>nodeExecutionStack := e # nodeExecutionStack (rs_execution rs)\<rparr>"
    "\<exists>t\<in>set (runs_of rs' (entry_name e)). task_error t = Some error \<and> task_executionStatus t = Some ErrorStatus \<and>
       task_executionIndex t = Some index"
proof -
  have "recordSuccess env e ri task d rs1 \<noteq> Stopped rs'" for task d rs1
    using assms(2) by (auto simp: recordSuccess_def Let_def scheduleNext_def unshiftEntry_def split: sum.splits if_splits)
  then obtain error where err: "err = Some error" "\<not> goesOn (exec_node e)"
    using assms(1) by (cases err) (auto simp: recordRun_def Let_def split: if_splits)
  let ?rs = "rs\<lparr>rs_runData := map_set (entry_name e) (own_or [] (rs_runData rs) (entry_name e)) (rs_runData rs), rs_executionError := err\<rparr>"
  let ?task = "(newTask e index ?rs)\<lparr>task_error := Some error, task_executionStatus := Some ErrorStatus\<rparr>"
  let ?stored = "if node_rewireOutputLogTo (exec_node e) = None then ?task
    else withData e ri (rs_runData ?rs) [Some [error_item error]] ?task"
  have rs': "rs' = recordFailure e ri ?task error ?rs"
    using assms(1) err by (simp add: recordRun_def Let_def)
  then have runs: "runs_of rs' (entry_name e) = own_or [] (storeRun (entry_name e) ri ?stored (rs_runData ?rs)) (entry_name e)"
    by (simp add: recordFailure_def Let_def)
  have task: "task_error ?stored = Some error" "task_executionStatus ?stored = Some ErrorStatus"
    "task_executionIndex ?stored = Some index"
    by (simp_all add: newTask_def)
  have "\<exists>t\<in>set (runs_of rs' (entry_name e)). task_error t = Some error \<and> task_executionStatus t = Some ErrorStatus \<and>
      task_executionIndex t = Some index"
  proof (cases "ri < length (own_or [] (rs_runData ?rs) (entry_name e))")
    case True
    then have "assign_task (own_or [] (rs_runData ?rs) (entry_name e) ! ri) ?stored \<in> set (runs_of rs' (entry_name e))"
      unfolding runs own_or_storeRun by (simp add: set_update_memI)
    moreover have "task_error (assign_task old ?stored) = Some error" for old
      using task by (simp add: assign_task_def)
    ultimately show ?thesis
      using task by (metis assign_task_keeps)
  next
    case False
    then have "?stored \<in> set (runs_of rs' (entry_name e))"
      unfolding runs own_or_storeRun by simp
    with task show ?thesis
      by blast
  qed
  with that err show thesis
    unfolding rs' by (simp add: recordFailure_def Let_def unshiftEntry_def)
qed

text \<open>\<^bold>\<open>C9.\<close> 
  A node that fails and does not go on ends the execution so that it can be restarted: its entry is
  back on top of the stack with the input it ran with, above the entries that were there and with
  the waiting nodes untouched when the node made no request; its run is recorded with the error and
  the index of the iteration, and the execution ends unfinished with that error.
\<close>
theorem failed_node_restartable:
  assumes "nodeExecutionStack (rs_execution rs) = e # rest" "executionStep env rs = Stopped rs'" "rs_waitTill rs' = None"
    and "no_requests env"
  shows "\<exists>error. rs_execution rs' = (rs_execution rs)\<lparr>nodeExecutionStack := pairInputs e # rest\<rparr> \<and>
    pairInputs (pairInputs e) = pairInputs e \<and> rs_lastNodeExecuted rs' = Some (entry_name e) \<and>
    (\<exists>t\<in>set (runs_of rs' (entry_name e)). task_error t = Some error \<and> task_executionStatus t = Some ErrorStatus \<and>
       task_executionIndex t = Some (rs_executionIndex rs)) \<and>
    (\<exists>result. finishExecution (Stopped rs') = Some result \<and> run_error result = Some error \<and> \<not> run_finished result \<and>
       run_status result \<in> {ErrorStatus, Canceled})"
proof -
  obtain rs0 rs1 err data where rs0: "rs0 = rs\<lparr>rs_execution := (rs_execution rs)\<lparr>nodeExecutionStack := rest\<rparr>,
      rs_executionError := None, rs_executionIndex := Suc (rs_executionIndex rs)\<rparr>"
    and loop: "tryLoop env (pairInputs e) (runIndexOf (pairInputs e) (rs_runData rs)) (maxTries e - 1) makeEngineResponse None rs0
       = (rs1, Some (err, data))"
    and recorded: "recordRun env (pairInputs e) (runIndexOf (pairInputs e) (rs_runData rs)) (rs_executionIndex rs) err data rs1 = Stopped rs'"
    by (rule executionStep_recorded [OF assms(1,2)])
  obtain error where error: "err = Some error" "rs_lastNodeExecuted rs' = rs_lastNodeExecuted rs1" "rs_executionError rs' = Some error"
    "rs_execution rs' = (rs_execution rs1)\<lparr>nodeExecutionStack := pairInputs e # nodeExecutionStack (rs_execution rs1)\<rparr>"
    and run: "\<exists>t\<in>set (runs_of rs' (entry_name e)). task_error t = Some error \<and> task_executionStatus t = Some ErrorStatus \<and>
       task_executionIndex t = Some (rs_executionIndex rs)"
    by (rule recordRun_Stopped [OF recorded assms(3)]) simp
  have "rs_execution rs' = (rs_execution rs)\<lparr>nodeExecutionStack := pairInputs e # rest\<rparr>"
    using tryLoop_no_request [OF loop assms(4)] error(4) rs0 by (simp add: untouched_def)
  moreover have "rs_lastNodeExecuted rs' = Some (entry_name e)"
    using tryLoop_error_last [of env "pairInputs e"] loop error(1,2) by simp
  ultimately show ?thesis
    using run error(3) by (intro exI [of _ error]) (simp add: pairInputs_again processSuccessExecution_def)
qed


definition single_workflow :: "INode \<Rightarrow> Workflow" where
  "single_workflow node =
     \<lparr>wf_nodes = [(node_name node, node)], connectionsBySourceNode = [], connectionsByDestinationNode = [],
      wf_executionOrder = Some ''v1''\<rparr>"

definition single_state :: "INode \<Rightarrow> run_state" where
  "single_state node = sample_state (single_workflow node) [sample_entry node]"

definition failing :: engine where
  "failing = sample_engine (\<lambda>n. (None, Inl failure))"

theorem failed_node_restartable_witness:
  "\<exists>rs' result. executionStep failing (single_state (sample_node 0 ''t'')) = Stopped rs' \<and>
     map (\<lambda>e. entry_name e) (nodeExecutionStack (rs_execution rs')) = [''t''] \<and>
     finishExecution (Stopped rs') = Some result \<and> \<not> run_finished result"
proof -
  let ?rs = "single_state (sample_node 0 ''t'')"
  let ?e = "sample_entry (sample_node 0 ''t'')"
  have step: "executionStep failing ?rs = Stopped (state_of (executionStep failing ?rs))"
    "rs_waitTill (state_of (executionStep failing ?rs)) = None"
    by code_simp+
  have "nodeExecutionStack (rs_execution ?rs) = ?e # []" "no_requests failing"
    by (simp_all add: single_state_def sample_state_def no_requests_def failing_def sample_engine_def)
  from failed_node_restartable [OF this(1) step this(2)] obtain result where
    "rs_execution (state_of (executionStep failing ?rs)) = (rs_execution ?rs)\<lparr>nodeExecutionStack := pairInputs ?e # []\<rparr>"
    "finishExecution (Stopped (state_of (executionStep failing ?rs))) = Some result" "\<not> run_finished result"
    by blast
  with step(1) show ?thesis
    by (intro exI [of _ "state_of (executionStep failing ?rs)"] exI [of _ result])
      (simp add: sample_entry_def sample_node_def)
qed

text \<open>
  A node that is to continue on errors does not stop the execution, but its error is only reset when
  another iteration begins: when it is the last node to run, the execution ends as failed.
\<close>

definition continuing_node :: INode where
  "continuing_node = (sample_node 0 ''t'')\<lparr>node_onError := Some ''continueRegularOutput''\<rparr>"

lemma continued_error_fails_execution:
  "case executionStep failing (single_state continuing_node) of
     Looping rs \<Rightarrow> nodeExecutionStack (rs_execution rs) = [] \<and>
       map_option run_status (finishExecution (executionStep failing rs)) = Some ErrorStatus
   | _ \<Rightarrow> False"
  by code_simp


section \<open>An execution that waits\<close>

lemma attempt_Finished:
  assumes "attempt env e ri left resp d rs = (left', resp', rs', Some outs, Finished)"
    and "node_alwaysOutputData (exec_node e) \<noteq> Some True"
  shows "rs_lastNodeExecuted rs' = Some (entry_name e)"
proof -
  have "rs_lastNodeExecuted rs' = Some (entry_name e)" if "finishTry env e err data rs0 = (rs', Some outs, Finished)" for err data rs0
    using that assms(2) by (auto simp: finishTry_def alwaysOutput_def Let_def split: option.splits sum.splits if_splits)
  with assms(1) show ?thesis
    by (auto simp: attempt_def Let_def split: option.splits prod.splits sum.splits node_result.splits)
qed

lemma tryLoop_finished_last:
  "tryLoop env e ri left resp d rs = (rs', Some (None, Some outs)) \<Longrightarrow> node_alwaysOutputData (exec_node e) \<noteq> Some True \<Longrightarrow>
    rs_lastNodeExecuted rs' = Some (entry_name e)"
proof (induction env e ri left resp d rs rule: tryLoop.induct)
  case (1 env e ri left resp d rs)
  obtain left1 resp1 rs1 d1 out where one: "attempt env e ri left resp d rs = (left1, resp1, rs1, d1, out)"
    by (cases "attempt env e ri left resp d rs") auto
  show ?case
  proof (cases out)
    case Finished
    with 1(2) one have "rs' = rs1" "d1 = Some outs"
      by (simp_all add: tryLoop.simps [of env e ri left resp d rs])
    with attempt_Finished one Finished 1(3) show ?thesis
      by metis
  qed (use 1 one in \<open>auto simp: tryLoop.simps [of env e ri left resp d rs] Let_def split: if_splits\<close>)
qed

lemma recordRun_waiting:
  assumes "recordRun env e ri index None data rs = Stopped rs'"
  obtains outs task where "data = Some outs" "rs_waitTill rs \<noteq> None" "rs_lastNodeExecuted rs' = rs_lastNodeExecuted rs"
    "nodeExecutionStack (rs_execution rs') = e # nodeExecutionStack (rs_execution rs)" "rs_waitTill rs' = rs_waitTill rs"
    "\<forall>n. runs_of rs' n = own_or [] (storeRun (entry_name e) ri task (rs_runData rs)) n"
proof -
  let ?rs = "rs\<lparr>rs_runData := map_set (entry_name e) (own_or [] (rs_runData rs) (entry_name e)) (rs_runData rs), rs_executionError := None\<rparr>"
  have s: "recordSuccess env e ri (newTask e index ?rs) data ?rs = Stopped rs'"
    using assms by (simp add: recordRun_def Let_def)
  then obtain merged where merged: "mergeErrors data = Inr merged"
    by (cases "mergeErrors data") (simp_all add: recordSuccess_def)
  then obtain outs where "data = Some outs"
    by (cases data) (simp_all add: mergeErrors_def)
  have "rs_waitTill rs \<noteq> None"
    using s merged by (auto simp: recordSuccess_def Let_def scheduleNext_def split: if_splits sum.splits)
  let ?task = "withData e ri (rs_runData ?rs) (map Some merged) (newTask e index ?rs)"
  have "rs' = unshiftEntry e (?rs\<lparr>rs_runData := storeRun (entry_name e) ri ?task (rs_runData ?rs)\<rparr>)"
    using s merged \<open>rs_waitTill rs \<noteq> None\<close> by (simp add: recordSuccess_def Let_def)
  moreover have "own_or [] (storeRun (entry_name e) ri task (rs_runData ?rs)) n =
      own_or [] (storeRun (entry_name e) ri task (rs_runData rs)) n" for task n
    by (simp add: own_or_storeRun)
  ultimately show thesis
    using that [of outs ?task] \<open>data = Some outs\<close> \<open>rs_waitTill rs \<noteq> None\<close> by (simp add: unshiftEntry_def runs_of_def)
qed

lemma runNode_disabled:
  assumes "is_disabled (exec_node e)" "resumeError e = None"
  shows "runNode env rs e ri resp = (None, Inr (Output (handleDisabledNode (exec_data e))))"
  using assms by (simp add: runNode_def Let_def)

text \<open>\<^bold>\<open>C10.\<close> 
  Waiting and resuming.  When a node puts the execution to wait without an error, the loop stops with
  the node on top of the stack.  Resuming clears the time to wait for and takes the recorded run away
  again, so that the run data are those from before the node ran, and the node on top is disabled:
  however often it is tried, it is not executed a second time but passes the input it waited with on.
  This holds for a stack entry that is neither the resumption of a run with an index of its own (which
  is stored at that index, while resuming drops the last run) nor carries an error to resume with
  (whose node stays enabled), for a node without \<^verbatim>\<open>alwaysOutputData\<close> (the lemma after the
  witness shows what happens to one with it), and for nodes that request no tools.
\<close>
theorem waiting_node_resumed:
  assumes stack: "nodeExecutionStack (rs_execution rs) = e # rest" and step: "executionStep env rs = Stopped rs'"
    and waits: "rs_waitTill rs' \<noteq> None" "rs_executionError rs' = None"
    and plain: "exec_runIndex e = None" "resumeError e = None" "node_alwaysOutputData (exec_node e) \<noteq> Some True" "no_requests env"
  shows "\<exists>rs'' entry rest'. handleWaitingState rs' = Inr rs'' \<and> rs_waitTill rs'' = None \<and>
    (\<forall>n. runs_of rs'' n = runs_of rs n) \<and>
    nodeExecutionStack (rs_execution rs'') = entry # rest' \<and> length rest' = length rest \<and>
    entry_name entry = entry_name e \<and> exec_data entry = exec_data (pairInputs e) \<and>
    (\<forall>env rs ri response. runNode env rs entry ri response = (None, Inr (Output (handleDisabledNode (exec_data (pairInputs e))))))"
proof -
  let ?ri = "runIndexOf (pairInputs e) (rs_runData rs)"
  obtain rs0 rs1 err data where rs0: "rs0 = rs\<lparr>rs_execution := (rs_execution rs)\<lparr>nodeExecutionStack := rest\<rparr>,
      rs_executionError := None, rs_executionIndex := Suc (rs_executionIndex rs)\<rparr>"
    and loop: "tryLoop env (pairInputs e) ?ri (maxTries e - 1) makeEngineResponse None rs0 = (rs1, Some (err, data))"
    and recorded: "recordRun env (pairInputs e) ?ri (rs_executionIndex rs) err data rs1 = Stopped rs'"
    by (rule executionStep_recorded [OF stack step])
  have err: "err = None"
    using waits(2) recordRun_index(2) [of env "pairInputs e" ?ri "rs_executionIndex rs" err data rs1] recorded by simp
  obtain outs task where stopped: "data = Some outs" "rs_lastNodeExecuted rs' = rs_lastNodeExecuted rs1"
    "nodeExecutionStack (rs_execution rs') = pairInputs e # nodeExecutionStack (rs_execution rs1)"
    "\<forall>n. runs_of rs' n = own_or [] (storeRun (entry_name (pairInputs e)) ?ri task (rs_runData rs1)) n"
    using recordRun_waiting recorded err by blast
  have rs1: "rs_runData rs1 = rs_runData rs" "nodeExecutionStack (rs_execution rs1) = rest"
    using tryLoop_no_request [OF loop plain(4)] rs0 by (simp_all add: untouched_def)
  have last: "rs_lastNodeExecuted rs' = Some (entry_name e)"
    using tryLoop_finished_last [of env "pairInputs e"] loop err stopped(1,2) plain(3) by simp
  have "?ri = length (runs_of rs (entry_name e))"
    using plain(1) by (simp add: runIndexOf_def runs_of_def pairInputs_def)
  then have runs: "runs_of rs' n = (if n = entry_name e then runs_of rs n @ [task] else runs_of rs n)" for n
    using stopped(4) rs1(1) by (simp add: own_or_storeRun runs_of_def)
  then have "own_or [] (rs_runData rs') (entry_name e) = runs_of rs (entry_name e) @ [task]"
    by (simp add: runs_of_def [of rs'])
  then have get: "map_get (rs_runData rs') (entry_name e) = Some (runs_of rs (entry_name e) @ [task])"
    by (simp add: own_or_def split: option.splits)
  let ?off = "disableNode (node_ref (exec_node e))"
  let ?entry = "(pairInputs e)\<lparr>exec_node := ?off (exec_node e)\<rparr>"
  let ?rs'' = "(disableAll (node_ref (exec_node e)) (rs'\<lparr>rs_waitTill := None\<rparr>))\<lparr>rs_runData :=
    map_set (entry_name e) (runs_of rs (entry_name e)) (rs_runData rs')\<rparr>"
  have resume: "resumeError (pairInputs e) = None" "resumeError ?entry = None"
    using plain(2) by (simp_all add: resumeError_def pairInputs_def)
  have "handleWaitingState rs' = Inr ?rs''"
    using waits(1) stopped(3) resume(1) last get by (auto simp: handleWaitingState_def Let_def disableAll_def)
  moreover have "\<forall>n. runs_of ?rs'' n = runs_of rs n"
    using runs by (simp add: runs_of_def)
  moreover have "nodeExecutionStack (rs_execution ?rs'') = ?entry # map (\<lambda>e. e\<lparr>exec_node := ?off (exec_node e)\<rparr>) rest"
    using stopped(3) rs1(2) by (simp add: disableAll_def)
  moreover have "runNode env rs ?entry ri response = (None, Inr (Output (handleDisabledNode (exec_data (pairInputs e)))))" for env rs ri response
    using runNode_disabled [OF _ resume(2)] by (simp add: disableNode_def)
  ultimately show ?thesis
    by (intro exI [of _ ?rs''] exI [of _ ?entry]) (simp add: disableAll_def disableNode_def)
qed

definition waits_once :: engine where
  "waits_once = sample_engine (\<lambda>n. (Some 100, Inr (Output (Some [Some [sample_item]]))))"

theorem waiting_node_resumed_witness:
  "\<exists>rs' rs''. executionStep waits_once (single_state (sample_node 0 ''t'')) = Stopped rs' \<and> rs_waitTill rs' = Some 100 \<and>
     handleWaitingState rs' = Inr rs'' \<and> rs_waitTill rs'' = None \<and> runs_of rs'' ''t'' = []"
proof -
  let ?rs = "single_state (sample_node 0 ''t'')"
  let ?rs' = "state_of (executionStep waits_once ?rs)"
  have step: "executionStep waits_once ?rs = Stopped ?rs'" "rs_waitTill ?rs' = Some 100" "rs_executionError ?rs' = None"
    by code_simp+
  have stack: "nodeExecutionStack (rs_execution ?rs) = sample_entry (sample_node 0 ''t'') # []" "runs_of ?rs ''t'' = []" "no_requests waits_once"
    by (simp_all add: single_state_def sample_state_def runs_of_def own_or_def no_requests_def waits_once_def sample_engine_def)
  have "exec_runIndex (sample_entry (sample_node 0 ''t'')) = None" "resumeError (sample_entry (sample_node 0 ''t'')) = None"
    "node_alwaysOutputData (exec_node (sample_entry (sample_node 0 ''t''))) \<noteq> Some True" "rs_waitTill ?rs' \<noteq> None"
    using step(2) by (simp_all add: sample_entry_def resumeError_def sample_node_def)
  from waiting_node_resumed [OF stack(1) step(1) this(4) step(3) this(1-3) stack(3)] obtain rs'' where
    "handleWaitingState ?rs' = Inr rs''" "rs_waitTill rs'' = None" "runs_of rs'' ''t'' = runs_of ?rs ''t''"
    by blast
  with step stack(2) show ?thesis
    by (intro exI [of _ ?rs'] exI [of _ rs'']) simp
qed

text \<open>With \<^verbatim>\<open>alwaysOutputData\<close> a node that waits and returns \<open>null\<close> is recorded, with
  an empty item, but not noted as the last node executed: resuming takes away the run of the node
  before it and keeps its own.\<close>

definition waits_empty :: engine where
  "waits_empty = sample_engine (\<lambda>n. if n = 0 then (None, Inr (Output (Some [Some [sample_item]]))) else (Some 100, Inr (Output None)))"

definition wait_node :: INode where
  "wait_node = (sample_node 1 ''w'')\<lparr>node_alwaysOutputData := Some True\<rparr>"

definition wait_workflow :: Workflow where
  "wait_workflow =
     \<lparr>wf_nodes = [(''t'', sample_node 0 ''t''), (''w'', wait_node)],
      connectionsBySourceNode = [(''t'', [(Main, [Some [to_input ''w'' 0]])])],
      connectionsByDestinationNode = [(''w'', [(Main, [Some [to_input ''t'' 0]])])],
      wf_executionOrder = Some ''v1''\<rparr>"

definition waits_second :: run_state where
  "waits_second = sample_state wait_workflow [sample_entry (sample_node 0 ''t'')]"

lemma waiting_null_output_pops_previous:
  "(case iterate_loop 2 waits_empty (Looping waits_second) of
      Stopped rs \<Rightarrow>
        (rs_waitTill rs, rs_lastNodeExecuted rs, length (runs_of rs ''t''), length (runs_of rs ''w'')) = (Some 100, Some ''t'', 1, 1) \<and>
        (case handleWaitingState rs of
           Inr rs' \<Rightarrow> (length (runs_of rs' ''t''), length (runs_of rs' ''w'')) = (0, 1)
         | Inl _ \<Rightarrow> False)
    | _ \<Rightarrow> False)"
  by code_simp

end
