(* ===== verification/Tool_Requests.thy ===== *)
theory Tool_Requests
  imports Execution_Outcomes
begin

text \<open>
  What a request of a node for tools does in the order \<open>v1\<close>: the tools are on top of the stack with
  the requesting node below them, each tool has a run of its own to fill, and the resumed node gets
  exactly the results of these runs.  In the legacy order the requesting node runs before its
  tools.
\<close>

section \<open>Workflows of the same shape\<close>

lemma map_get_map: "map_get (map (\<lambda>(k, v). (k, f v)) m) k = map_option f (map_get m k)"
  by (induction m) auto

lemma same_shape_getNode:
  assumes "same_shape w w'"
  shows "map_option node_name (getNode w' n) = map_option node_name (getNode w n)"
proof -
  have "map_get (map (\<lambda>(k, node). (k, node_name node)) (wf_nodes w')) n = map_get (map (\<lambda>(k, node). (k, node_name node)) (wf_nodes w)) n"
    using assms by (simp add: same_shape_def)
  then show ?thesis
    by (simp add: map_get_map getNode_def)
qed

lemma same_shape_inputs:
  assumes "same_shape w w'"
  shows "numberOfInputs w' n = numberOfInputs w n" "isLegacyExecutionOrder w' = isLegacyExecutionOrder w"
  using assms by (simp_all add: same_shape_def numberOfInputs_def main_inputs_def isLegacyExecutionOrder_def)

text \<open>A node of the workflow that is put on the stack directly.\<close>

definition direct_node :: "Workflow \<Rightarrow> string \<Rightarrow> bool" where
  "direct_node workflow n \<longleftrightarrow> map_option node_name (getNode workflow n) = Some n \<and> numberOfInputs workflow n \<le> 1"

lemma same_shape_direct: "same_shape w w' \<Longrightarrow> direct_node w' n = direct_node w n"
  by (simp add: direct_node_def same_shape_getNode same_shape_inputs)

section \<open>Preparing the tools\<close>

text \<open>The place of a tool's run: its node and the index of the run.\<close>

abbreviation (input) tool_place :: "SubNodeExecutionDataAction \<Rightarrow> string \<times> nat" where
  "tool_place s \<equiv> (sub_nodeName s, sub_runIndex s)"

definition tool_prepared :: "EngineAction \<Rightarrow> NodeToBeExecuted \<times> SubNodeExecutionDataAction \<Rightarrow> bool" where
  "tool_prepared action p \<longleftrightarrow> conn_node (nb_connection (fst p)) = action_nodeName action \<and>
     nb_parentOutputData (fst p) \<noteq> None \<and> nb_nodeRunIndex (fst p) = sub_runIndex (snd p) \<and>
     sub_action (snd p) = action \<and> sub_nodeName (snd p) = action_nodeName action"

text \<open>The entries of the stack up to what is written into their nodes.\<close>

definition stack_view :: "run_state \<Rightarrow> (string \<times> ITaskDataConnections \<times> nat option \<times> ITaskMetadata option) list" where
  "stack_view rs = map (\<lambda>e. (entry_name e, exec_data e, exec_runIndex e, exec_metadata e)) (nodeExecutionStack (rs_execution rs))"

lemma stack_view_rewireAll [simp]: "stack_view (rewireAll ref t rs) = stack_view rs"
  by (simp add: stack_view_def rewireAll_def)

lemma prepareAction_tool:
  assumes "direct_node (rs_workflow rs) (action_nodeName action)"
  obtains rs' p where "prepareAction e ri action rs = (rs', Inr p)" "tool_prepared action p" "stack_view rs' = stack_view rs"
    "sub_runIndex (snd p) = length (runs_of rs (action_nodeName action))"
    "\<And>n. length (runs_of rs' n) = length (runs_of rs n) + (if n = action_nodeName action then 1 else 0)"
proof -
  obtain node where node: "getNode (rs_workflow rs) (action_nodeName action) = Some node" "node_name node = action_nodeName action"
    using assms by (auto simp: direct_node_def)
  let ?rs = "rewireAll (node_ref node) (action_type action) rs"
  have rd: "rs_runData ?rs = rs_runData rs"
    by (simp add: rewireAll_def)
  obtain rs' p where call: "prepareAction e ri action rs = (rs', Inr p)"
    using node(1) by (cases "prepareAction e ri action rs") (auto simp: prepareAction_def Let_def initializeNodeRunData_def)
  moreover have "tool_prepared action p" "sub_runIndex (snd p) = length (runs_of rs (action_nodeName action))"
    using call node by (auto simp: prepareAction_def Let_def initializeNodeRunData_def tool_prepared_def runs_of_def rewireAll_def)
  moreover have "\<exists>task. rs' = ?rs\<lparr>rs_runData := map_set (action_nodeName action) (runs_of rs (action_nodeName action) @ [task]) (rs_runData rs)\<rparr>"
    using call node by (auto simp: prepareAction_def Let_def initializeNodeRunData_def runs_of_def rewireAll_def)
  then have "stack_view rs' = stack_view rs"
    "length (runs_of rs' n) = length (runs_of rs n) + (if n = action_nodeName action then 1 else 0)" for n
    by (auto simp: runs_of_def stack_view_def rewireAll_def)
  ultimately show thesis
    using that by blast
qed

lemma prepareRequested_tools:
  assumes "\<forall>a\<in>set actions. direct_node (rs_workflow rs) (action_nodeName a)"
  shows "\<exists>rs' ps. prepareRequestedNodesForExecution e ri actions rs = (rs', Inr ps) \<and> list_all2 tool_prepared actions ps \<and>
    stack_view rs' = stack_view rs \<and> distinct (map (tool_place \<circ> snd) ps) \<and>
    (\<forall>n. length (runs_of rs n) \<le> length (runs_of rs' n)) \<and>
    (\<forall>s\<in>snd ` set ps. length (runs_of rs (sub_nodeName s)) \<le> sub_runIndex s \<and> sub_runIndex s < length (runs_of rs' (sub_nodeName s)))"
  using assms
proof (induction actions arbitrary: rs)
  case (Cons a actions)
  obtain rs1 p where p: "prepareAction e ri a rs = (rs1, Inr p)" "tool_prepared a p" "stack_view rs1 = stack_view rs"
    "sub_runIndex (snd p) = length (runs_of rs (action_nodeName a))"
    and len: "\<And>n. length (runs_of rs1 n) = length (runs_of rs n) + (if n = action_nodeName a then 1 else 0)"
    using prepareAction_tool [of rs a e ri] Cons.prems by auto
  have "same_shape (rs_workflow rs) (rs_workflow rs1)"
    using only_tries_prepareAction [OF p(1)] by (simp add: only_tries_def)
  then have "\<forall>a\<in>set actions. direct_node (rs_workflow rs1) (action_nodeName a)"
    using Cons.prems by (simp add: same_shape_direct)
  from Cons.IH [OF this] obtain rs' ps where
    ps: "prepareRequestedNodesForExecution e ri actions rs1 = (rs', Inr ps)" "list_all2 tool_prepared actions ps"
      "stack_view rs' = stack_view rs1" "distinct (map (tool_place \<circ> snd) ps)"
    and grow: "\<forall>n. length (runs_of rs1 n) \<le> length (runs_of rs' n)"
    and new: "\<forall>s\<in>snd ` set ps. length (runs_of rs1 (sub_nodeName s)) \<le> sub_runIndex s \<and> sub_runIndex s < length (runs_of rs' (sub_nodeName s))"
    by blast
  have first: "sub_nodeName (snd p) = action_nodeName a" "sub_runIndex (snd p) < length (runs_of rs1 (action_nodeName a))"
    using p(2,4) len [of "action_nodeName a"] by (simp_all add: tool_prepared_def)
  have fresh: "tool_place (snd p) \<notin> set (map (tool_place \<circ> snd) ps)"
    using new first by fastforce
  have le: "length (runs_of rs n) \<le> length (runs_of rs1 n)" for n
    using len [of n] by simp
  have "\<forall>s\<in>snd ` set (p # ps). length (runs_of rs (sub_nodeName s)) \<le> sub_runIndex s \<and> sub_runIndex s < length (runs_of rs' (sub_nodeName s))"
    using new first p(4) grow le by (auto intro: le_trans less_le_trans)
  moreover have "\<forall>n. length (runs_of rs n) \<le> length (runs_of rs' n)"
    using grow le le_trans by blast
  ultimately show ?case
    using p ps fresh by (intro exI [of _ rs'] exI [of _ "p # ps"]) (simp add: comp_def)
qed simp

section \<open>Adding the tools to the stack\<close>

lemma addRequested_direct:
  assumes "\<not> isLegacyExecutionOrder (rs_workflow rs)" "direct_node (rs_workflow rs) (conn_node (nb_connection nb))"
    and "nb_parentOutputData nb \<noteq> None"
  obtains entry where "addRequested nb rs = (rs\<lparr>rs_execution := (rs_execution rs)\<lparr>nodeExecutionStack := entry # nodeExecutionStack (rs_execution rs)\<rparr>\<rparr>, None)"
    "entry_name entry = conn_node (nb_connection nb)" "exec_runIndex entry = Some (nb_nodeRunIndex nb)" "exec_metadata entry = Some (nb_metadata nb)"
proof -
  obtain node data where "map_get (wf_nodes (rs_workflow rs)) (conn_node (nb_connection nb)) = Some node"
    "node_name node = conn_node (nb_connection nb)" "nb_parentOutputData nb = Some data"
    using assms(2,3) by (auto simp: direct_node_def getNode_def)
  with assms that show thesis
    by (simp add: addRequested_def addNodeToBeExecuted_def deliver_def addDirectly_def enqueueFn_def direct_node_def)
qed

lemma addAllRequested_direct:
  assumes "\<not> isLegacyExecutionOrder (rs_workflow rs)"
    and "\<forall>nb\<in>set nbs. direct_node (rs_workflow rs) (conn_node (nb_connection nb)) \<and> nb_parentOutputData nb \<noteq> None"
  shows "\<exists>entries. addAllRequested nbs rs =
      (rs\<lparr>rs_execution := (rs_execution rs)\<lparr>nodeExecutionStack := rev entries @ nodeExecutionStack (rs_execution rs)\<rparr>\<rparr>, None) \<and>
    map (\<lambda>e. (entry_name e, exec_runIndex e, exec_metadata e)) entries =
      map (\<lambda>nb. (conn_node (nb_connection nb), Some (nb_nodeRunIndex nb), Some (nb_metadata nb))) nbs"
  using assms
proof (induction nbs arbitrary: rs)
  case (Cons nb nbs)
  obtain entry where entry: "addRequested nb rs =
      (rs\<lparr>rs_execution := (rs_execution rs)\<lparr>nodeExecutionStack := entry # nodeExecutionStack (rs_execution rs)\<rparr>\<rparr>, None)"
    "entry_name entry = conn_node (nb_connection nb)" "exec_runIndex entry = Some (nb_nodeRunIndex nb)" "exec_metadata entry = Some (nb_metadata nb)"
    using addRequested_direct [of rs nb] Cons.prems by auto
  let ?rs = "rs\<lparr>rs_execution := (rs_execution rs)\<lparr>nodeExecutionStack := entry # nodeExecutionStack (rs_execution rs)\<rparr>\<rparr>"
  obtain entries where "addAllRequested nbs ?rs =
      (?rs\<lparr>rs_execution := (rs_execution ?rs)\<lparr>nodeExecutionStack := rev entries @ nodeExecutionStack (rs_execution ?rs)\<rparr>\<rparr>, None)"
    "map (\<lambda>e. (entry_name e, exec_runIndex e, exec_metadata e)) entries =
      map (\<lambda>nb. (conn_node (nb_connection nb), Some (nb_nodeRunIndex nb), Some (nb_metadata nb))) nbs"
    using Cons.IH [of ?rs] Cons.prems by auto
  with entry show ?case
    by (intro exI [of _ "entry # entries"]) simp
qed simp


text \<open>The results a resumed node collects from run data that have all its tools' runs.\<close>

lemma collectResponses_all:
  assumes "exec_metadata e = Some m" "meta_subNodeExecutionData m = Some (subs, data)"
    and "\<forall>s\<in>set subs. sub_runIndex s < length (own_or [] runData (sub_nodeName s))"
  shows "collectResponses e runData makeEngineResponse =
    \<lparr>response_actions = map (\<lambda>s. (sub_action s, own_or [] runData (sub_nodeName s) ! sub_runIndex s)) subs, response_metadata = data\<rparr>"
proof -
  have "concat (map (\<lambda>s. if sub_runIndex s < length (own_or [] runData (sub_nodeName s))
      then [(sub_action s, own_or [] runData (sub_nodeName s) ! sub_runIndex s)] else []) subs)
    = map (\<lambda>s. (sub_action s, own_or [] runData (sub_nodeName s) ! sub_runIndex s)) subs"
    using assms(3) by (induction subs) auto
  with assms(1,2) show ?thesis
    by (simp add: collectResponses_def makeEngineResponse_def Let_def)
qed

lemma tool_prepared_subs:
  "list_all2 tool_prepared actions ps \<Longrightarrow> map (sub_action \<circ> snd) ps = actions \<and>
    map (\<lambda>nb. (conn_node (nb_connection nb), Some (nb_nodeRunIndex nb))) (map fst ps) = map (\<lambda>s. (sub_nodeName s, Some (sub_runIndex s))) (map snd ps) \<and>
    map (\<lambda>nb. conn_node (nb_connection nb)) (map fst ps) = map action_nodeName actions \<and>
    (\<forall>nb\<in>fst ` set ps. nb_parentOutputData nb \<noteq> None)"
  by (induction rule: list_all2_induct) (auto simp: tool_prepared_def)

text \<open>\<^bold>\<open>C11.\<close> 
  A request for tools in the order \<open>v1\<close>.  When the tools and the requesting node exist and have at
  most one main input, and the requesting node has main data and was reached from another node, the
  request is scheduled without error: the tools come to lie on top of the stack, above the requesting node and
  the entries that were there.  Each tool has a new run of its own, no two tools share one, and the
  requesting node, resumed in its own run, is handed the tasks stored in exactly these runs, in the
  order of the requested actions, when they are collected into a fresh response, as on its first try;
  for later tries see \<open>retried_agent_gets_results_twice\<close>.
\<close>
theorem handleEngineRequest_correct:
  assumes v1: "\<not> isLegacyExecutionOrder (rs_workflow rs)"
    and tools: "\<forall>a\<in>set (request_actions request). direct_node (rs_workflow rs) (action_nodeName a)"
    and requester: "direct_node (rs_workflow rs) (entry_name e)"
    and parent: "prepareRequestingNodeForResuming e \<noteq> None" and data: "main_data e \<noteq> None"
  shows "\<exists>rs' toolEntries resumed below. \<exists>subs :: SubNodeExecutionDataAction list. handleEngineRequest e ri request rs = (rs', None) \<and>
    nodeExecutionStack (rs_execution rs') = rev toolEntries @ resumed # below \<and>
    map (\<lambda>e. (entry_name e, exec_data e, exec_runIndex e, exec_metadata e)) below = stack_view rs \<and>
    map (\<lambda>e. entry_name e) toolEntries = map action_nodeName (request_actions request) \<and>
    map (\<lambda>e. (entry_name e, exec_runIndex e)) toolEntries = map (\<lambda>s. (sub_nodeName s, Some (sub_runIndex s))) subs \<and>
    distinct (map (\<lambda>s. (sub_nodeName s, sub_runIndex s)) subs) \<and>
    (\<forall>s\<in>set subs. length (runs_of rs (sub_nodeName s)) \<le> sub_runIndex s \<and> sub_runIndex s < length (runs_of rs' (sub_nodeName s))) \<and>
    entry_name resumed = entry_name e \<and> exec_runIndex resumed = Some ri \<and> map sub_action subs = request_actions request \<and>
    (\<forall>runData. (\<forall>s\<in>set subs. sub_runIndex s < length (own_or [] runData (sub_nodeName s))) \<longrightarrow>
       response_actions (collectResponses resumed runData makeEngineResponse) =
         map (\<lambda>s. (sub_action s, own_or [] runData (sub_nodeName s) ! sub_runIndex s)) subs)"
proof -
  obtain rs1 ps where prep: "prepareRequestedNodesForExecution e ri (request_actions request) rs = (rs1, Inr ps)"
    and ps: "list_all2 tool_prepared (request_actions request) ps" "distinct (map (tool_place \<circ> snd) ps)"
    and view: "stack_view rs1 = stack_view rs"
    and new: "\<forall>s\<in>snd ` set ps. length (runs_of rs (sub_nodeName s)) \<le> sub_runIndex s \<and> sub_runIndex s < length (runs_of rs1 (sub_nodeName s))"
    using prepareRequested_tools [OF tools] by blast
  note subs = tool_prepared_subs [OF ps(1)]
  obtain parentNode overwrite where resuming: "prepareRequestingNodeForResuming e = Some (parentNode, overwrite)"
    using parent by auto
  define nb where "nb = \<lparr>nb_connection = \<lparr>conn_node = entry_name e, conn_type = AiTool, conn_index = 0\<rparr>,
    nb_parentNode = parentNode, nb_parentOutputData = main_data e, nb_runIndex = ri, nb_nodeRunIndex = ri,
    nb_metadata = \<lparr>meta_preserveSourceOverwrite = (overwrite \<noteq> None), meta_preservedSourceOverwrite = overwrite,
      meta_resumeError = None, meta_nodeWasResumed = True,
      meta_subNodeExecutionData = Some (map snd ps, request_metadata request)\<rparr>\<rparr>"
  have request: "handleRequest e ri request rs = (rs1, Inr (nb # map fst ps))"
    using prep resuming by (simp add: handleRequest_def nb_def)
  have shape: "same_shape (rs_workflow rs) (rs_workflow rs1)"
    using only_tries_prepareRequested [OF prep] by (simp add: only_tries_def)
  have "(\<lambda>nb. conn_node (nb_connection nb)) ` fst ` set ps = action_nodeName ` set (request_actions request)"
    using arg_cong [OF subs [THEN conjunct2, THEN conjunct2, THEN conjunct1], of set] by (simp add: image_image)
  then have "\<forall>nb\<in>fst ` set ps. conn_node (nb_connection nb) \<in> action_nodeName ` set (request_actions request)"
    by blast
  then have direct: "\<forall>nb'\<in>set (nb # map fst ps). direct_node (rs_workflow rs1) (conn_node (nb_connection nb')) \<and> nb_parentOutputData nb' \<noteq> None"
    using tools requester data subs same_shape_direct [OF shape] by (auto simp: nb_def)
  have order: "\<not> isLegacyExecutionOrder (rs_workflow rs1)"
    using v1 same_shape_inputs [OF shape] by simp
  obtain entries where added: "addAllRequested (nb # map fst ps) rs1 =
      (rs1\<lparr>rs_execution := (rs_execution rs1)\<lparr>nodeExecutionStack := rev entries @ nodeExecutionStack (rs_execution rs1)\<rparr>\<rparr>, None)"
    and entries: "map (\<lambda>e. (entry_name e, exec_runIndex e, exec_metadata e)) entries =
      map (\<lambda>nb. (conn_node (nb_connection nb), Some (nb_nodeRunIndex nb), Some (nb_metadata nb))) (nb # map fst ps)"
    using addAllRequested_direct [OF order direct] by blast
  then obtain resumed toolEntries where split: "entries = resumed # toolEntries"
    by (cases entries) auto
  let ?f = "\<lambda>nb. (conn_node (nb_connection nb), Some (nb_nodeRunIndex nb), Some (nb_metadata nb))"
  have tail: "map (\<lambda>e. (entry_name e, exec_runIndex e, exec_metadata e)) toolEntries = map ?f (map fst ps)"
    using entries split by simp
  have "map (\<lambda>e. entry_name e) toolEntries = map (\<lambda>nb. conn_node (nb_connection nb)) (map fst ps)"
    using arg_cong [OF tail, of "map fst"] by (simp add: comp_def)
  moreover have "map (\<lambda>e. (entry_name e, exec_runIndex e)) toolEntries = map (\<lambda>nb. (conn_node (nb_connection nb), Some (nb_nodeRunIndex nb))) (map fst ps)"
    using arg_cong [OF tail, of "map (\<lambda>(a, b, c). (a, b))"] by (simp add: comp_def)
  moreover have resumed: "entry_name resumed = entry_name e" "exec_runIndex resumed = Some ri" "exec_metadata resumed = Some (nb_metadata nb)"
    using entries split by (simp_all add: nb_def)
  moreover have "response_actions (collectResponses resumed runData makeEngineResponse) =
      map (\<lambda>s. (sub_action s, own_or [] runData (sub_nodeName s) ! sub_runIndex s)) (map snd ps)"
    if "\<forall>s\<in>set (map snd ps). sub_runIndex s < length (own_or [] runData (sub_nodeName s))" for runData
    using collectResponses_all [OF resumed(3) _ that] by (simp add: nb_def)
  moreover have "map (\<lambda>e. (entry_name e, exec_data e, exec_runIndex e, exec_metadata e)) (nodeExecutionStack (rs_execution rs1)) = stack_view rs"
    using view by (simp add: stack_view_def)
  ultimately show ?thesis
    using request added split subs ps(2) new
    by - (rule exI [of _ "rs1\<lparr>rs_execution := (rs_execution rs1)\<lparr>nodeExecutionStack := rev entries @ nodeExecutionStack (rs_execution rs1)\<rparr>\<rparr>"],
        rule exI [of _ toolEntries], rule exI [of _ resumed], rule exI [of _ "nodeExecutionStack (rs_execution rs1)"],
        rule exI [of _ "map snd ps"], simp add: handleEngineRequest_def comp_def)
qed


section \<open>An agent with a tool\<close>

definition tool_workflow :: "string option \<Rightarrow> Workflow" where
  "tool_workflow order =
     \<lparr>wf_nodes = [(''t'', sample_node 0 ''t''), (''agent'', sample_node 1 ''agent''), (''tool'', sample_node 2 ''tool'')],
      connectionsBySourceNode = [(''t'', [(Main, [Some [to_input ''agent'' 0]])])],
      connectionsByDestinationNode = [(''agent'', [(Main, [Some [to_input ''t'' 0]])])],
      wf_executionOrder = order\<rparr>"

definition use_tool :: EngineAction where
  "use_tool = \<lparr>action_nodeName = ''tool'', action_input = [(''q'', JNum 1)], action_type = AiTool, action_id = ''call'',
     action_parentNodeName = None, action_itemIndex = None\<rparr>"

definition tool_request :: EngineRequest where
  "tool_request = \<lparr>request_actions = [use_tool, use_tool], request_metadata = JNull\<rparr>"

definition agent_entry :: IExecuteData where
  "agent_entry = (sample_entry (sample_node 1 ''agent''))\<lparr>exec_source := Some [(Main, [Some (sourceData ''t'' 0 0)])]\<rparr>"

theorem handleEngineRequest_correct_witness:
  "\<exists>rs' toolEntries resumed. handleEngineRequest agent_entry 0 tool_request (sample_state (tool_workflow (Some ''v1'')) []) = (rs', None) \<and>
     nodeExecutionStack (rs_execution rs') = rev toolEntries @ [resumed] \<and>
     map (\<lambda>e. entry_name e) toolEntries = [''tool'', ''tool''] \<and> entry_name resumed = ''agent'' \<and> exec_runIndex resumed = Some 0"
proof -
  let ?rs = "sample_state (tool_workflow (Some ''v1'')) []"
  have "\<not> isLegacyExecutionOrder (rs_workflow ?rs)" "prepareRequestingNodeForResuming agent_entry \<noteq> None" "main_data agent_entry \<noteq> None"
    "direct_node (rs_workflow ?rs) (entry_name agent_entry)" "direct_node (rs_workflow ?rs) ''tool''"
    by code_simp+
  moreover from this(5) have "\<forall>a\<in>set (request_actions tool_request). direct_node (rs_workflow ?rs) (action_nodeName a)"
    by (simp add: tool_request_def use_tool_def)
  ultimately obtain rs' toolEntries resumed below where
    "handleEngineRequest agent_entry 0 tool_request ?rs = (rs', None)"
    "nodeExecutionStack (rs_execution rs') = rev toolEntries @ resumed # below"
    "map (\<lambda>e. (entry_name e, exec_data e, exec_runIndex e, exec_metadata e)) below = stack_view ?rs"
    "map (\<lambda>e. entry_name e) toolEntries = map action_nodeName (request_actions tool_request)"
    "entry_name resumed = entry_name agent_entry" "exec_runIndex resumed = Some 0"
    using handleEngineRequest_correct [of ?rs tool_request agent_entry 0] by blast
  then show ?thesis
    by (intro exI [of _ rs'] exI [of _ toolEntries] exI [of _ resumed])
      (simp add: stack_view_def sample_state_def no_stack_def tool_request_def use_tool_def agent_entry_def sample_entry_def sample_node_def)
qed

text \<open>
  A comment says that the requesting node goes to the bottom of the stack.  In the legacy order
  entries are appended, so that it is taken before its tools, whose runs are still empty.
\<close>

lemma legacy_agent_before_tools:
  "map (\<lambda>e. entry_name e) (nodeExecutionStack (rs_execution (fst (handleEngineRequest agent_entry 0 tool_request
     (sample_state (tool_workflow None) []))))) = [''agent'', ''tool'', ''tool'']"
  by code_simp

text \<open>
  The array of results is made once per iteration and filled in every try: a resumed agent that
  fails and is tried again gets every result twice.
\<close>

definition resumed_agent :: IExecuteData where
  "resumed_agent = (sample_entry ((sample_node 1 ''agent'')\<lparr>node_retryOnFail := Some True\<rparr>))\<lparr>exec_metadata := Some
     \<lparr>meta_preserveSourceOverwrite = False, meta_preservedSourceOverwrite = None, meta_resumeError = None, meta_nodeWasResumed = True,
      meta_subNodeExecutionData = Some ([\<lparr>sub_action = use_tool, sub_nodeName = ''tool'', sub_runIndex = 0\<rparr>], JNull)\<rparr>\<rparr>"

definition counts_results :: engine where
  "counts_results = (sample_engine (\<lambda>n. (None, Inl failure)))\<lparr>en_execute := \<lambda>n call.
     (None, if n = 0 then Inl failure
        else Inr (Output (Some [Some (numbered (case call_response call of None \<Rightarrow> 0 | Some r \<Rightarrow> int (length (response_actions r))))])))\<rparr>"

lemma retried_agent_gets_results_twice:
  "case tryLoop counts_results resumed_agent 0 2 makeEngineResponse None
     ((sample_state (tool_workflow (Some ''v1'')) [])\<lparr>rs_runData := [(''tool'', [sample_task [sample_item]])]\<rparr>) of
     (rs, Some (None, Some [Some [item]])) \<Rightarrow> item_json item = [(''n'', JNum 2)]
   | _ \<Rightarrow> False"
  by code_simp

text \<open>
  The source of a tool's input is looked up at the run index of the agent, not at its input: from the
  second run on the agent counts as its own parent.
\<close>

lemma second_run_loses_parent:
  "defaultParentSourceNode agent_entry 0 = ''t''" "defaultParentSourceNode agent_entry 1 = ''agent''"
  by code_simp+

text \<open>A request of a node without parent is ignored, but the empty runs of its tools stay.\<close>

lemma ignored_request_leaves_runs:
  "case handleEngineRequest (sample_entry (sample_node 1 ''agent'')) 0 tool_request (sample_state (tool_workflow (Some ''v1'')) []) of
     (rs, e) \<Rightarrow> e = None \<and> nodeExecutionStack (rs_execution rs) = [] \<and> length (own_or [] (rs_runData rs) ''tool'') = 2"
  by code_simp

end
