(* ===== verification/Well_Formed_Runs.thy ===== *)
theory Well_Formed_Runs
  imports Tool_Requests
begin

text \<open>
  The state of an execution is well formed: every entry of the stack is for a node of the workflow,
  and the waiting executions and their sources have the shape the engine relies on.  Every operation
  that changes the stack keeps this, and with the locale of step invariants it holds in every state
  of an execution.
\<close>

section \<open>Entries for nodes of the workflow\<close>

definition stack_known :: "Workflow \<Rightarrow> ExecutionStack \<Rightarrow> bool" where
  "stack_known workflow st \<longleftrightarrow> (\<forall>e\<in>set (nodeExecutionStack st). getNode workflow (entry_name e) \<noteq> None)"

lemma stack_known_names:
  "stack_known workflow st \<longleftrightarrow> (\<forall>n\<in>set (map (\<lambda>e. entry_name e) (nodeExecutionStack st)). getNode workflow n \<noteq> None)"
  by (simp add: stack_known_def)

lemma stack_known_enqueueFn [simp]:
  "stack_known workflow (enqueueFn w e st) \<longleftrightarrow> getNode workflow (entry_name e) \<noteq> None \<and> stack_known workflow st"
  by (auto simp: stack_known_def enqueueFn_def)

lemma stack_known_cong: "nodeExecutionStack st = nodeExecutionStack st' \<Longrightarrow> stack_known workflow st = stack_known workflow st'"
  by (simp add: stack_known_def)

lemma nodes_named_known:
  assumes "nodes_named workflow" "map_get (wf_nodes workflow) n = Some node"
  shows "getNode workflow (node_name node) \<noteq> None"
  using assms by (force simp: nodes_named_def getNode_def dest: map_of_SomeD)

lemma stack_known_delete_run [simp]: "stack_known workflow (delete_run n r st) = stack_known workflow st"
  by (rule stack_known_cong) (simp add: delete_run_def Let_def)

lemma addEmptyNode_known:
  assumes "nodes_named workflow" "addEmptyNode workflow runData dl n st = Inr st'" "stack_known workflow st"
  shows "stack_known workflow st'"
  using assms nodes_named_known [OF assms(1)]
  by (auto simp: addEmptyNode_def rbind_eq_Inr split: if_splits option.splits)

lemma followInput_known:
  assumes "nodes_named workflow" "followInput workflow runData dl outs c st = Inr st'" "stack_known workflow st"
  shows "stack_known workflow st'"
proof -
  from assms(2) consider "st' = st" | n where "addEmptyNode workflow runData dl n st = Inr st'"
    by (fastforce simp: followInput_def followParents_def Let_def rbind_eq_Inr split: if_splits option.splits)
  then show ?thesis
    using addEmptyNode_known [OF assms(1)] assms(3) by cases auto
qed

lemma followInputs_known:
  assumes "nodes_named workflow" "followInputs workflow runData dl n st = Inr st'" "stack_known workflow st"
  shows "stack_known workflow st'"
proof -
  have "rfold (followInput workflow runData dl outs) cs st = Inr st' \<Longrightarrow> stack_known workflow st'" for outs cs
    using assms(3) by (induction cs arbitrary: st) (auto simp: rbind_eq_Inr intro: followInput_known [OF assms(1)])
  with assms(2) show ?thesis
    by (auto simp: followInputs_def Let_def split: option.splits)
qed

section \<open>The operations keep the stack well formed\<close>

definition stack_ok :: "Workflow \<Rightarrow> ExecutionStack \<Rightarrow> bool" where
  "stack_ok workflow st \<longleftrightarrow> waiting_ok workflow st \<and> stack_known workflow st"

lemma deliver_keeps_ok:
  assumes named: "nodes_named workflow" and ok: "stack_ok workflow st"
    and index: "1 < numberOfInputs workflow (conn_node c) \<Longrightarrow> conn_index c < numberOfInputs workflow (conn_node c)"
    and call: "deliver workflow runData dl c newRunIndex metadata st = Inr st'"
  shows "stack_ok workflow st'"
proof (cases "1 < numberOfInputs workflow (conn_node c)")
  case False
  then have "st' = addDirectly workflow dl c newRunIndex metadata st"
    using call by (simp add: deliver_def Let_def)
  then show ?thesis
    using ok nodes_named_known [OF named] by (auto simp: stack_ok_def addDirectly_def split: option.splits)
next
  case True
  let ?n = "conn_node c"
  have waits: "waiting_ok workflow st" "stack_known workflow st"
    using ok by (simp_all add: stack_ok_def)
  obtain r xs ss st1 where add: "addToWaiting workflow dl c st = Inr (r, st1)" and ss: "length ss = numberOfInputs workflow ?n" "Hole \<notin> set ss"
    and run: "run_for_input (numberOfInputs workflow ?n) (conn_index c) (own_or [] (waitingExecution st) ?n) r xs"
    and wrote: "wrote st ?n r (xs[conn_index c := slot_of (dl_data dl)]) ss st1"
    using addToWaiting_ok [OF waits(1) index [OF True], of dl] by blast
  let ?ys = "xs[conn_index c := slot_of (dl_data dl)]"
  have len: "length ?ys = numberOfInputs workflow ?n" "Hole \<notin> set ?ys"
    using run by (simp_all add: run_for_input_def update_no_hole)
  have same: "nodeExecutionStack st1 = nodeExecutionStack st"
    using wrote by (simp add: wrote_def)
  have main: "waiting_main (waitingExecution st1) ?n r = Inr ?ys"
    using wrote_own [OF wrote] by (intro waiting_main_single) simp
  show ?thesis
  proof (cases "Null \<in> set ?ys")
    case False
    then have move: "moveToStack workflow ?n r st1 = Inr st'"
      using call True add main by (simp add: deliver_def Let_def)
    then obtain node where node: "map_get (wf_nodes workflow) ?n = Some node"
      by (cases "map_get (wf_nodes workflow) ?n") (auto simp: moveToStack_def rbind_eq_Inr)
    then obtain e where e: "st' = delete_run ?n r (enqueueFn workflow e st1)" "exec_node e = node"
      using moveToStack_ok [OF wrote node] move by auto
    moreover have "waiting_ok workflow (delete_run ?n r (enqueueFn workflow e st1))"
      using wrote_deleted(1) [OF waits(1) wrote] by (simp add: enqueueFn_def)
    ultimately show ?thesis
      using waits(2) stack_known_cong [OF same] nodes_named_known [OF named node] by (simp add: stack_ok_def)
  next
    case null: True
    obtain st2 where st2: "(if map_get (waitingExecution st) ?n \<noteq> None then Inr st1 else followInputs workflow runData dl ?n st1) = Inr st2"
      "keepWaiting workflow dl c r st2 = Inr st'"
      using call True add main null by (auto simp: deliver_def Let_def rbind_eq_Inr)
    have known: "stack_known workflow st2"
      using st2(1) followInputs_known [OF named] waits(2) stack_known_cong [OF same] by (auto split: if_splits)
    have "only_follows workflow st1 st2"
      using st2(1) followInputs_only_follows by (auto split: if_splits)
    then obtain es where es: "st2 = st1\<lparr>nodeExecutionStack := es\<rparr>"
      by (auto simp: only_follows_def)
    obtain st3 where st3: "keepWaiting workflow dl c r st2 = Inr (st3\<lparr>nodeExecutionStack := es\<rparr>)" "wrote st ?n r ?ys ss st3"
      using keepWaiting_ok [OF wrote, of dl workflow es] index [OF True] len(1) es by auto
    have "waiting_ok workflow st3"
      by (rule wrote_ok [OF waits(1) st3(2) null len ss])
    with st3(1) st2(2) known es show ?thesis
      by (auto simp: stack_ok_def stack_known_def)
  qed
qed

text \<open>The connections of the outputs lead to inputs that are there.\<close>

definition connections_match :: "Workflow \<Rightarrow> bool" where
  "connections_match workflow \<longleftrightarrow> (\<forall>name. \<forall>(i, c)\<in>set (output_connections workflow name).
     1 < numberOfInputs workflow (conn_node c) \<longrightarrow> conn_index c < numberOfInputs workflow (conn_node c))"

lemma addOutputs_keeps_ok:
  assumes "nodes_named workflow" "connections_match workflow" "stack_ok workflow st"
    and "addOutputs workflow runData name data ri st = Inr st'"
  shows "stack_ok workflow st'"
proof -
  let ?add = "\<lambda>(i, c). addNodeToBeExecuted workflow runData c i name data ri None None"
  have one: "stack_ok workflow u'" if "ic \<in> set (output_connections workflow name)" "?add ic u = Inr u'" "stack_ok workflow u" for ic u u'
  proof -
    obtain i c where ic: "ic = (i, c)"
      by fastforce
    with that(1) assms(2) have "1 < numberOfInputs workflow (conn_node c) \<Longrightarrow> conn_index c < numberOfInputs workflow (conn_node c)"
      by (auto simp: connections_match_def)
    from deliver_keeps_ok [OF assms(1) that(3) this] that(2) ic show ?thesis
      by (simp add: addNodeToBeExecuted_def)
  qed
  show ?thesis
  proof (cases "isLegacyExecutionOrder workflow")
    case True
    let ?f = "\<lambda>ic st. if \<not> destinationExists workflow (snd ic) then Inl destinationMissing
      else if outputAdds workflow data ic then ?add ic st else Inr st"
    have "rfold ?f (output_connections workflow name) st = Inr st'"
      using assms(4) True by (simp add: addOutputs_def Let_def)
    then show ?thesis
      by (rule rfold_invariant [where P = "stack_ok workflow"]) (use assms(3) one in \<open>auto split: if_splits\<close>)
  next
    case False
    then have "rfold ?add (js_sort (compare_position workflow) (filter (outputAdds workflow data) (output_connections workflow name))) st = Inr st'"
      using assms(4) by (auto simp: addOutputs_def Let_def split: if_splits)
    then show ?thesis
      by (rule rfold_invariant [where P = "stack_ok workflow"]) (use assms(3) one in auto)
  qed
qed

lemma releaseRun_known:
  assumes "nodes_named workflow" "map_get (wf_nodes workflow) n = Some node" "releaseRun inputs node n r xs st = Inr res" "stack_known workflow st"
  shows "(\<forall>st'. res = Released st' \<longrightarrow> stack_known workflow st') \<and> (\<forall>st'. res = Emptied st' \<longrightarrow> stack_known workflow st')"
  using assms(3,4) nodes_named_known [OF assms(1,2)]
  by (auto simp: releaseRun_def Let_def stack_known_def delete_run_def split: option.splits if_splits)

lemma releaseLoop_known:
  "releaseLoop workflow rules all rest st = Inr st' \<Longrightarrow> nodes_named workflow \<Longrightarrow> stack_known workflow st \<Longrightarrow> stack_known workflow st'"
proof (induction workflow rules all rest st rule: releaseLoop.induct)
  case (2 workflow rules all n rest st)
  obtain res where res: "tryRelease workflow rules all n st = Inr res"
    using 2(3) by (cases "tryRelease workflow rules all n st") auto
  then have "res = Skipped \<or> (\<forall>st'. res = Released st' \<longrightarrow> stack_known workflow st') \<and> (\<forall>st'. res = Emptied st' \<longrightarrow> stack_known workflow st')"
    by (rule tryRelease_cases) (use releaseRun_known [OF 2(4) _ _ 2(5)] in auto)
  with 2 res show ?case
    by (cases res) auto
qed simp

lemma releaseWaiting_keeps_ok:
  assumes "nodes_named workflow" "stack_ok workflow st"
  shows "\<exists>st'. releaseWaiting workflow rules st = Inr st' \<and> stack_ok workflow st'"
proof (cases "nodeExecutionStack st = [] \<and> waitingExecution st \<noteq> []")
  case True
  let ?all = "map_keys (waitingExecution st)"
  obtain st' where "releaseLoop workflow rules ?all ?all st = Inr st'" "waiting_ok workflow st'"
    using releaseLoop_ok [of workflow st ?all ?all rules] assms(2) by (auto simp: stack_ok_def)
  with True assms releaseLoop_known show ?thesis
    by (auto simp: releaseWaiting_def stack_ok_def)
qed (use assms in \<open>auto simp: releaseWaiting_def\<close>)


section \<open>Well-formed states of an execution\<close>

definition run_ok :: "run_state \<Rightarrow> bool" where
  "run_ok rs \<longleftrightarrow> nodes_named (rs_workflow rs) \<and> connections_match (rs_workflow rs) \<and> stack_ok (rs_workflow rs) (rs_execution rs)"

lemma nodes_named_alt: "nodes_named w \<longleftrightarrow> distinct (map fst (wf_nodes w)) \<and>
    (\<forall>(k, name)\<in>set (map (\<lambda>(k, node). (k, node_name node)) (wf_nodes w)). name = k)"
  by (force simp: nodes_named_def)

lemma same_shape_named: "same_shape w w' \<Longrightarrow> nodes_named w' = nodes_named w"
proof -
  assume shape: "same_shape w w'"
  have "map fst (wf_nodes v) = map fst (map (\<lambda>(k, node). (k, node_name node)) (wf_nodes v))" for v
    by (simp add: case_prod_beta)
  with shape show ?thesis
    unfolding nodes_named_alt same_shape_def by metis
qed

lemma same_shape_ok:
  assumes "same_shape w w'"
  shows "connections_match w' = connections_match w" "waiting_ok w' st = waiting_ok w st" "stack_known w' st = stack_known w st"
proof -
  have "output_connections w' name = output_connections w name" for name
    using assms by (simp add: same_shape_def output_connections_def)
  then show "connections_match w' = connections_match w"
    using same_shape_inputs [OF assms] by (simp add: connections_match_def)
  show "waiting_ok w' st = waiting_ok w st"
    using same_shape_inputs [OF assms] by (simp add: waiting_ok_def)
  show "stack_known w' st = stack_known w st"
    using same_shape_getNode [OF assms] by (simp add: stack_known_def) (metis option.map_disc_iff not_None_eq)
qed

lemma run_ok_prepareAction:
  assumes "run_ok rs" "prepareAction e ri action rs = (rs', r)"
  shows "run_ok rs'"
proof -
  have shape: "same_shape (rs_workflow rs) (rs_workflow rs')"
    using only_tries_prepareAction [OF assms(2)] by (simp add: only_tries_def)
  have "map (\<lambda>e. entry_name e) (nodeExecutionStack (rs_execution rs')) = map (\<lambda>e. entry_name e) (nodeExecutionStack (rs_execution rs))"
    "waitingExecution (rs_execution rs') = waitingExecution (rs_execution rs)"
    "waitingExecutionSource (rs_execution rs') = waitingExecutionSource (rs_execution rs)"
    using assms(2) by (auto simp: prepareAction_def Let_def initializeNodeRunData_def rewireAll_def split: option.splits)
  then have "stack_ok (rs_workflow rs) (rs_execution rs') = stack_ok (rs_workflow rs) (rs_execution rs)"
    unfolding stack_ok_def waiting_ok_def stack_known_names by simp
  with assms(1) show ?thesis
    using same_shape_ok [OF shape] same_shape_named [OF shape] by (simp add: run_ok_def stack_ok_def)
qed

lemma run_ok_prepareRequested:
  "prepareRequestedNodesForExecution e ri actions rs = (rs', r) \<Longrightarrow> run_ok rs \<Longrightarrow> run_ok rs'"
proof (induction actions arbitrary: rs rs' r)
  case (Cons action actions)
  obtain rs1 r1 where one: "prepareAction e ri action rs = (rs1, r1)"
    by fastforce
  with Cons.prems run_ok_prepareAction [OF _ one] Cons.IH show ?case
    by (auto split: sum.splits prod.splits)
qed simp

lemma run_ok_addRequested:
  assumes "conn_index (nb_connection nb) = 0" "addRequested nb rs = (rs', r)" "run_ok rs"
  shows "run_ok rs'"
proof -
  have "stack_ok (rs_workflow rs) st" if "addNodeToBeExecuted (rs_workflow rs) runData (nb_connection nb) 0 parent data run i m (rs_execution rs) = Inr st"
    for runData parent data run i m st
    using that assms(1,3) deliver_keeps_ok [of "rs_workflow rs" "rs_execution rs" "nb_connection nb"]
    by (simp add: addNodeToBeExecuted_def run_ok_def)
  with assms(2,3) show ?thesis
    by (auto simp: addRequested_def run_ok_def split: option.splits sum.splits)
qed

lemma run_ok_addAll:
  "addAllRequested nbs rs = (rs', r) \<Longrightarrow> \<forall>nb\<in>set nbs. conn_index (nb_connection nb) = 0 \<Longrightarrow> run_ok rs \<Longrightarrow> run_ok rs'"
proof (induction nbs arbitrary: rs)
  case (Cons nb nbs)
  obtain rs1 r1 where one: "addRequested nb rs = (rs1, r1)"
    by fastforce
  with Cons run_ok_addRequested [OF _ one] show ?case
    by (auto split: option.splits)
qed simp


lemma prepareRequested_index:
  "prepareRequestedNodesForExecution e ri actions rs = (rs', Inr ps) \<Longrightarrow> \<forall>p\<in>set ps. conn_index (nb_connection (fst p)) = 0"
proof (induction actions arbitrary: rs rs' ps)
  case (Cons action actions)
  obtain rs1 r1 where one: "prepareAction e ri action rs = (rs1, r1)"
    by fastforce
  then have "\<forall>p. r1 = Inr p \<longrightarrow> conn_index (nb_connection (fst p)) = 0"
    by (auto simp: prepareAction_def Let_def initializeNodeRunData_def split: option.splits)
  with Cons.prems one show ?case
    by (auto split: sum.splits prod.splits dest!: Cons.IH)
qed simp

lemma run_ok_handleEngineRequest:
  assumes "handleEngineRequest e ri request rs = (rs', r)" "run_ok rs"
  shows "run_ok rs'"
proof -
  obtain rs1 r1 where prep: "prepareRequestedNodesForExecution e ri (request_actions request) rs = (rs1, r1)"
    by fastforce
  have ok: "run_ok rs1"
    using run_ok_prepareRequested [OF prep assms(2)] .
  show ?thesis
  proof (cases r1)
    case (Inl err)
    with assms(1) prep ok show ?thesis
      by (simp add: handleEngineRequest_def handleRequest_def)
  next
    case (Inr ps)
    then obtain nbs where "handleRequest e ri request rs = (rs1, Inr nbs)" "\<forall>nb\<in>set nbs. conn_index (nb_connection nb) = 0"
      using prep prepareRequested_index [of e ri "request_actions request" rs rs1 ps]
      by (cases "prepareRequestingNodeForResuming e") (auto simp: handleRequest_def)
    with assms(1) run_ok_addAll [of nbs rs1] ok show ?thesis
      by (simp add: handleEngineRequest_def)
  qed
qed

lemma run_ok_updates [simp]:
  "run_ok (rs\<lparr>rs_lastNodeExecuted := l\<rparr>) = run_ok rs" "run_ok (rs\<lparr>rs_runData := rd\<rparr>) = run_ok rs"
  "run_ok (rs\<lparr>rs_executionError := err\<rparr>) = run_ok rs"
  "run_ok (rs\<lparr>rs_calls := c, rs_waitTill := w\<rparr>) = run_ok rs"
  by (simp_all add: run_ok_def)

interpretation ok_tries: try_relation env e ri "\<lambda>rs rs'. run_ok rs \<longrightarrow> run_ok rs'"
proof
  show "callNode env e ri resp rs = (rs', r) \<Longrightarrow> run_ok rs \<longrightarrow> run_ok rs'" for resp rs rs' r
    by (auto simp: callNode_def split: prod.splits)
  show "finishTry env e b d rs = (rs', d', out) \<Longrightarrow> run_ok rs \<longrightarrow> run_ok rs'" for b d rs rs' d' out
    by (auto simp: finishTry_def Let_def split: option.splits sum.splits if_splits)
qed (auto dest: run_ok_handleEngineRequest)

text \<open>The entry that runs is put back only for its own node.\<close>

lemma run_ok_unshiftEntry:
  "run_ok rs \<Longrightarrow> getNode (rs_workflow rs) (entry_name e) \<noteq> None \<Longrightarrow> run_ok (unshiftEntry e rs)"
  by (auto simp: run_ok_def unshiftEntry_def stack_ok_def stack_known_def)

lemma run_ok_scheduleNext:
  assumes "run_ok rs"
  shows "run_ok (state_of (scheduleNext env e ri data rs))"
proof (cases "addOutputs (rs_workflow rs) (rs_runData rs) (entry_name e) data ri (rs_execution rs)")
  case (Inl err)
  with assms show ?thesis
    by (simp add: scheduleNext_def)
next
  case (Inr st)
  have ok: "stack_ok (rs_workflow rs) st"
    using addOutputs_keeps_ok [OF _ _ _ Inr] assms by (simp add: run_ok_def)
  then obtain st' where "releaseWaiting (rs_workflow rs) (en_rules env) st = Inr st'" "stack_ok (rs_workflow rs) st'"
    using releaseWaiting_keeps_ok assms unfolding run_ok_def by blast
  with Inr assms show ?thesis
    by (simp add: scheduleNext_def run_ok_def)
qed

lemma run_ok_recordSuccess:
  assumes "run_ok rs" "getNode (rs_workflow rs) (entry_name e) \<noteq> None"
  shows "run_ok (state_of (recordSuccess env e ri task data rs))"
  using assms by (auto simp: recordSuccess_def Let_def run_ok_scheduleNext run_ok_unshiftEntry split: sum.splits)

lemma run_ok_recordRun:
  assumes "run_ok rs" "getNode (rs_workflow rs) (entry_name e) \<noteq> None"
  shows "run_ok (state_of (recordRun env e ri index err data rs))"
  using assms
  by (auto simp: recordRun_def recordFailure_def Let_def run_ok_recordSuccess run_ok_unshiftEntry split: option.splits)

lemma run_ok_runEntry:
  assumes "run_ok rs" "getNode (rs_workflow rs) (entry_name e) \<noteq> None"
  shows "run_ok (state_of (runEntry env e index rs))"
proof -
  obtain rs1 res where loop: "tryLoop env e (runIndexOf e (rs_runData rs)) (maxTries e - 1) makeEngineResponse None rs = (rs1, res)"
    by fastforce
  have "same_shape (rs_workflow rs) (rs_workflow rs1)"
    using tries.R_tryLoop [OF loop] by (simp add: only_tries_def)
  from same_shape_getNode [OF this, of "entry_name e"] have "getNode (rs_workflow rs1) (entry_name e) \<noteq> None"
    using assms(2) by auto
  moreover have "run_ok rs1"
    using ok_tries.R_tryLoop [OF loop] assms(1) by simp
  ultimately have recorded: "run_ok (state_of (recordRun env e ri index err data rs1))" for ri err data
    by (rule run_ok_recordRun [rotated])
  have "run_ok (rs\<lparr>rs_lastTry := l, rs_execution := (rs_execution rs)\<lparr>nodeExecutionStack := nodeExecutionStack (rs_execution rs) @ [e]\<rparr>\<rparr>)" for l
    using assms by (auto simp: run_ok_def stack_ok_def stack_known_def)
  with recorded loop assms(1) \<open>run_ok rs1\<close> show ?thesis
    by (auto simp: runEntry_def Let_def split: option.splits prod.splits)
qed

interpretation well_formed: step_invariant "loop_step env" "\<lambda>s. run_ok (state_of s)"
proof
  fix s t
  assume "loop_step env s t" "run_ok (state_of s)"
  then show "run_ok (state_of t)"
  proof cases
    case (iterate rs)
    show ?thesis
    proof (cases "nodeExecutionStack (rs_execution rs)")
      case (Cons e rest)
      let ?rs = "rs\<lparr>rs_execution := (rs_execution rs)\<lparr>nodeExecutionStack := rest\<rparr>, rs_executionError := None,
        rs_executionIndex := Suc (rs_executionIndex rs)\<rparr>"
      have "run_ok ?rs" "getNode (rs_workflow ?rs) (entry_name (pairInputs e)) \<noteq> None"
        using iterate \<open>run_ok (state_of s)\<close> Cons by (auto simp: run_ok_def stack_ok_def stack_known_def)
      from run_ok_runEntry [OF this, of env "rs_executionIndex rs"] iterate Cons show ?thesis
        by (simp add: executionStep_def)
    qed (use iterate \<open>run_ok (state_of s)\<close> in \<open>simp add: executionStep_def\<close>)
  qed simp
qed

text \<open>\<^bold>\<open>C4.\<close> 
  The state of an execution stays well formed, whatever its nodes do: in every state that is reached
  from a well-formed one, every entry of the stack is for a node of the workflow, and every waiting
  run has one position per input of its node, none of them a hole, at least one of them missing, and
  a source array of the same length.  The workflow has its nodes under their names, and its connections end
  at inputs of their nodes.  Executions started by \<open>run\<close> begin well formed; the states that
  \<open>recreateNodeExecutionStack\<close> makes for partial executions need not.
\<close>
theorem execution_well_formed:
  assumes "nodes_named (rs_workflow rs)" "connections_match (rs_workflow rs)" "stack_ok (rs_workflow rs) (rs_execution rs)"
    and "(loop_step env)\<^sup>*\<^sup>* (Looping rs) s"
  shows "stack_ok (rs_workflow (state_of s)) (rs_execution (state_of s))"
  using well_formed.inv_reachable [OF assms(4)] assms(1-3) by (simp add: run_ok_def)


section \<open>A sample execution\<close>

text \<open>The four nodes run, the merging node last, with both inputs.  The two branches have the same
  position and run in the reverse order of their connections.\<close>

lemma merge_run:
  "case iterate_loop 5 passing (Looping merge_start) of
     Stopped rs \<Rightarrow> map fst (rs_runData rs) = [''t'', ''b'', ''a'', ''m''] \<and> rs_executionIndex rs = 4 \<and>
       map_option run_status (finishExecution (Stopped rs)) = Some Success
   | _ \<Rightarrow> False"
  by code_simp

lemma merge_connections_match: "connections_match merge_workflow"
proof -
  have "set (output_connections merge_workflow name) \<subseteq> {(0, to_input ''a'' 0), (0, to_input ''b'' 0), (0, to_input ''m'' 0), (0, to_input ''m'' 1)}" for name
    by (auto simp: output_connections_def merge_workflow_def own_or_def slot_list_def split: if_splits)
  then show ?thesis
    by (fastforce simp: connections_match_def numberOfInputs_def to_input_def)
qed

theorem execution_well_formed_witness:
  "stack_ok (rs_workflow (state_of (iterate_loop 2 passing (Looping merge_start)))) (rs_execution (state_of (iterate_loop 2 passing (Looping merge_start)))) \<and>
   nodeExecutionStack (rs_execution (state_of (iterate_loop 2 passing (Looping merge_start)))) \<noteq> []"
proof
  have "nodes_named (rs_workflow merge_start)"
    by (simp add: nodes_named_def merge_start_def sample_state_def merge_workflow_def sample_node_def)
  moreover have "connections_match (rs_workflow merge_start)"
    using merge_connections_match by (simp add: merge_start_def sample_state_def)
  moreover have "stack_ok (rs_workflow merge_start) (rs_execution merge_start)"
    by (simp add: stack_ok_def merge_start_def sample_state_def no_stack_def waiting_ok_def stack_known_def getNode_def
        merge_workflow_def sample_entry_def sample_node_def)
  ultimately show "stack_ok (rs_workflow (state_of (iterate_loop 2 passing (Looping merge_start)))) (rs_execution (state_of (iterate_loop 2 passing (Looping merge_start))))"
    by (rule execution_well_formed) (rule iterate_loop_reachable)
  show "nodeExecutionStack (rs_execution (state_of (iterate_loop 2 passing (Looping merge_start)))) \<noteq> []"
    by code_simp
qed

end
