(* ===== verification/Partial_Execution.thy ===== *)
theory Partial_Execution
  imports Subgraph Well_Formed_Runs
begin

text \<open>
  How an execution begins, from \<^verbatim>\<open>packages/core/src/execution-engine/\<close>: \<open>run\<close> and
  \<open>runPartialWorkflow2\<close> of \<^verbatim>\<open>workflow-execute.ts\<close>, with the choice of the trigger of a partial
  execution (\<^verbatim>\<open>find-trigger-for-partial-execution.ts\<close>) and the virtual executor that takes the place
  of an agent when a tool is run alone (\<^verbatim>\<open>rewire-graph.ts\<close>).  Both functions end in a call of
  \<open>processRunExecutionData\<close>; in the model they return the engine and the state with which the loop
  of \<open>Execution_Loop\<close> begins.

  The descriptions of the node types are the parameter \<open>descriptions\<close>.  An object that is mutated is
  updated wherever it occurs, by its \<open>node_ref\<close>; the reference of the one node that is created is the
  parameter \<open>fresh\<close>.  The default parameters that the constructor of \<open>Workflow\<close> fills in, which only
  node code reads, are left out.
\<close>

section \<open>Node types and tools\<close>

datatype desc_output = OutputName string | OutputConfig string

record INodeTypeDescription =
  desc_name :: string
  desc_group :: "string list"
  desc_outputs :: "desc_output list option"

type_synonym descriptions = "INode \<Rightarrow> INodeTypeDescription"

text \<open>The loop of \<open>isTool\<close> returns at the first output that is given by its name.\<close>

fun toolOutput :: "desc_output list \<Rightarrow> bool" where
  "toolOutput [] = False"
| "toolOutput (OutputName name # outputs) = (name = conn_type_string AiTool)"
| "toolOutput (OutputConfig type # outputs) = (type = conn_type_string AiTool \<or> toolOutput outputs)"

definition isTool :: "INodeTypeDescription \<Rightarrow> (string \<times> json) list \<Rightarrow> bool" where
  "isTool nodeTypeDescription parameters =
     (if js_includes (desc_name nodeTypeDescription) ''vectorStore''
      then map_get parameters ''mode'' = Some (JStr ''retrieve-as-tool'')
      else (case desc_outputs nodeTypeDescription of None \<Rightarrow> False | Some outputs \<Rightarrow> toolOutput outputs))"

definition isTriggerNode :: "INodeTypeDescription \<Rightarrow> bool" where
  "isTriggerNode nodeType = (''trigger'' \<in> set (desc_group nodeType))"

section \<open>The trigger of a partial execution\<close>

definition js_endsWith :: "string \<Rightarrow> string \<Rightarrow> bool" where
  "js_endsWith s t = (length t \<le> length s \<and> drop (length s - length t) s = t)"

definition parentNodes_of :: "Workflow \<Rightarrow> string \<Rightarrow> string list" where
  "parentNodes_of workflow name = getParentNodes (connectionsByDestinationNode workflow) name (OfType Main) (-1)"

definition existingNode :: "Workflow \<Rightarrow> string \<Rightarrow> INode result" where
  "existingNode workflow name = (case getNode workflow name of None \<Rightarrow> Inl AssertionError | Some node \<Rightarrow> Inr node)"

definition findAllParentTriggers :: "Workflow \<Rightarrow> descriptions \<Rightarrow> string \<Rightarrow> INode list result" where
  "findAllParentTriggers workflow descriptions destinationNodeName =
     rbind (rmap (existingNode workflow) (parentNodes_of workflow destinationNodeName)) (\<lambda>parentNodes.
       Inr (filter (\<lambda>node. isTriggerNode (descriptions node)) parentNodes))"

text \<open>The order of the triggers with pinned data.  The answers of the comparison contradict each other
  for two webhooks; the model takes the order the comment at the call describes, the webhooks first and
  reversed.\<close>

definition sortPinned :: "INode list \<Rightarrow> INode list" where
  "sortPinned ts =
     rev (filter (\<lambda>t. js_endsWith (node_type t) ''webhook'') ts) @
     filter (\<lambda>t. \<not> js_endsWith (node_type t) ''webhook'') ts"

definition pickTrigger :: "IPinData option \<Rightarrow> IRunData \<Rightarrow> INode list \<Rightarrow> INode option" where
  "pickTrigger pinData runData parentTriggers =
     (case find (\<lambda>t. map_get runData (node_name t) \<noteq> None) parentTriggers of
        Some trigger \<Rightarrow> Some trigger
      | None \<Rightarrow>
          (let pinnedTriggers = sortPinned (filter (\<lambda>t. case pinData of None \<Rightarrow> False
                 | Some pins \<Rightarrow> map_get pins (node_name t) \<noteq> None) parentTriggers);
               webhookTriggers = filter (\<lambda>t. js_endsWith (node_type t) ''webhook'') parentTriggers
           in case pinnedTriggers of
                trigger # _ \<Rightarrow> Some trigger
              | [] \<Rightarrow>
                  (case webhookTriggers of
                     trigger # _ \<Rightarrow> Some trigger
                   | [] \<Rightarrow> (case parentTriggers of [] \<Rightarrow> None | trigger # _ \<Rightarrow> Some trigger))))"

definition findTriggerForPartialExecution ::
  "Workflow \<Rightarrow> IPinData option \<Rightarrow> descriptions \<Rightarrow> string \<Rightarrow> IRunData \<Rightarrow> INode option result" where
  "findTriggerForPartialExecution workflow workflowPinData descriptions destinationNodeName runData =
     (case getNode workflow destinationNodeName of
        None \<Rightarrow> Inr None
      | Some destinationNode \<Rightarrow>
          if isTriggerNode (descriptions destinationNode) \<and> \<not> is_disabled destinationNode then Inr (Some destinationNode)
          else rbind (findAllParentTriggers workflow descriptions destinationNodeName) (\<lambda>parentTriggers.
                 Inr (pickTrigger workflowPinData runData (filter (\<lambda>t. \<not> is_disabled t) parentTriggers))))"

text \<open>Whether a node the destination depends on, and that nothing leads to, has been run.\<close>

definition isRoot :: "DirectedGraph \<Rightarrow> INode \<Rightarrow> bool result" where
  "isRoot g node = rbind (getDirectParentConnections g node) (\<lambda>cs. Inr (\<not> (\<exists>c \<in> set cs. gc_type c = Main)))"

definition addRoot :: "DirectedGraph \<Rightarrow> INode \<Rightarrow> INode js_set \<Rightarrow> INode js_set result" where
  "addRoot g node roots = rbind (isRoot g node) (\<lambda>root. Inr (if root then set_add node roots else roots))"

definition anyReachableRootHasRunData :: "DirectedGraph \<Rightarrow> string \<Rightarrow> IRunData \<Rightarrow> bool result" where
  "anyReachableRootHasRunData g destinationNodeName runData =
     (case map_get (getNodes g) destinationNodeName of
        None \<Rightarrow> Inr False
      | Some destinationNode \<Rightarrow>
          rbind (getParentConnections g destinationNode) (\<lambda>parentConnections.
          rbind (rfold (addRoot g) (set_of_array (map from_node parentConnections)) []) (\<lambda>rootNodes.
            Inr (\<exists>root \<in> set rootNodes. map_get runData (node_name root) \<noteq> None))))"

section \<open>Running a tool alone\<close>

text \<open>\<open>JSON.stringify\<close>\<close>

fun js_join :: "string \<Rightarrow> string list \<Rightarrow> string" where
  "js_join sep [] = []"
| "js_join sep [s] = s"
| "js_join sep (s # ss) = s @ sep @ js_join sep ss"

definition hex_digit :: "nat \<Rightarrow> char" where
  "hex_digit d = (if d < 10 then digit_char d else char_of (87 + d))"

definition json_char :: "char \<Rightarrow> string" where
  "json_char c =
     (let n = of_char c :: nat
      in if n = 34 \<or> n = 92 then [char_of (92 :: nat), c]
         else if n = 8 then [char_of (92 :: nat), CHR ''b''] else if n = 9 then [char_of (92 :: nat), CHR ''t'']
         else if n = 10 then [char_of (92 :: nat), CHR ''n''] else if n = 12 then [char_of (92 :: nat), CHR ''f'']
         else if n = 13 then [char_of (92 :: nat), CHR ''r'']
         else if n < 32 then char_of (92 :: nat) # ''u00'' @ [hex_digit (n div 16), hex_digit (n mod 16)]
         else [c])"

definition json_string :: "string \<Rightarrow> string" where
  "json_string s = [char_of (34 :: nat)] @ concat (map json_char s) @ [char_of (34 :: nat)]"

fun js_stringify :: "json \<Rightarrow> string" where
  "js_stringify JNull = ''null''"
| "js_stringify (JBool b) = (if b then ''true'' else ''false'')"
| "js_stringify (JNum i) = (if i < 0 then ''-'' @ nat_to_string (nat (- i)) else nat_to_string (nat i))"
| "js_stringify (JStr s) = json_string s"
| "js_stringify (JArr xs) = ''['' @ js_join '','' (map js_stringify xs) @ '']''"
| "js_stringify (JObj kvs) = ''{'' @ js_join '','' (map (\<lambda>(k, v). json_string k @ '':'' @ js_stringify v) kvs) @ ''}''"

record AiAgentRequest =
  agent_query :: json
  agent_tool :: string

definition TOOL_EXECUTOR_NODE_NAME :: string where
  "TOOL_EXECUTOR_NODE_NAME = ''PartialExecutionToolExecutor''"

definition toolExecutorNode :: "nat \<Rightarrow> INode \<Rightarrow> INode \<Rightarrow> AiAgentRequest option \<Rightarrow> INode" where
  "toolExecutorNode fresh tool rootNode agentRequest =
     \<lparr>node_ref = fresh, node_id = node_id rootNode, node_name = TOOL_EXECUTOR_NODE_NAME,
      node_type = ''@n8n/n8n-nodes-langchain.toolExecutor'', node_typeVersion = 0, node_disabled = Some False,
      node_parameters =
        [(''query'', JStr (js_stringify (case agentRequest of None \<Rightarrow> JObj [] | Some r \<Rightarrow> agent_query r))),
         (''toolName'', JStr (case agentRequest of None \<Rightarrow> [] | Some r \<Rightarrow> agent_tool r)),
         (''node'', JStr (node_name tool))],
      node_rewireOutputLogTo = None, node_position = (0, 0), node_onError = None, node_continueOnFail = None,
      node_alwaysOutputData = None, node_executeOnce = None, node_retryOnFail = None, node_maxTries = None,
      node_waitBetweenTries = None\<rparr>"

text \<open>\<open>tool.rewireOutputLogTo = NodeConnectionTypes.AiTool\<close>, on the object and in a graph that holds it.\<close>

definition rewireLog :: "nat \<Rightarrow> INode \<Rightarrow> INode" where
  "rewireLog ref node = (if node_ref node = ref then node\<lparr>node_rewireOutputLogTo := Some AiTool\<rparr> else node)"

definition rewireLog_connection :: "nat \<Rightarrow> GraphConnection \<Rightarrow> GraphConnection" where
  "rewireLog_connection ref c = c\<lparr>from_node := rewireLog ref (from_node c), to_node := rewireLog ref (to_node c)\<rparr>"

definition rewireLog_graph :: "nat \<Rightarrow> DirectedGraph \<Rightarrow> DirectedGraph" where
  "rewireLog_graph ref g =
     g\<lparr>nodes := map (\<lambda>(k, n). (k, rewireLog ref n)) (nodes g),
       connections := map (\<lambda>(k, c). (k, rewireLog_connection ref c)) (connections g)\<rparr>"

definition to_executor :: "INode \<Rightarrow> INode \<Rightarrow> NodeConnectionType \<Rightarrow> ConnectionInput" where
  "to_executor from executor type =
     \<lparr>ci_from = from, ci_to = executor, ci_type = Some type, ci_outputIndex = None, ci_inputIndex = None\<rparr>"

definition rewireGraph :: "nat \<Rightarrow> INode \<Rightarrow> DirectedGraph \<Rightarrow> AiAgentRequest option \<Rightarrow> DirectedGraph result" where
  "rewireGraph fresh tool graph agentRequest =
     rbind (clone graph) (\<lambda>modifiedGraph.
     rbind (getChildren modifiedGraph tool) (\<lambda>children.
       if children = [] then Inr graph
       else
         let rootNode = last children
         in rbind (getDirectParentConnections modifiedGraph rootNode) (\<lambda>parentConnections.
              let allIncomingConnection = filter (\<lambda>cn. gc_type cn = Main) parentConnections;
                  toolExecutor = toolExecutorNode fresh tool rootNode agentRequest;
                  modifiedGraph = rewireLog_graph (node_ref tool) (addNode modifiedGraph toolExecutor);
                  rewired = rewireLog (node_ref tool)
              in rbind (addConnection modifiedGraph (to_executor (rewired tool) toolExecutor AiTool)) (\<lambda>modifiedGraph.
                 rbind (rfold (\<lambda>cn g. addConnection g (to_executor (rewired (from_node cn)) toolExecutor (gc_type cn)))
                          allIncomingConnection modifiedGraph) (\<lambda>modifiedGraph.
                 rbind (removeNode modifiedGraph (rewired rootNode) False (\<lambda>c. False)) (\<lambda>(modifiedGraph, _).
                   Inr modifiedGraph))))))"

section \<open>The first state of an execution\<close>

datatype destination_mode = Inclusive | Exclusive

record IDestinationNode =
  dest_nodeName :: string
  dest_mode :: destination_mode

text \<open>\<open>createRunExecutionData\<close>, with the local variables of \<open>processRunExecutionData\<close>.\<close>

definition createRunExecutionData :: "Workflow \<Rightarrow> ExecutionStack \<Rightarrow> IRunData \<Rightarrow> nat \<Rightarrow> run_state" where
  "createRunExecutionData workflow executionData runData currentNodeExecutionIndex =
     \<lparr>rs_workflow = workflow, rs_execution = executionData, rs_runData = runData, rs_lastNodeExecuted = None,
      rs_resultError = None, rs_waitTill = None, rs_executionIndex = currentNodeExecutionIndex,
      rs_lastTry = None, rs_executionError = None, rs_calls = 0\<rparr>"

definition runFilter :: "Workflow \<Rightarrow> IDestinationNode \<Rightarrow> string list option \<Rightarrow> string list" where
  "runFilter workflow destinationNode additionalRunFilterNodes =
     set_of_array
       (parentNodes_of workflow (dest_nodeName destinationNode)
        @ getParentNodes (connectionsByDestinationNode workflow) (dest_nodeName destinationNode) AllNonMain (-1)
        @ (if dest_mode destinationNode = Inclusive then [dest_nodeName destinationNode] else [])
        @ (case additionalRunFilterNodes of None \<Rightarrow> [] | Some names \<Rightarrow> names))"

record RunWorkflowOptions =
  opt_startNode :: "INode option"
  opt_destinationNode :: "IDestinationNode option"
  opt_pinData :: "IPinData option"
  opt_triggerData :: "ITaskDataConnections option"
  opt_additionalRunFilterNodes :: "string list option"

definition startEntry :: "INode \<Rightarrow> RunWorkflowOptions \<Rightarrow> IExecuteData" where
  "startEntry startNode options =
     \<lparr>exec_node = startNode,
      exec_data = (case opt_triggerData options of Some d \<Rightarrow> d | None \<Rightarrow> [(Main, [Some [empty_item]])]),
      exec_source = None, exec_runIndex = None, exec_metadata = None\<rparr>"

definition run :: "engine \<Rightarrow> nat \<Rightarrow> Workflow \<Rightarrow> RunWorkflowOptions \<Rightarrow> (engine \<times> run_state) result" where
  "run env currentNodeExecutionIndex workflow options =
     rbind (case opt_startNode options of
              Some node \<Rightarrow> Inr (Some node)
            | None \<Rightarrow> getStartNode workflow (en_nodeTypes env) (map_option dest_nodeName (opt_destinationNode options)))
       (\<lambda>startNode.
         case startNode of
           None \<Rightarrow> Inl (AppError ''No node to start the workflow from could be found'')
         | Some node \<Rightarrow>
             let filter' = map_option (\<lambda>d. runFilter workflow d (opt_additionalRunFilterNodes options)) (opt_destinationNode options)
             in Inr (env\<lparr>en_runNodeFilter := filter',
                       en_destination := map_option dest_nodeName (opt_destinationNode options),
                       en_pinData := (case opt_pinData options of Some pins \<Rightarrow> pins | None \<Rightarrow> [])\<rparr>,
                     createRunExecutionData workflow
                       \<lparr>nodeExecutionStack = [startEntry node options], waitingExecution = [], waitingExecutionSource = []\<rparr> []
                       currentNodeExecutionIndex))"

section \<open>Partial executions\<close>

definition setNodes :: "INode list \<Rightarrow> (string, INode) js_map" where
  "setNodes ns = fold (\<lambda>node m. map_set (node_name node) node m) ns []"

definition toWorkflow :: "DirectedGraph \<Rightarrow> Workflow \<Rightarrow> Workflow result" where
  "toWorkflow graph parameters =
     rbind (toIConnections graph) (\<lambda>conns.
       Inr (parameters\<lparr>wf_nodes := setNodes (map_values (getNodes graph)), connectionsBySourceNode := conns,
              connectionsByDestinationNode := mapConnectionsByDestination conns\<rparr>))"

text \<open>What a partial execution works on: the workflow, its graph, and the destination.\<close>

record partial_input =
  pi_workflow :: Workflow
  pi_graph :: DirectedGraph
  pi_destination :: INode
  pi_destinationName :: string

definition preparePartial ::
  "descriptions \<Rightarrow> nat \<Rightarrow> Workflow \<Rightarrow> string \<Rightarrow> AiAgentRequest option \<Rightarrow> partial_input result" where
  "preparePartial descriptions fresh workflow destinationNodeName agentRequest =
     rbind (existingNode workflow destinationNodeName) (\<lambda>destination.
     rbind (fromWorkflow (wf_nodes workflow) (connectionsBySourceNode workflow)) (\<lambda>graph.
       if isTool (descriptions destination) (node_parameters destination) then
         rbind (rewireGraph fresh destination graph agentRequest) (\<lambda>graph.
         rbind (toWorkflow graph workflow) (\<lambda>workflow.
           case getNode workflow TOOL_EXECUTOR_NODE_NAME of
             None \<Rightarrow> Inl (AppError ''ToolExecutor can not be found'')
           | Some toolExecutor \<Rightarrow>
               Inr \<lparr>pi_workflow = workflow, pi_graph = graph, pi_destination = toolExecutor,
                    pi_destinationName = node_name toolExecutor\<rparr>))
       else Inr \<lparr>pi_workflow = workflow, pi_graph = graph, pi_destination = destination,
                 pi_destinationName = destinationNodeName\<rparr>))"

text \<open>The trigger, or else the first parent that has run data.\<close>

definition findTrigger :: "descriptions \<Rightarrow> IPinData option \<Rightarrow> IRunData \<Rightarrow> partial_input \<Rightarrow> INode result" where
  "findTrigger descriptions workflowPinData runData p =
     rbind (findTriggerForPartialExecution (pi_workflow p) workflowPinData descriptions (pi_destinationName p) runData)
       (\<lambda>trigger.
         case trigger of
           Some t \<Rightarrow> Inr t
         | None \<Rightarrow>
             (case find (\<lambda>name. map_get runData name \<noteq> None) (parentNodes_of (pi_workflow p) (pi_destinationName p)) of
                None \<Rightarrow> Inl (AppError ''Connect a trigger to run this node'')
              | Some name \<Rightarrow>
                  (case getNode (pi_workflow p) name of
                     None \<Rightarrow> Inl (AppError ''Connect a trigger to run this node'')
                   | Some startNode \<Rightarrow> Inr startNode)))"

text \<open>The steps 2 to 8.\<close>

definition startPartial ::
  "(string \<Rightarrow> string \<Rightarrow> int) \<Rightarrow> engine \<Rightarrow> IRunData \<Rightarrow> IPinData \<Rightarrow> string list \<Rightarrow> INode \<Rightarrow> partial_input
     \<Rightarrow> (engine \<times> run_state) result" where
  "startPartial localeCompare env runData pinData dirtyNodeNames trigger p =
     rbind (filterDisabledNodes (pi_graph p)) (\<lambda>graph.
     rbind (findSubgraph graph (pi_destination p) trigger) (\<lambda>graph.
     rbind (cleanRunData runData graph (getNodesByNames graph dirtyNodeNames)) (\<lambda>runData.
     rbind (findStartNodes graph trigger (pi_destination p) pinData runData) (\<lambda>startNodes.
     rbind (handleCycles graph startNodes trigger) (\<lambda>startNodes.
     rbind (cleanRunData runData graph startNodes) (\<lambda>runData.
     rbind (recreateNodeExecutionStack localeCompare graph startNodes runData pinData) (\<lambda>executionData.
       Inr (env\<lparr>en_runNodeFilter := Some (map node_name (map_values (getNodes graph))),
              en_destination := Some (pi_destinationName p), en_pinData := pinData\<rparr>,
            createRunExecutionData (pi_workflow p) executionData runData (getNextExecutionIndex runData)))))))))"

definition runPartialWorkflow2 ::
  "(string \<Rightarrow> string \<Rightarrow> int) \<Rightarrow> descriptions \<Rightarrow> nat \<Rightarrow> engine \<Rightarrow> Workflow \<Rightarrow> IPinData option \<Rightarrow> IRunData \<Rightarrow> IPinData
     \<Rightarrow> string list \<Rightarrow> IDestinationNode \<Rightarrow> AiAgentRequest option \<Rightarrow> (engine \<times> run_state) result" where
  "runPartialWorkflow2 localeCompare descriptions fresh env workflow workflowPinData runData pinData dirtyNodeNames
       destinationNode agentRequest =
     rbind (preparePartial descriptions fresh workflow (dest_nodeName destinationNode) agentRequest) (\<lambda>p.
     rbind (findTrigger descriptions workflowPinData runData p) (\<lambda>trigger.
       startPartial localeCompare env runData pinData dirtyNodeNames trigger p))"


section \<open>The choice of the trigger\<close>

text \<open>The enabled triggers a partial execution can start from.\<close>

definition trigger_candidate :: "Workflow \<Rightarrow> descriptions \<Rightarrow> string \<Rightarrow> INode \<Rightarrow> bool" where
  "trigger_candidate workflow descriptions destination t \<longleftrightarrow>
     isTriggerNode (descriptions t) \<and> \<not> is_disabled t \<and>
     (\<exists>name. getNode workflow name = Some t \<and>
        (name = destination \<or> (destination, name) \<in> (conn_edges (connectionsByDestinationNode workflow) (OfType Main))\<^sup>+))"

lemma rmap_existing:
  "\<forall>name\<in>set names. getNode workflow name \<noteq> None \<Longrightarrow>
     rmap (existingNode workflow) names = Inr (map (\<lambda>name. the (getNode workflow name)) names)"
  by (induction names) (auto simp: existingNode_def split: option.splits)

lemma set_parents_of:
  "set (getParentNodes conns name f (-1)) = {n. n \<noteq> name \<and> (name, n) \<in> (conn_edges conns f)\<^sup>+}"
  by (auto simp: getParentNodes_def getConnectedNodes_reach trancl_power elim: gr0_implies_Suc)
    (metis gr0I relpow_0_E)

lemma set_parentNodes:
  "set (parentNodes_of workflow name) =
     {n. n \<noteq> name \<and> (name, n) \<in> (conn_edges (connectionsByDestinationNode workflow) (OfType Main))\<^sup>+}"
  by (simp add: parentNodes_of_def set_parents_of)

lemma find_mem: "find P xs = Some x \<Longrightarrow> x \<in> set xs"
  by (auto simp: find_Some_iff)

lemma filter_head: "filter P xs = x # ys \<Longrightarrow> x \<in> set xs"
  by (metis filter_is_subset list.set_intros(1) subsetD)

lemma sortPinned_head: "sortPinned ts = t # us \<Longrightarrow> t \<in> set ts"
proof -
  assume "sortPinned ts = t # us"
  then have "t \<in> set (sortPinned ts)" by simp
  then show ?thesis by (auto simp: sortPinned_def)
qed

lemma pickTrigger_mem: "pickTrigger pins runData ts = Some t \<Longrightarrow> t \<in> set ts"
  by (auto simp: pickTrigger_def Let_def dest!: find_mem filter_head sortPinned_head split: option.splits list.splits)

lemma pickTrigger_None: "pickTrigger pins runData ts = None \<longleftrightarrow> ts = []"
  by (auto simp: pickTrigger_def sortPinned_def Let_def split: option.splits list.splits)

lemma pickTrigger_run:
  assumes "pickTrigger pins runData ts = Some t" "u \<in> set ts" "map_get runData (node_name u) \<noteq> None"
  shows "map_get runData (node_name t) \<noteq> None"
proof -
  let ?P = "\<lambda>t. map_get runData (node_name t) \<noteq> None"
  have "find ?P ts \<noteq> None"
    using assms(2,3) by (auto simp: find_None_iff)
  with assms(1) have "find ?P ts = Some t"
    by (auto simp: pickTrigger_def)
  then show ?thesis
    by (auto simp: find_Some_iff)
qed


lemma findAllParentTriggers_result:
  assumes "\<forall>name\<in>set (parentNodes_of workflow destination). getNode workflow name \<noteq> None"
  shows "\<exists>ts. findAllParentTriggers workflow descriptions destination = Inr ts \<and>
    (\<forall>t. t \<in> set ts \<longleftrightarrow> isTriggerNode (descriptions t) \<and>
       (\<exists>name\<in>set (parentNodes_of workflow destination). getNode workflow name = Some t))"
proof -
  have "t \<in> (\<lambda>name. the (getNode workflow name)) ` set (parentNodes_of workflow destination) \<longleftrightarrow>
      (\<exists>name\<in>set (parentNodes_of workflow destination). getNode workflow name = Some t)" for t
    using assms by (force simp: image_iff)
  then show ?thesis
    by (auto simp: findAllParentTriggers_def rmap_existing [OF assms])
qed

text \<open>\<^bold>\<open>C37.\<close> The trigger a partial execution starts from is the destination itself or a node above
  it, an enabled trigger; there is none only if no such trigger exists; and if the destination is not
  one, and such a trigger has run data, the chosen one has.\<close>

theorem findTriggerForPartialExecution_correct:
  assumes "\<forall>name\<in>set (parentNodes_of workflow destination). getNode workflow name \<noteq> None"
    and "getNode workflow destination = Some d"
  shows "\<exists>found. findTriggerForPartialExecution workflow pins descriptions destination runData = Inr found \<and>
    (case found of
       None \<Rightarrow> \<forall>t. \<not> trigger_candidate workflow descriptions destination t
     | Some t \<Rightarrow> trigger_candidate workflow descriptions destination t \<and>
         (t = d \<or> (\<forall>u. trigger_candidate workflow descriptions destination u \<and> map_get runData (node_name u) \<noteq> None \<longrightarrow>
            map_get runData (node_name t) \<noteq> None)))"
proof (cases "isTriggerNode (descriptions d) \<and> \<not> is_disabled d")
  case True
  with assms(2) show ?thesis
    by (auto simp: findTriggerForPartialExecution_def trigger_candidate_def)
next
  case False
  obtain ts where ts: "findAllParentTriggers workflow descriptions destination = Inr ts"
    "\<And>t. t \<in> set ts \<longleftrightarrow> isTriggerNode (descriptions t) \<and>
       (\<exists>name\<in>set (parentNodes_of workflow destination). getNode workflow name = Some t)"
    using findAllParentTriggers_result [OF assms(1)] by blast
  let ?es = "filter (\<lambda>t. \<not> is_disabled t) ts"
  have call: "findTriggerForPartialExecution workflow pins descriptions destination runData = Inr (pickTrigger pins runData ?es)"
    using False assms(2) ts(1) by (auto simp: findTriggerForPartialExecution_def)
  have candidates: "trigger_candidate workflow descriptions destination t \<longleftrightarrow> t \<in> set ?es" for t
  proof -
    have "name \<noteq> destination" if "getNode workflow name = Some t" "isTriggerNode (descriptions t)" "\<not> is_disabled t" for name
      using False assms(2) that by auto
    then show ?thesis
      unfolding trigger_candidate_def set_filter ts(2) set_parentNodes by blast
  qed
  show ?thesis
  proof (cases "pickTrigger pins runData ?es")
    case None
    with call candidates show ?thesis
      by (simp add: pickTrigger_None filter_empty_conv)
  next
    case (Some t)
    have "map_get runData (node_name t) \<noteq> None"
      if "u \<in> set ?es" "map_get runData (node_name u) \<noteq> None" for u
      using pickTrigger_run [OF Some that] .
    with call candidates Some pickTrigger_mem [OF Some] show ?thesis
      by auto
  qed
qed


section \<open>What a partial execution runs\<close>

lemma drop_names_runs: "own_or [] (drop_names D runData) n = (if n \<in> D then [] else own_or [] runData n)"
  by (induction runData) (auto simp: drop_names_def own_or_def)

lemma dropped_runs:
  assumes "dropped_from runData runData'"
  obtains D where "\<And>n. own_or [] runData' n = (if n \<in> D then [] else own_or [] runData n)"
  using assms drop_names_runs by (auto simp: dropped_from_def)

lemma startPartialE:
  assumes "startPartial localeCompare env runData pinData dirty trigger p = Inr (env', rs)"
  obtains h sub where "filterDisabledNodes (pi_graph p) = Inr h" and "findSubgraph h (pi_destination p) trigger = Inr sub"
    and "dropped_from runData (rs_runData rs)" and "\<And>k. k \<in> fst ` set (rs_runData rs) \<Longrightarrow> hasNode sub k"
    and "en_runNodeFilter env' = Some (map node_name (map_values (getNodes sub)))"
    and "rs_executionIndex rs = getNextExecutionIndex (rs_runData rs)"
proof -
  obtain h sub rd1 starts starts' rd2 st where steps: "filterDisabledNodes (pi_graph p) = Inr h"
    "findSubgraph h (pi_destination p) trigger = Inr sub"
    "cleanRunData runData sub (getNodesByNames sub dirty) = Inr rd1" "cleanRunData rd1 sub starts' = Inr rd2"
    and result: "env' = env\<lparr>en_runNodeFilter := Some (map node_name (map_values (getNodes sub))),
        en_destination := Some (pi_destinationName p), en_pinData := pinData\<rparr>"
      "rs = createRunExecutionData (pi_workflow p) st rd2 (getNextExecutionIndex rd2)"
    using assms unfolding startPartial_def rbind_eq_Inr by blast
  have "dropped_from runData rd2"
    using cleanRunData_dropped(1) [OF steps(3)] cleanRunData_dropped(1) [OF steps(4)] by (rule dropped_from_trans)
  with that [OF steps(1,2)] cleanRunData_dropped(2) [OF steps(4)] result show thesis
    by (simp add: createRunExecutionData_def)
qed

lemma hasNode_named: "wf_graph g \<Longrightarrow> hasNode g k \<longleftrightarrow> (\<exists>n\<in>node_set g. node_name n = k)"
  by (force simp: hasNode_def wf_graph_def node_set_def)

lemma subgraph_names:
  "wf_graph g \<Longrightarrow> set (map node_name (map_values (getNodes g))) = {k. hasNode g k}"
  by (auto simp: hasNode_named getNodes_def node_set_def)

text \<open>Nodes that were run, in this execution or in the one before, are nodes of the subgraph.\<close>

lemma runs_in_subgraph:
  assumes "startPartial localeCompare env runData pinData dirty trigger p = Inr (env', rs)"
    and "(loop_step env')\<^sup>*\<^sup>* (Looping rs) s" "ran (rs_runData (state_of s)) n \<noteq> []"
    and "filterDisabledNodes (pi_graph p) = Inr h" "findSubgraph h (pi_destination p) trigger = Inr sub" "wf_graph sub"
  shows "hasNode sub n"
proof (rule ccontr)
  assume "\<not> hasNode sub n"
  moreover have "en_runNodeFilter env' = Some (map node_name (map_values (getNodes sub)))"
    and "\<And>k. k \<in> fst ` set (rs_runData rs) \<Longrightarrow> hasNode sub k"
    using startPartialE [OF assms(1)] assms(4,5) by (metis sum.inject(2))+
  ultimately have "\<not> may_run env' n" "map_get (rs_runData rs) n = None"
    using subgraph_names [OF assms(6)] by (auto simp: may_run_def map_of_eq_None_iff simp del: set_map)
  with filtered.rel_reachable [OF assms(2)] have "ran (rs_runData (state_of s)) n = []"
    by (simp add: outside_kept_def ran_def own_or_def)
  with assms(3) show False ..
qed

lemma keys_unambiguous_fewer: "keys_unambiguous g \<Longrightarrow> node_set h \<subseteq> node_set g \<Longrightarrow> keys_unambiguous h"
  unfolding keys_unambiguous_def by (rule inj_on_subset) auto

text \<open>\<^bold>\<open>C5.\<close> Whatever its nodes do, a partial execution runs only enabled nodes from which a path
  leads to the destination, and the run data it keeps from before is about such nodes only.\<close>

theorem partial_execution_confined:
  assumes prepare: "preparePartial descriptions fresh workflow (dest_nodeName destinationNode) agentRequest = Inr p"
    and trigger: "findTrigger descriptions workflowPinData runData p = Inr trigger"
    and call: "runPartialWorkflow2 localeCompare descriptions fresh env workflow workflowPinData runData pinData dirty
      destinationNode agentRequest = Inr (env', rs)"
    and graph: "wf_graph (pi_graph p)" "keys_unambiguous (pi_graph p)"
      "\<And>n. is_disabled n \<Longrightarrow> (n, n) \<notin> (main_edges (pi_graph p) \<inter> Collect is_disabled \<times> Collect is_disabled)\<^sup>+"
    and ends: "{pi_destination p, trigger} \<subseteq> node_set (pi_graph p)" "\<not> is_disabled (pi_destination p)" "\<not> is_disabled trigger"
    and reach: "(loop_step env')\<^sup>*\<^sup>* (Looping rs) s" "ran (rs_runData (state_of s)) n \<noteq> []"
  shows "\<exists>node\<in>node_set (pi_graph p). node_name node = n \<and> \<not> is_disabled node \<and>
    (node, pi_destination p) \<in> (edges (pi_graph p))\<^sup>*"
proof -
  have start: "startPartial localeCompare env runData pinData dirty trigger p = Inr (env', rs)"
    using call by (simp add: runPartialWorkflow2_def prepare trigger)
  obtain h where h: "filterDisabledNodes (pi_graph p) = Inr h"
    "bypassed (pi_graph p) {n \<in> node_set (pi_graph p). is_disabled n} h"
    using filterDisabledNodes_bypassed [OF graph] .
  then have "wf_graph h" and nodes: "node_set h = {n \<in> node_set (pi_graph p). \<not> is_disabled n}"
    by (auto simp: bypassed_def)
  moreover have "keys_unambiguous h" "pi_destination p \<in> node_set h" "trigger \<in> node_set h"
    using ends graph(2) nodes by (auto intro: keys_unambiguous_fewer)
  ultimately obtain sub where sub: "findSubgraph h (pi_destination p) trigger = Inr sub" "part_of h sub"
    and up: "\<And>n. n \<in> node_set sub \<Longrightarrow> (n, pi_destination p) \<in> (edges h)\<^sup>*"
    by - (rule findSubgraph_found [of h "pi_destination p" trigger], assumption+, rule that)
  have "hasNode sub n"
    using runs_in_subgraph [OF start reach h(1) sub(1)] sub(2) by (simp add: part_of_def)
  then obtain node where "node \<in> node_set sub" "node_name node = n"
    using sub(2) by (auto simp: hasNode_named part_of_def)
  with sub(2) nodes up bypassed_paths [OF h(2)] show ?thesis
    by (intro bexI [of _ node]) (auto simp: part_of_def)
qed


section \<open>Execution indexes across executions\<close>

lemma next_index_above:
  assumes "task \<in> set (own_or [] runData n)" "task_executionIndex task = Some k"
  shows "k < getNextExecutionIndex runData"
proof -
  obtain tasks where "(n, tasks) \<in> set runData" "task \<in> set tasks"
    using assms(1) by (auto simp: own_or_def dest: map_of_SomeD [OF sym] split: option.splits)
  with assms(2) getNextExecutionIndex_fresh [of runData] show ?thesis
    by blast
qed

lemma partial_indexes_ok:
  assumes "startPartial localeCompare env (rs_runData before) pinData dirty trigger p = Inr (env', rs)" "indexes_ok before"
  shows "indexes_ok rs"
proof -
  have facts: "dropped_from (rs_runData before) (rs_runData rs)" "rs_executionIndex rs = getNextExecutionIndex (rs_runData rs)"
    using startPartialE [OF assms(1)] by blast+
  obtain D where runs: "\<And>n. runs_of rs n = (if n \<in> D then [] else runs_of before n)"
    unfolding runs_of_def using dropped_runs [OF facts(1)] by blast
  have same: "has_run rs n i k \<longleftrightarrow> n \<notin> D \<and> has_run before n i k" for n i k
    by (simp add: has_run_def runs)
  have below: "k < rs_executionIndex rs" if "has_run rs n i k" for n i k
    using that next_index_above [of "runs_of rs n ! i" "rs_runData rs" n k] by (simp add: facts(2) has_run_def runs_of_def)
  have "\<exists>k<rs_executionIndex rs. has_run rs n i k"
    if "i < length (runs_of rs n)" "task_executionStatus (runs_of rs n ! i) \<noteq> None" for n i
  proof -
    have "n \<notin> D" "i < length (runs_of before n)" "task_executionStatus (runs_of before n ! i) \<noteq> None"
      using that by (auto simp: runs split: if_splits)
    with assms(2) same have "\<exists>k. has_run rs n i k"
      by (fastforce simp: indexes_ok_def)
    with below show ?thesis by blast
  qed
  moreover have "n = m \<and> i = j" if "has_run rs n i k" "has_run rs m j k" for n i m j k
    using assms(2) that unfolding indexes_ok_def same by blast
  ultimately show ?thesis
    unfolding indexes_ok_def by blast
qed

text \<open>\<^bold>\<open>C8.\<close> The execution indexes of a partial execution go on from those of the execution whose run
  data it takes over: in every state that is reached, the runs kept from before and the new ones have
  different indexes, all below the next one.\<close>

theorem partial_execution_indexes:
  assumes "runPartialWorkflow2 localeCompare descriptions fresh env workflow workflowPinData (rs_runData before) pinData
      dirty destinationNode agentRequest = Inr (env', rs)"
    and "indexes_ok before" "(loop_step env')\<^sup>*\<^sup>* (Looping rs) s"
  shows "indexes_ok (state_of s)"
proof -
  have "\<exists>p trigger. startPartial localeCompare env (rs_runData before) pinData dirty trigger p = Inr (env', rs)"
    using assms(1) by (auto simp: runPartialWorkflow2_def rbind_eq_Inr)
  with assms(2) have "indexes_ok rs"
    using partial_indexes_ok by blast
  with indexed.inv_reachable [OF assms(3)] show ?thesis
    by simp
qed


section \<open>Complete executions\<close>

lemma firstTrigger_known: "firstTrigger workflow nodeTypes names = Inr (Some node) \<Longrightarrow> \<exists>name. getNode workflow name = Some node"
  by (induction names) (auto split: option.splits if_splits)

lemma firstStarting_known: "firstStarting workflow names = Inr (Some node) \<Longrightarrow> \<exists>name. getNode workflow name = Some node"
  by (induction names) (auto split: option.splits if_splits)

lemma onlyNode_known: "onlyNode workflow names = Some node \<Longrightarrow> \<exists>name. getNode workflow name = Some node"
  by (auto simp: onlyNode_def split: list.splits option.splits if_splits)

lemma getStartNode_of_known:
  "getStartNode_of workflow nodeTypes names = Inr (Some node) \<Longrightarrow> \<exists>name. getNode workflow name = Some node"
  by (auto simp: getStartNode_of_def rbind_eq_Inr split: option.splits
      dest!: firstTrigger_known firstStarting_known onlyNode_known)

lemma getStartNode_known:
  "getStartNode workflow nodeTypes dest = Inr (Some node) \<Longrightarrow> \<exists>name. getNode workflow name = Some node"
  by (auto simp: getStartNode_def Let_def rbind_eq_Inr split: option.splits dest!: getStartNode_of_known)

text \<open>The nodes an execution up to a destination may run.\<close>

definition up_to :: "Workflow \<Rightarrow> IDestinationNode \<Rightarrow> string set" where
  "up_to workflow d = {n. \<exists>f\<in>{OfType Main, AllNonMain}.
     n \<noteq> dest_nodeName d \<and> (dest_nodeName d, n) \<in> (conn_edges (connectionsByDestinationNode workflow) f)\<^sup>+} \<union>
     (if dest_mode d = Inclusive then {dest_nodeName d} else {})"

lemma set_runFilter:
  "set (runFilter workflow d additional) = up_to workflow d \<union> set (case additional of None \<Rightarrow> [] | Some names \<Rightarrow> names)"
  by (auto simp: runFilter_def parentNodes_of_def set_parents_of up_to_def)

lemma runE:
  assumes "run env index workflow options = Inr (env', rs)"
  obtains node where "opt_startNode options = Some node \<or>
      getStartNode workflow (en_nodeTypes env) (map_option dest_nodeName (opt_destinationNode options)) = Inr (Some node)"
    and "rs = createRunExecutionData workflow
      \<lparr>nodeExecutionStack = [startEntry node options], waitingExecution = [], waitingExecutionSource = []\<rparr> [] index"
    and "en_runNodeFilter env' = map_option (\<lambda>d. runFilter workflow d (opt_additionalRunFilterNodes options)) (opt_destinationNode options)"
proof -
  obtain node where start: "(case opt_startNode options of Some node \<Rightarrow> Inr (Some node)
      | None \<Rightarrow> getStartNode workflow (en_nodeTypes env) (map_option dest_nodeName (opt_destinationNode options))) = Inr (Some node)"
    using assms unfolding run_def rbind_eq_Inr by (auto split: option.splits)
  show thesis
  proof (rule that)
    show "opt_startNode options = Some node \<or>
        getStartNode workflow (en_nodeTypes env) (map_option dest_nodeName (opt_destinationNode options)) = Inr (Some node)"
      using start by (auto split: option.splits)
  qed (use assms in \<open>auto simp: run_def start Let_def\<close>)
qed



section \<open>The virtual executor\<close>

lemma rewireLog_name [simp]: "node_name (rewireLog ref node) = node_name node"
  by (simp add: rewireLog_def)

lemma rewireLog_key [simp]: "makeKey (rewireLog_connection ref c) = makeKey c"
  by (simp add: rewireLog_connection_def makeKey_def)

lemma rewireLog_exists: "node_exists g n \<Longrightarrow> node_exists (rewireLog_graph ref g) (rewireLog ref n)"
  by (simp add: node_exists_def rewireLog_graph_def map_of_map)

lemma rewireLog_keys:
  "map fst (nodes (rewireLog_graph ref g)) = map fst (nodes g)"
  "map fst (connections (rewireLog_graph ref g)) = map fst (connections g)"
  by (simp_all add: rewireLog_graph_def case_prod_beta)

lemma wf_rewireLog: "wf_graph g \<Longrightarrow> wf_graph (rewireLog_graph ref g)"
proof -
  assume wf: "wf_graph g"
  let ?h = "rewireLog_graph ref g"
  have "k = node_name n" if "(k, n) \<in> set (nodes ?h)" for k n
    using that wf by (auto simp: rewireLog_graph_def wf_graph_def)
  moreover have "k = makeKey c \<and> node_exists ?h (from_node c) \<and> node_exists ?h (to_node c)"
    if kc: "(k, c) \<in> set (connections ?h)" for k c
  proof -
    obtain d where d: "(k, d) \<in> set (connections g)" "c = rewireLog_connection ref d"
      using kc by (auto simp: rewireLog_graph_def)
    with wf have "k = makeKey d" "node_exists g (from_node d)" "node_exists g (to_node d)"
      by (auto simp: wf_graph_def)
    with d(2) show ?thesis
      by (simp add: rewireLog_exists) (simp add: rewireLog_connection_def rewireLog_exists)
  qed
  ultimately show ?thesis
    using wf unfolding wf_graph_def rewireLog_keys by blast
qed

lemma hasNode_keys: "hasNode g k \<longleftrightarrow> k \<in> set (map fst (nodes g))"
  by (auto simp: hasNode_def map_of_eq_None_iff)

lemma rewireLog_hasNode [simp]: "hasNode (rewireLog_graph ref g) k = hasNode g k"
  by (simp only: hasNode_keys rewireLog_keys)

lemma addConnection_result:
  assumes "node_exists g (ci_from ci)" "node_exists g (ci_to ci)" "wf_graph g"
  obtains h where "addConnection g ci = Inr h" "wf_graph h" "nodes h = nodes g"
  using assms by (simp add: addConnection_Inr wf_set_connection)

lemma node_exists_same_nodes: "nodes h = nodes g \<Longrightarrow> node_exists h = node_exists g"
  by (simp add: node_exists_def fun_eq_iff)

lemma addConnections_result:
  assumes "\<forall>x\<in>set xs. node_exists g (ci_from (ci x)) \<and> node_exists g (ci_to (ci x))" "wf_graph g"
  shows "\<exists>h. rfold (\<lambda>x h. addConnection h (ci x)) xs g = Inr h \<and> wf_graph h \<and> nodes h = nodes g"
proof (rule rfold_total)
  fix x u
  assume x: "x \<in> set xs" and u: "wf_graph u \<and> nodes u = nodes g"
  then have "node_exists u (ci_from (ci x))" "node_exists u (ci_to (ci x))"
    using assms(1) node_exists_same_nodes [of u g] by auto
  then show "\<exists>v. addConnection u (ci x) = Inr v \<and> wf_graph v \<and> nodes v = nodes g"
    using u by (metis addConnection_result)
qed (simp add: assms(2))

text \<open>Rewiring never throws on a well-formed graph, and its result is well formed: the last of the
  tool's children is gone, the executor is there, and the other nodes are the same.\<close>

lemma rewireGraph_wf:
  assumes wf: "wf_graph g" and tool: "tool \<in> node_set g" "fresh \<noteq> node_ref tool"
    and new: "\<not> hasNode g TOOL_EXECUTOR_NODE_NAME"
    and children: "getChildren g tool = Inr (cs @ [root])"
  shows "\<exists>h. rewireGraph fresh tool g request = Inr h \<and> wf_graph h \<and>
    {k. hasNode h k} = insert TOOL_EXECUTOR_NODE_NAME ({k. hasNode g k} - {node_name root})"
proof -
  let ?ex = "toolExecutorNode fresh tool root request" and ?f = "rewireLog (node_ref tool)"
  let ?g1 = "rewireLog_graph (node_ref tool) (addNode g ?ex)"
  let ?in = "filter (\<lambda>cn. gc_type cn = Main) (filter (\<lambda>c. to_node c = root) (map snd (connections g)))"
  have ex: "node_name ?ex = TOOL_EXECUTOR_NODE_NAME" "?f ?ex = ?ex"
    using tool(2) by (simp_all add: toolExecutorNode_def rewireLog_def)
  have root: "root \<in> node_set g"
    using getChildren_reach(1) [OF wf children] wf_edges [OF wf] by (auto dest: tranclD2)
  have keep: "node_exists (addNode g ?ex) n" if "n \<in> node_set g" for n
    using that new ex(1) hasNode_named [OF wf] by (auto simp: node_exists_addNode wf_node_exists [OF wf])
  have g1: "wf_graph ?g1" "node_exists ?g1 ?ex"
    using wf_rewireLog [OF wf_addNode [OF wf, of ?ex]] rewireLog_exists [of "addNode g ?ex" ?ex "node_ref tool"] ex new
    by (simp_all add: node_exists_addNode hasNode_keys map_of_eq_None_iff)
  have in1: "node_exists ?g1 (?f n)" if "n \<in> node_set g" for n
    using rewireLog_exists [OF keep [OF that]] .
  obtain g2 where g2: "addConnection ?g1 (to_executor (?f tool) ?ex AiTool) = Inr g2" "wf_graph g2" "nodes g2 = nodes ?g1"
    using addConnection_result [of ?g1 "to_executor (?f tool) ?ex AiTool"] g1 in1 [OF tool(1)] by (auto simp: to_executor_def)
  have "from_node cn \<in> node_set g" if "cn \<in> set ?in" for cn
    using that wf wf_conn_exists [OF wf, of cn] by (auto simp: conn_set_def wf_node_exists)
  then have "\<exists>g3. rfold (\<lambda>cn g. addConnection g (to_executor (?f (from_node cn)) ?ex (gc_type cn))) ?in g2 = Inr g3 \<and>
      wf_graph g3 \<and> nodes g3 = nodes g2"
    using g1(2) in1 g2(2,3) node_exists_same_nodes [OF g2(3)] by (intro addConnections_result) (auto simp: to_executor_def)
  then obtain g3 where g3: "rfold (\<lambda>cn g. addConnection g (to_executor (?f (from_node cn)) ?ex (gc_type cn))) ?in g2 = Inr g3"
    "wf_graph g3" "nodes g3 = nodes ?g1"
    using g2(3) by auto
  obtain h r where h: "removeNode g3 (?f root) False (\<lambda>c. False) = Inr (h, r)" "nodes h = map_delete (node_name root) (nodes g3)"
    by (simp add: removeNode_def Let_def)
  have "?f root \<in> node_set g3"
    using in1 [OF root] unfolding node_exists_same_nodes [OF g3(3), symmetric] wf_node_exists [OF g3(2)] .
  then have "wf_graph h"
    using h(1) by (rule wf_removeNode_plain [OF g3(2)])
  moreover have "{k. hasNode h k} = insert TOOL_EXECUTOR_NODE_NAME ({k. hasNode g k} - {node_name root})"
  proof -
    have "hasNode h k \<longleftrightarrow> k \<noteq> node_name root \<and> hasNode ?g1 k" for k
      unfolding hasNode_def h(2) g3(3) by simp
    moreover have "hasNode ?g1 k \<longleftrightarrow> k = TOOL_EXECUTOR_NODE_NAME \<or> hasNode g k" for k
      unfolding rewireLog_hasNode by (simp add: hasNode_def addNode_def ex(1))
    moreover have "node_name root \<noteq> TOOL_EXECUTOR_NODE_NAME"
      using new root hasNode_named [OF wf] by auto
    ultimately show ?thesis by auto
  qed
  moreover have "rewireGraph fresh tool g request = Inr h"
    using h(1) g3(1) g2(1) by (simp add: rewireGraph_def clone_id [OF wf] children wf_parent_connections [OF wf root] Let_def)
  ultimately show ?thesis by blast
qed

text \<open>The last child is a node behind the agent if the agent is not the last node of the workflow: the
  node behind it is replaced, and the agent stays, above the executor.\<close>

definition tool_graph :: "GraphConnection list \<Rightarrow> DirectedGraph" where
  "tool_graph cs = sample_graph [sample_node 0 ''trigger'', sample_node 1 ''agent'', sample_node 2 ''tool'', sample_node 3 ''next'']
     (cs @ [(sample_conn (sample_node 2 ''tool'') (sample_node 1 ''agent''))\<lparr>gc_type := AiTool\<rparr>])"

definition connections_named :: "DirectedGraph result \<Rightarrow> (string \<times> nat \<times> string) list" where
  "connections_named r = (case r of Inl e \<Rightarrow> [] | Inr g \<Rightarrow>
     map (\<lambda>c. (node_name (from_node c), outputIndex c, node_name (to_node c))) (map_values (connections g)))"

lemma rewireGraph_replaces_last_child:
  "connections_named (rewireGraph 9 (sample_node 2 ''tool'')
     (tool_graph [sample_conn (sample_node 0 ''trigger'') (sample_node 1 ''agent''),
        sample_conn (sample_node 1 ''agent'') (sample_node 3 ''next'')]) None) =
   [(''trigger'', 0, ''agent''), (''tool'', 0, ''agent''), (''tool'', 0, TOOL_EXECUTOR_NODE_NAME),
    (''agent'', 0, TOOL_EXECUTOR_NODE_NAME)]"
  by code_simp

text \<open>A connection from the second output of a node is moved to its first output.\<close>

lemma rewireGraph_moves_output:
  "connections_named (rewireGraph 9 (sample_node 2 ''tool'')
     (tool_graph [(sample_conn (sample_node 0 ''trigger'') (sample_node 1 ''agent''))\<lparr>outputIndex := 1\<rparr>]) None) =
   [(''tool'', 0, TOOL_EXECUTOR_NODE_NAME), (''trigger'', 0, TOOL_EXECUTOR_NODE_NAME)]"
  by code_simp

text \<open>A node with a main output and a tool output is a tool only if the outputs are given as objects or
  the tool output comes first.\<close>

lemma isTool_first_output:
  "isTool \<lparr>desc_name = ''n'', desc_group = [], desc_outputs = Some [OutputName ''main'', OutputName ''ai_tool'']\<rparr> [] = False"
  "isTool \<lparr>desc_name = ''n'', desc_group = [], desc_outputs = Some [OutputConfig ''main'', OutputConfig ''ai_tool'']\<rparr> [] = True"
  by code_simp+

section \<open>Roots with run data\<close>

lemma addRoot_fold:
  assumes "wf_graph g" "set ns \<subseteq> node_set g"
  shows "\<exists>rs. rfold (addRoot g) ns acc = Inr rs \<and>
    set rs = set acc \<union> {n \<in> set ns. \<not> (\<exists>c\<in>conn_set g. to_node c = n \<and> gc_type c = Main)}"
  using assms(2)
proof (induction ns arbitrary: acc)
  case (Cons n ns)
  have "addRoot g n acc = Inr (if \<exists>c\<in>conn_set g. to_node c = n \<and> gc_type c = Main then acc else set_add n acc)"
    using Cons.prems by (auto simp: addRoot_def isRoot_def wf_parent_connections [OF assms(1)] conn_set_def)
  with Cons show ?case
    by (fastforce split: if_splits)
qed simp

text \<open>The answer is that of its description: a node above the destination that no main connection
  enters has run data.\<close>

lemma anyReachableRootHasRunData_iff:
  assumes "wf_graph g" "destination \<in> node_set g"
  shows "anyReachableRootHasRunData g (node_name destination) runData = Inr
    (\<exists>n. (n, destination) \<in> (edges g)\<^sup>+ \<and> (\<nexists>m. (m, n) \<in> main_edges g) \<and> map_get runData (node_name n) \<noteq> None)"
proof -
  have get: "map_get (getNodes g) (node_name destination) = Some destination"
    using assms by (simp add: getNodes_def wf_node_exists [symmetric] node_exists_def)
  obtain cs where cs: "getParentConnections g destination = Inr cs"
    using getParentConnections_total [OF assms] by blast
  have "set (map from_node cs) = {n. (n, destination) \<in> (edges g)\<^sup>+}"
    using getParentConnections_reach(1) [OF assms(1) cs] by (force simp: edges_def tranclD dest: tranclD intro: rtrancl_into_trancl2)
  moreover from this have "set (map from_node cs) \<subseteq> node_set g"
    using wf_edges [OF assms(1)] by (auto dest: tranclD)
  ultimately obtain rs where "rfold (addRoot g) (set_of_array (map from_node cs)) [] = Inr rs"
    "set rs = {n. (n, destination) \<in> (edges g)\<^sup>+ \<and> \<not> (\<exists>c\<in>conn_set g. to_node c = n \<and> gc_type c = Main)}"
    using addRoot_fold [OF assms(1), of "set_of_array (map from_node cs)" "[]"] by auto
  moreover have "(\<exists>c\<in>conn_set g. to_node c = n \<and> gc_type c = Main) \<longleftrightarrow> (\<exists>m. (m, n) \<in> main_edges g)" for n
    by (auto simp: main_edges_def)
  ultimately show ?thesis
    by (auto simp: anyReachableRootHasRunData_def get cs)
qed


section \<open>A sample partial execution\<close>

text \<open>The workflow with a branch and a merge, run up to one of the branches after its trigger has run.\<close>

definition trigger_descriptions :: descriptions where
  "trigger_descriptions node =
     \<lparr>desc_name = node_type node, desc_group = (if node_name node = ''t'' then [''trigger''] else []),
      desc_outputs = Some [OutputName ''main'']\<rparr>"

definition up_to_a :: IDestinationNode where
  "up_to_a = \<lparr>dest_nodeName = ''a'', dest_mode = Inclusive\<rparr>"

definition trigger_ran :: run_state where
  "trigger_ran = (sample_state merge_workflow [])\<lparr>rs_runData := [(''t'', [sample_task [sample_item]])], rs_executionIndex := 1\<rparr>"

definition merge_graph :: DirectedGraph where
  "merge_graph = sample_graph [sample_node 0 ''t'', sample_node 1 ''a'', sample_node 2 ''b'', sample_node 3 ''m'']
     [sample_conn (sample_node 0 ''t'') (sample_node 1 ''a''), sample_conn (sample_node 0 ''t'') (sample_node 2 ''b''),
      sample_conn (sample_node 1 ''a'') (sample_node 3 ''m''),
      (sample_conn (sample_node 2 ''b'') (sample_node 3 ''m''))\<lparr>inputIndex := 1\<rparr>]"

definition partial_sample :: partial_input where
  "partial_sample = \<lparr>pi_workflow = merge_workflow, pi_graph = merge_graph, pi_destination = sample_node 1 ''a'',
     pi_destinationName = ''a''\<rparr>"

definition partial_run :: "(engine \<times> run_state) result" where
  "partial_run = runPartialWorkflow2 name_order trigger_descriptions 9 passing merge_workflow None (rs_runData trigger_ran) []
     [] up_to_a None"

definition started :: "(engine \<times> run_state) result \<Rightarrow> engine \<times> run_state" where
  "started r = (case r of Inl e \<Rightarrow> (passing, merge_start) | Inr x \<Rightarrow> x)"

definition after_steps :: "nat \<Rightarrow> (engine \<times> run_state) result \<Rightarrow> run_state" where
  "after_steps k r = state_of (iterate_loop k (fst (started r)) (Looping (snd (started r))))"

lemma started_result: "(case r of Inl e \<Rightarrow> False | Inr x \<Rightarrow> True) \<Longrightarrow> r = Inr (fst (started r), snd (started r))"
  by (cases r) (simp_all add: started_def)

lemma partial_run_started: "partial_run = Inr (fst (started partial_run), snd (started partial_run))"
proof (rule started_result)
  show "case partial_run of Inl e \<Rightarrow> False | Inr x \<Rightarrow> True"
    by code_simp
qed

lemma enabled_acyclic:
  assumes "wf_graph g" "\<forall>n\<in>node_set g. \<not> is_disabled n"
  shows "(n, n) \<notin> (main_edges g \<inter> Collect is_disabled \<times> Collect is_disabled)\<^sup>+"
  using assms wf_edges [OF assms(1)] main_edges_subset by (blast dest: tranclD)

theorem partial_execution_confined_witness:
  "ran (rs_runData (after_steps 2 partial_run)) ''a'' \<noteq> [] \<and>
   (\<exists>node\<in>node_set merge_graph. node_name node = ''a'' \<and> \<not> is_disabled node \<and>
      (node, sample_node 1 ''a'') \<in> (edges merge_graph)\<^sup>*)"
proof
  have ran: "ran (rs_runData (after_steps 2 partial_run)) ''a'' \<noteq> []"
    by code_simp
  have p: "preparePartial trigger_descriptions 9 merge_workflow (dest_nodeName up_to_a) None = Inr partial_sample"
    by code_simp
  have t: "findTrigger trigger_descriptions None (rs_runData trigger_ran) partial_sample = Inr (sample_node 0 ''t'')"
    by code_simp
  have wf: "wf_graph (pi_graph partial_sample)" and enabled: "\<forall>n\<in>node_set (pi_graph partial_sample). \<not> is_disabled n"
    and "\<forall>n\<in>node_set (pi_graph partial_sample). CHR ''-'' \<notin> set (node_name n)"
    by code_simp+
  then have keys: "keys_unambiguous (pi_graph partial_sample)"
    by (intro keys_unambiguous_dash_free)
  have ends: "{pi_destination partial_sample, sample_node 0 ''t''} \<subseteq> node_set (pi_graph partial_sample)"
    "\<not> is_disabled (pi_destination partial_sample)" "\<not> is_disabled (sample_node 0 ''t'')"
    by code_simp+
  have "\<exists>node\<in>node_set (pi_graph partial_sample). node_name node = ''a'' \<and> \<not> is_disabled node \<and>
      (node, pi_destination partial_sample) \<in> (edges (pi_graph partial_sample))\<^sup>*"
    using partial_execution_confined [OF p t partial_run_started [unfolded partial_run_def] wf keys
        enabled_acyclic [OF wf enabled] ends iterate_loop_reachable ran [unfolded after_steps_def partial_run_def]] .
  then show "\<exists>node\<in>node_set merge_graph. node_name node = ''a'' \<and> \<not> is_disabled node \<and>
      (node, sample_node 1 ''a'') \<in> (edges merge_graph)\<^sup>*"
    by (simp add: partial_sample_def)
  show "ran (rs_runData (after_steps 2 partial_run)) ''a'' \<noteq> []"
    by (rule ran)
qed

theorem partial_execution_indexes_witness:
  "indexes_ok (after_steps 2 partial_run) \<and> map (map task_executionIndex) (map snd (rs_runData (after_steps 2 partial_run))) = [[Some 0], [Some 1]]"
proof
  have "runs_of trigger_ran n = (if n = ''t'' then [sample_task [sample_item]] else [])" for n
    by (simp add: runs_of_def trigger_ran_def own_or_def)
  then have "indexes_ok trigger_ran"
    by (auto simp: indexes_ok_def has_run_def sample_task_def trigger_ran_def split: if_splits)
  with partial_execution_indexes [OF partial_run_started [unfolded partial_run_def] _ iterate_loop_reachable]
  show "indexes_ok (after_steps 2 partial_run)"
    by (simp add: after_steps_def partial_run_def)
  show "map (map task_executionIndex) (map snd (rs_runData (after_steps 2 partial_run))) = [[Some 0], [Some 1]]"
    by code_simp
qed

theorem findTriggerForPartialExecution_correct_witness:
  "\<exists>t. findTriggerForPartialExecution merge_workflow None trigger_descriptions ''m'' [] = Inr (Some t) \<and>
     trigger_candidate merge_workflow trigger_descriptions ''m'' t \<and> node_name t = ''t''"
proof -
  have known: "\<forall>name\<in>set (parentNodes_of merge_workflow ''m''). getNode merge_workflow name \<noteq> None"
    and m: "getNode merge_workflow ''m'' = Some (sample_node 3 ''m'')"
    and t: "findTriggerForPartialExecution merge_workflow None trigger_descriptions ''m'' [] = Inr (Some (sample_node 0 ''t''))"
    by code_simp+
  with findTriggerForPartialExecution_correct [OF known m, of None trigger_descriptions "[]"] show ?thesis
    by (intro exI [of _ "sample_node 0 ''t''"]) (simp add: sample_node_def)
qed

definition to_b :: RunWorkflowOptions where
  "to_b = \<lparr>opt_startNode = Some (sample_node 0 ''t''), opt_destinationNode = Some \<lparr>dest_nodeName = ''b'', dest_mode = Inclusive\<rparr>,
     opt_pinData = None, opt_triggerData = None, opt_additionalRunFilterNodes = None\<rparr>"


end
