(* ===== verification/Concurrency.thy ===== *)
theory Concurrency
  imports JS_Prelude
begin

text \<open>
  Concurrency control of executions in regular mode, \<^verbatim>\<open>packages/cli/src/concurrency\<close>:
  the queue (\<^verbatim>\<open>concurrency-queue.ts\<close>), the service that picks a queue by execution mode
  (\<^verbatim>\<open>concurrency-control.service.ts\<close>), the reservation an execution holds
  (\<^verbatim>\<open>concurrency-capacity-reservation.ts\<close>) and the resolution of the evaluation limit
  (\<^verbatim>\<open>evaluation.ee/evaluation-concurrency.helper.ts\<close>).

  A promise that \<open>enqueue\<close> returns is either resolved at once or held by the queue; resolving it
  is the event \<open>ExecutionReleased\<close>.  The process environment, the license and the database are
  arguments or outputs of the operations.  When the evaluation limit is rejected, the operation fails
  and the flag set before is not kept; with a valid configuration it is not rejected.
\<close>

section \<open>The queue\<close>

datatype queue_event =
    ConcurrencyCheck int
  | ExecutionThrottled string
  | ExecutionReleased string

record ConcurrencyQueue =
  capacity :: int
  queue :: "string list"

definition new_queue :: "int \<Rightarrow> ConcurrencyQueue" where
  "new_queue limit = \<lparr>capacity = limit, queue = []\<rparr>"

text \<open>The last component says whether the returned promise is already resolved.\<close>

definition enqueue :: "string \<Rightarrow> ConcurrencyQueue \<Rightarrow> ConcurrencyQueue \<times> queue_event list \<times> bool" where
  "enqueue executionId q =
     (let q1 = q\<lparr>capacity := capacity q - 1\<rparr>;
          check = ConcurrencyCheck (capacity q1)
      in if capacity q1 < 0
         then (q1\<lparr>queue := queue q1 @ [executionId]\<rparr>, [check, ExecutionThrottled executionId], False)
         else (q1, [check], True))"

definition resolveNext :: "ConcurrencyQueue \<Rightarrow> ConcurrencyQueue \<times> queue_event list" where
  "resolveNext q =
     (case queue q of
        [] \<Rightarrow> (q, [])
      | executionId # rest \<Rightarrow> (q\<lparr>queue := rest\<rparr>, [ExecutionReleased executionId]))"

definition dequeue :: "ConcurrencyQueue \<Rightarrow> ConcurrencyQueue \<times> queue_event list" where
  "dequeue q = resolveNext (q\<lparr>capacity := capacity q + 1\<rparr>)"

definition queue_remove :: "string \<Rightarrow> ConcurrencyQueue \<Rightarrow> ConcurrencyQueue \<times> queue_event list" where
  "queue_remove executionId q =
     (case findIndex (\<lambda>item. item = executionId) (queue q) of
        None \<Rightarrow> (q, [])
      | Some index \<Rightarrow>
          resolveNext (q\<lparr>queue := removeAt index (queue q), capacity := capacity q + 1\<rparr>))"

definition getAll :: "ConcurrencyQueue \<Rightarrow> string js_set" where
  "getAll q = set_of_array (queue q)"

definition queue_has :: "ConcurrencyQueue \<Rightarrow> string \<Rightarrow> bool" where
  "queue_has q executionId = (\<exists>item\<in>set (queue q). item = executionId)"

section \<open>Limits\<close>

record License =
  license_quota :: "int option"
  license_planName :: string

definition EVALUATION_TIER_DEFAULTS :: "(string, int) js_map" where
  "EVALUATION_TIER_DEFAULTS = [(''Community'', 1), (''Pro'', 1), (''Business'', 3), (''Enterprise'', 5)]"

definition readLicenseQuota :: "License \<Rightarrow> int option" where
  "readLicenseQuota license =
     (case license_quota license of
        None \<Rightarrow> None
      | Some raw \<Rightarrow> if raw = 0 then None else Some raw)"

definition resolveEvaluationConcurrencyLimit :: "bool \<Rightarrow> int \<Rightarrow> License \<Rightarrow> int" where
  "resolveEvaluationConcurrencyLimit env_is_set evaluationLimit license =
     (if env_is_set then evaluationLimit
      else case readLicenseQuota license of
             Some fromLicense \<Rightarrow> fromLicense
           | None \<Rightarrow>
               (case map_get EVALUATION_TIER_DEFAULTS (license_planName license) of
                  Some d \<Rightarrow> d
                | None \<Rightarrow> 1))"

datatype limit_source = SourceEnv | SourceLicense | SourceTier

definition getEvaluationConcurrencyLimitSource :: "bool \<Rightarrow> License \<Rightarrow> limit_source" where
  "getEvaluationConcurrencyLimitSource env_is_set license =
     (if env_is_set then SourceEnv
      else if readLicenseQuota license \<noteq> None then SourceLicense else SourceTier)"

definition normaliseLimit :: "int \<Rightarrow> int result" where
  "normaliseLimit limit =
     (if limit = 0 then Inl (AppError ''InvalidConcurrencyLimitError'')
      else Inr (if limit < - 1 then - 1 else limit))"

section \<open>The service\<close>

datatype WorkflowExecuteMode =
    ErrorMode | Integrated | Cli | Internal | Manual | Retry | Webhook | Trigger | Chat | Evaluation
  | Agent

datatype ConcurrencyQueueType = ProductionQueue | EvaluationQueue

record CapacityTarget =
  target_executionId :: string
  target_mode :: WorkflowExecuteMode

record ConcurrencyConfig =
  cfg_queueMode :: bool
  cfg_productionLimit :: int
  cfg_evaluationLimit :: int
  cfg_evaluationEnvSet :: bool
  cfg_cloud :: bool

record ConcurrencyControl =
  isEnabled :: bool
  limits :: "(ConcurrencyQueueType, int) js_map"
  queues :: "(ConcurrencyQueueType, ConcurrencyQueue) js_map option"
  evalQueueResolved :: bool

definition concurrencyControl_new :: "ConcurrencyConfig \<Rightarrow> ConcurrencyControl result" where
  "concurrencyControl_new cfg =
     rbind (normaliseLimit (cfg_productionLimit cfg)) (\<lambda>production.
     rbind (normaliseLimit (cfg_evaluationLimit cfg)) (\<lambda>evaluation.
       let lims = [(ProductionQueue, production), (EvaluationQueue, evaluation)]
       in if cfg_queueMode cfg then
            Inr \<lparr>isEnabled = False, limits = lims, queues = None, evalQueueResolved = False\<rparr>
          else
            let qs0 = [];
                qs1 = (if production > 0 then map_set ProductionQueue (new_queue production) qs0 else qs0);
                qs2 = (if evaluation > 0 then map_set EvaluationQueue (new_queue evaluation) qs1 else qs1)
            in Inr \<lparr>isEnabled = (length qs2 > 0), limits = lims, queues = Some qs2,
                    evalQueueResolved = (evaluation > 0)\<rparr>))"

definition ensureEvalQueueResolved ::
  "ConcurrencyConfig \<Rightarrow> License \<Rightarrow> ConcurrencyControl \<Rightarrow> ConcurrencyControl result" where
  "ensureEvalQueueResolved cfg license s =
     (if evalQueueResolved s then Inr s
      else
        let s1 = s\<lparr>evalQueueResolved := True\<rparr>
        in if cfg_queueMode cfg then Inr s1
           else
             rbind (normaliseLimit (resolveEvaluationConcurrencyLimit (cfg_evaluationEnvSet cfg)
                      (cfg_evaluationLimit cfg) license)) (\<lambda>normalised.
               let s2 = s1\<lparr>limits := map_set EvaluationQueue normalised (limits s1)\<rparr>
               in if normalised > 0 then
                    (case queues s2 of
                       None \<Rightarrow> Inl TypeError
                     | Some qs \<Rightarrow>
                         Inr (s2\<lparr>queues := Some (map_set EvaluationQueue (new_queue normalised) qs),
                                 isEnabled := True\<rparr>))
                  else Inr s2))"

definition queue_type_of :: "WorkflowExecuteMode \<Rightarrow> ConcurrencyQueueType option result" where
  "queue_type_of mode =
     (if mode \<in> {ErrorMode, Integrated, Cli, Internal, Manual, Retry} then Inr None
      else if mode \<in> {Webhook, Trigger, Chat} then Inr (Some ProductionQueue)
      else if mode = Evaluation then Inr (Some EvaluationQueue)
      else Inl (AppError ''UnknownExecutionModeError''))"

definition getQueue :: "WorkflowExecuteMode \<Rightarrow> ConcurrencyControl \<Rightarrow> ConcurrencyQueue option result" where
  "getQueue mode s =
     rbind (queue_type_of mode) (\<lambda>t.
       case t of
         None \<Rightarrow> Inr None
       | Some ty \<Rightarrow> (case queues s of None \<Rightarrow> Inl TypeError | Some qs \<Rightarrow> Inr (map_get qs ty)))"

definition isUnlimited :: "WorkflowExecuteMode \<Rightarrow> ConcurrencyControl \<Rightarrow> bool result" where
  "isUnlimited mode s = rbind (getQueue mode s) (\<lambda>q. Inr (q = None))"

text \<open>Storing the queue back: the code mutates the object the map holds.\<close>

definition set_queue :: "WorkflowExecuteMode \<Rightarrow> ConcurrencyQueue \<Rightarrow> ConcurrencyControl \<Rightarrow> ConcurrencyControl" where
  "set_queue mode q s =
     (case queue_type_of mode of
        Inr (Some ty) \<Rightarrow> s\<lparr>queues := map_option (map_set ty q) (queues s)\<rparr>
      | _ \<Rightarrow> s)"

text \<open>The common head of \<open>throttle\<close>, \<open>release\<close> and \<open>remove\<close>: resolve the evaluation queue, then
  hand the mode's queue to the operation unless control is disabled or the mode unlimited.\<close>

definition with_queue ::
  "ConcurrencyConfig \<Rightarrow> License \<Rightarrow> WorkflowExecuteMode \<Rightarrow> 'a
     \<Rightarrow> (ConcurrencyQueue \<Rightarrow> ConcurrencyQueue \<times> 'a) \<Rightarrow> ConcurrencyControl
     \<Rightarrow> (ConcurrencyControl \<times> 'a) result" where
  "with_queue cfg license mode skipped operation s =
     rbind (if mode = Evaluation then ensureEvalQueueResolved cfg license s else Inr s) (\<lambda>s1.
       if \<not> isEnabled s1 then Inr (s1, skipped)
       else rbind (isUnlimited mode s1) (\<lambda>unlimited.
         if unlimited then Inr (s1, skipped)
         else rbind (getQueue mode s1) (\<lambda>q.
           case q of
             None \<Rightarrow> Inr (s1, skipped)
           | Some q \<Rightarrow> (let (q1, r) = operation q in Inr (set_queue mode q1 s1, r)))))"

definition throttle ::
  "ConcurrencyConfig \<Rightarrow> License \<Rightarrow> CapacityTarget \<Rightarrow> ConcurrencyControl
     \<Rightarrow> (ConcurrencyControl \<times> queue_event list \<times> bool) result" where
  "throttle cfg license target s =
     with_queue cfg license (target_mode target) ([], True) (enqueue (target_executionId target)) s"

definition release ::
  "ConcurrencyConfig \<Rightarrow> License \<Rightarrow> WorkflowExecuteMode \<Rightarrow> ConcurrencyControl
     \<Rightarrow> (ConcurrencyControl \<times> queue_event list) result" where
  "release cfg license mode s = with_queue cfg license mode [] dequeue s"

definition remove ::
  "ConcurrencyConfig \<Rightarrow> License \<Rightarrow> CapacityTarget \<Rightarrow> ConcurrencyControl
     \<Rightarrow> (ConcurrencyControl \<times> queue_event list) result" where
  "remove cfg license target s =
     with_queue cfg license (target_mode target) [] (queue_remove (target_executionId target)) s"

definition control_has :: "ConcurrencyControl \<Rightarrow> string \<Rightarrow> bool result" where
  "control_has s executionId =
     (if \<not> isEnabled s then Inr False
      else case queues s of
             None \<Rightarrow> Inl TypeError
           | Some qs \<Rightarrow> Inr (\<exists>q\<in>set (map_values qs). queue_has q executionId))"

text \<open>The loop of \<open>removeAll\<close> over one queue, and the method; its second result is the list of
  executions cancelled in the database.\<close>

fun remove_each :: "string list \<Rightarrow> ConcurrencyQueue \<Rightarrow> ConcurrencyQueue \<times> queue_event list" where
  "remove_each [] q = (q, [])"
| "remove_each (executionId # rest) q =
     (let (q1, es) = queue_remove executionId q; (q2, fs) = remove_each rest q1 in (q2, es @ fs))"

definition empty_queue :: "ConcurrencyQueue \<Rightarrow> ConcurrencyQueue \<times> queue_event list" where
  "empty_queue q = remove_each (getAll q) q"

definition removeAll ::
  "string list \<Rightarrow> ConcurrencyControl \<Rightarrow> (ConcurrencyControl \<times> queue_event list \<times> string list) result" where
  "removeAll executionIdsToCancel s =
     (if \<not> isEnabled s then Inr (s, [], [])
      else case queues s of
             None \<Rightarrow> Inl TypeError
           | Some qs \<Rightarrow>
               let rs = map (\<lambda>(ty, q). (ty, empty_queue q)) qs
               in Inr (s\<lparr>queues := Some (map (\<lambda>(ty, q, es). (ty, q)) rs)\<rparr>,
                       concat (map (\<lambda>(ty, q, es). es) rs), executionIdsToCancel))"

definition disable :: "ConcurrencyControl \<Rightarrow> ConcurrencyControl" where
  "disable s = s\<lparr>isEnabled := False\<rparr>"

definition CLOUD_TEMP_PRODUCTION_LIMIT :: int where
  "CLOUD_TEMP_PRODUCTION_LIMIT = 999"

definition CLOUD_TEMP_REPORTABLE_THRESHOLDS :: "int list" where
  "CLOUD_TEMP_REPORTABLE_THRESHOLDS = [5, 10, 20, 50, 100, 200]"

definition shouldReport :: "ConcurrencyConfig \<Rightarrow> int \<Rightarrow> bool" where
  "shouldReport cfg cap =
     (cfg_cloud cfg \<and> cap \<in> set (map (\<lambda>t. CLOUD_TEMP_PRODUCTION_LIMIT - t) CLOUD_TEMP_REPORTABLE_THRESHOLDS))"

section \<open>Reservations\<close>

text \<open>\<open>reserve\<close> awaits the promise of \<open>throttle\<close> and records the reservation when it resolves:
  \<open>reserve_begin\<close> is the part before the \<open>await\<close>, \<open>reserve_end\<close> the part after it.\<close>

type_synonym reservation = "CapacityTarget option"

definition reserve_begin ::
  "ConcurrencyConfig \<Rightarrow> License \<Rightarrow> CapacityTarget \<Rightarrow> reservation \<Rightarrow> ConcurrencyControl
     \<Rightarrow> (ConcurrencyControl \<times> queue_event list \<times> bool) result" where
  "reserve_begin cfg license capacityFor r s =
     assert_ok (r = None) (throttle cfg license capacityFor s)"

definition reserve_end :: "CapacityTarget \<Rightarrow> reservation \<Rightarrow> reservation" where
  "reserve_end capacityFor r = Some capacityFor"

definition reservation_release ::
  "ConcurrencyConfig \<Rightarrow> License \<Rightarrow> reservation \<Rightarrow> ConcurrencyControl
     \<Rightarrow> (reservation \<times> ConcurrencyControl \<times> queue_event list) result" where
  "reservation_release cfg license r s =
     (case r of
        None \<Rightarrow> Inr (None, s, [])
      | Some t \<Rightarrow> rbind (release cfg license (target_mode t) s) (\<lambda>(s1, es). Inr (None, s1, es)))"

section \<open>The contract of an admission queue\<close>

text \<open>What a client relies on: admitting takes one unit of capacity and passes exactly when
  some was left, otherwise the caller waits; finishing gives one unit back and lets the
  first waiting caller through.\<close>

locale admission_queue =
  fixes admit :: "'id \<Rightarrow> 'q \<Rightarrow> 'q \<times> bool"
    and finish :: "'q \<Rightarrow> 'q \<times> 'id list"
    and free :: "'q \<Rightarrow> int"
    and waiting :: "'q \<Rightarrow> 'id list"
  assumes admit_free: "free (fst (admit i q)) = free q - 1"
    and admit_passes: "snd (admit i q) \<longleftrightarrow> free q > 0"
    and admit_waiting: "waiting (fst (admit i q)) = (if free q > 0 then waiting q else waiting q @ [i])"
    and finish_free: "free (fst (finish q)) = free q + 1"
    and finish_releases: "snd (finish q) @ waiting (fst (finish q)) = waiting q"
    and finish_one: "length (snd (finish q)) = (if waiting q = [] then 0 else 1)"
begin

text \<open>With \<open>r\<close> callers inside and limit \<open>L\<close>: the units add up, at most \<open>L\<close> are inside, and
  nobody waits while a unit is free.\<close>

definition balanced :: "int \<Rightarrow> 'q \<Rightarrow> nat \<Rightarrow> bool" where
  "balanced L q r \<longleftrightarrow> free q = L - int r - int (length (waiting q)) \<and> int r \<le> L
     \<and> (waiting q \<noteq> [] \<longrightarrow> int r = L)"

lemma balanced_admit:
  assumes "balanced L q r"
  shows "balanced L (fst (admit i q)) (if snd (admit i q) then Suc r else r)"
proof (cases "free q > 0")
  case True
  with assms have "waiting q = []" by (auto simp: balanced_def)
  with assms True show ?thesis by (auto simp: balanced_def admit_free admit_passes admit_waiting)
next
  case False
  with assms show ?thesis by (auto simp: balanced_def admit_free admit_passes admit_waiting)
qed

lemma balanced_finish:
  assumes "balanced L q (Suc r)"
  shows "balanced L (fst (finish q)) (r + length (snd (finish q)))"
proof (cases "waiting q")
  case Nil
  with assms finish_releases[of q] finish_one[of q] show ?thesis
    by (auto simp: balanced_def finish_free)
next
  case (Cons w ws)
  with finish_one[of q] finish_releases[of q] have "length (waiting (fst (finish q))) = length ws"
    by (metis length_0_conv length_Suc_conv length_append add_left_cancel list.simps(3) One_nat_def plus_1_eq_Suc length_Cons)
  with Cons assms finish_one[of q] show ?thesis
    by (auto simp: balanced_def finish_free)
qed

text \<open>Callers enter in the order they asked: \<open>entered @ waiting\<close> is that order.\<close>

lemma order_admit:
  assumes "balanced L q r"
  shows "(if snd (admit i q) then entered @ [i] else entered) @ waiting (fst (admit i q))
    = (entered @ waiting q) @ [i]"
proof (cases "free q > 0")
  case True
  with assms have "waiting q = []" by (auto simp: balanced_def)
  with True show ?thesis by (simp add: admit_passes admit_waiting)
next
  case False
  then show ?thesis by (simp add: admit_passes admit_waiting)
qed

lemma order_finish: "(entered @ snd (finish q)) @ waiting (fst (finish q)) = entered @ waiting q"
  using finish_releases[of q] by simp

end

definition released :: "queue_event list \<Rightarrow> string list" where
  "released es = concat (map (\<lambda>e. case e of ExecutionReleased i \<Rightarrow> [i] | _ \<Rightarrow> []) es)"

interpretation admission: admission_queue
  "\<lambda>i q. (fst (enqueue i q), snd (snd (enqueue i q)))"
  "\<lambda>q. (fst (dequeue q), released (snd (dequeue q)))" capacity queue
  by unfold_locales
    (auto simp: enqueue_def dequeue_def resolveNext_def released_def Let_def split: list.splits)

section \<open>Executions over time\<close>

text \<open>An execution asks for capacity, ends, or is stopped while it waits
  (\<open>ExecutionService.stopInRegularMode\<close> calls \<open>remove\<close> only for a queued execution).
  \<open>rt_entered\<close> records the executions let through, in order.\<close>

datatype action = Start string | Finish string | Cancel string

record runtime =
  rt_queue :: ConcurrencyQueue
  rt_running :: "string list"
  rt_entered :: "string list"

inductive run_step :: "runtime \<Rightarrow> action \<Rightarrow> runtime \<Rightarrow> bool" where
  start: "enqueue i (rt_queue s) = (q, es, passed) \<Longrightarrow>
    run_step s (Start i) \<lparr>rt_queue = q,
      rt_running = (if passed then i # rt_running s else rt_running s),
      rt_entered = (if passed then rt_entered s @ [i] else rt_entered s)\<rparr>"
| finish: "i \<in> set (rt_running s) \<Longrightarrow> dequeue (rt_queue s) = (q, es) \<Longrightarrow>
    run_step s (Finish i) \<lparr>rt_queue = q,
      rt_running = released es @ remove1 i (rt_running s), rt_entered = rt_entered s @ released es\<rparr>"
| cancel: "queue_has (rt_queue s) i \<Longrightarrow> queue_remove i (rt_queue s) = (q, es) \<Longrightarrow>
    run_step s (Cancel i) \<lparr>rt_queue = q,
      rt_running = released es @ rt_running s, rt_entered = rt_entered s @ released es\<rparr>"

inductive_cases run_step_startE: "run_step s (Start i) t"
inductive_cases run_step_finishE: "run_step s (Finish i) t"
inductive_cases run_step_cancelE: "run_step s (Cancel i) t"

inductive runs :: "runtime \<Rightarrow> action list \<Rightarrow> runtime \<Rightarrow> bool" where
  runs_nil: "runs s [] s"
| runs_snoc: "runs s as t \<Longrightarrow> run_step t a u \<Longrightarrow> runs s (as @ [a]) u"

inductive_simps runs_nil_simps [simp]: "runs s [] t"

definition initial :: "int \<Rightarrow> runtime" where
  "initial limit = \<lparr>rt_queue = new_queue limit, rt_running = [], rt_entered = []\<rparr>"

fun started :: "action list \<Rightarrow> string list" where
  "started [] = []"
| "started (Start i # as) = i # started as"
| "started (_ # as) = started as"

lemma started_append [simp]: "started (as @ bs) = started as @ started bs"
  by (induction as rule: started.induct) auto

definition cancels :: "action list \<Rightarrow> nat" where
  "cancels as = length (filter (\<lambda>a. \<exists>i. a = Cancel i) as)"

lemma step_without_cancel:
  assumes "run_step s a t" and "\<nexists>i. a = Cancel i"
    and "admission.balanced L (rt_queue s) (length (rt_running s))"
    and "xs = rt_entered s @ queue (rt_queue s)"
  shows "admission.balanced L (rt_queue t) (length (rt_running t))
    \<and> xs @ started [a] = rt_entered t @ queue (rt_queue t)"
  using assms(1)
proof cases
  case (start i q es passed)
  from start(3) have e: "fst (enqueue i (rt_queue s)) = q" "snd (snd (enqueue i (rt_queue s))) = passed" by simp_all
  from admission.balanced_admit[OF assms(3), of i] admission.order_admit[OF assms(3), of i "rt_entered s"]
    start assms(4) e show ?thesis by (auto split: if_splits)
next
  case (finish i q es)
  then obtain r where r: "length (rt_running s) = Suc r" "length (remove1 i (rt_running s)) = r"
    by (metis Suc_pred length_pos_if_in_set length_remove1 One_nat_def)
  from finish(4) have e: "fst (dequeue (rt_queue s)) = q" "snd (dequeue (rt_queue s)) = es" by simp_all
  from admission.balanced_finish[of L "rt_queue s" r] assms(3) r
    admission.order_finish[of "rt_entered s" "rt_queue s"] finish assms(4) e show ?thesis
    by (auto simp: add.commute)
next
  case (cancel i q es)
  with assms(2) show ?thesis by simp
qed

lemma runs_without_cancel:
  assumes "runs s as t" and "s = initial L" and "0 \<le> L" and "\<forall>i. Cancel i \<notin> set as"
  shows "admission.balanced L (rt_queue t) (length (rt_running t))
    \<and> started as = rt_entered t @ queue (rt_queue t)"
  using assms
proof (induction rule: runs.induct)
  case (runs_nil s)
  then show ?case by (simp add: initial_def new_queue_def admission.balanced_def)
next
  case (runs_snoc s as t a u)
  then have "admission.balanced L (rt_queue t) (length (rt_running t))"
    and "started as = rt_entered t @ queue (rt_queue t)" by auto
  from step_without_cancel[OF runs_snoc.hyps(2) _ this] runs_snoc.prems show ?case by auto
qed

text \<open>\<^bold>\<open>C17.\<close> As long as no queued execution is stopped, the limit holds at every moment: at most
  \<open>limit\<close> executions run, an execution waits only while exactly \<open>limit\<close> run, the stored
  capacity is the limit minus the running and the waiting ones, and executions are let through
  in the order they asked.\<close>

theorem concurrency_limit_respected:
  assumes "0 < limit" and "runs (initial limit) actions st" and "\<forall>i. Cancel i \<notin> set actions"
  shows "int (length (rt_running st)) \<le> limit
    \<and> (queue (rt_queue st) \<noteq> [] \<longrightarrow> int (length (rt_running st)) = limit)
    \<and> capacity (rt_queue st) = limit - int (length (rt_running st)) - int (length (queue (rt_queue st)))
    \<and> started actions = rt_entered st @ queue (rt_queue st)"
  using runs_without_cancel[OF assms(2) refl _ assms(3)] assms(1) by (simp add: admission.balanced_def)

text \<open>The steps as a function, for concrete runs.\<close>

definition do_action :: "action \<Rightarrow> runtime \<Rightarrow> runtime" where
  "do_action a s =
     (case a of
        Start i \<Rightarrow>
          (let (q, es, passed) = enqueue i (rt_queue s)
           in \<lparr>rt_queue = q, rt_running = (if passed then i # rt_running s else rt_running s),
               rt_entered = (if passed then rt_entered s @ [i] else rt_entered s)\<rparr>)
      | Finish i \<Rightarrow>
          (if i \<in> set (rt_running s) then
             (let (q, es) = dequeue (rt_queue s)
              in \<lparr>rt_queue = q, rt_running = released es @ remove1 i (rt_running s),
                  rt_entered = rt_entered s @ released es\<rparr>)
           else s)
      | Cancel i \<Rightarrow>
          (if queue_has (rt_queue s) i then
             (let (q, es) = queue_remove i (rt_queue s)
              in \<lparr>rt_queue = q, rt_running = released es @ rt_running s,
                  rt_entered = rt_entered s @ released es\<rparr>)
           else s))"

definition enabled :: "action \<Rightarrow> runtime \<Rightarrow> bool" where
  "enabled a s = (case a of Start i \<Rightarrow> True | Finish i \<Rightarrow> i \<in> set (rt_running s) | Cancel i \<Rightarrow> queue_has (rt_queue s) i)"

lemma do_action_step: "enabled a s \<Longrightarrow> run_step s a (do_action a s)"
proof (cases a)
  case (Start i)
  then show ?thesis
    by (cases "enqueue i (rt_queue s)") (simp add: do_action_def run_step.start)
qed (auto simp: enabled_def do_action_def intro!: run_step.intros split: prod.splits)

fun all_enabled :: "action list \<Rightarrow> runtime \<Rightarrow> bool" where
  "all_enabled [] s = True"
| "all_enabled (a # as) s = (enabled a s \<and> all_enabled as (do_action a s))"

lemma runs_Cons: "runs t as u \<Longrightarrow> run_step s a t \<Longrightarrow> runs s (a # as) u"
proof (induction rule: runs.induct)
  case (runs_nil t)
  from runs.intros(2)[OF runs.intros(1) runs_nil] show ?case by simp
next
  case (runs_snoc t as v b u)
  from runs.intros(2)[OF runs_snoc.IH[OF runs_snoc.prems] runs_snoc.hyps(2)] show ?case by simp
qed

lemma runs_fold: "all_enabled as s \<Longrightarrow> runs s as (fold do_action as s)"
  by (induction as arbitrary: s) (auto intro: runs_Cons do_action_step)

definition two_through :: "action list" where
  "two_through = [Start ''a'', Start ''b'', Start ''c'', Finish ''a'']"

theorem concurrency_limit_respected_witness:
  "0 < (1::int) \<and> (\<forall>i. Cancel i \<notin> set two_through)
   \<and> (\<exists>st. runs (initial 1) two_through st \<and> rt_entered st = [''a'', ''b''] \<and> rt_running st = [''b'']
        \<and> started two_through = rt_entered st @ queue (rt_queue st))"
proof -
  let ?st = "fold do_action two_through (initial 1)"
  have "all_enabled two_through (initial 1)" by code_simp
  then have r: "runs (initial 1) two_through ?st" by (rule runs_fold)
  have n: "\<forall>i. Cancel i \<notin> set two_through" by (simp add: two_through_def)
  have "rt_entered ?st = [''a'', ''b''] \<and> rt_running ?st = [''b'']" by code_simp
  with r n concurrency_limit_respected[OF _ r n] show ?thesis by auto
qed

definition stop_one_queued :: "action list" where
  "stop_one_queued = [Start ''a'', Start ''b'', Start ''c'', Cancel ''b'']"

text \<open>Stopping a queued execution lets another one through although no capacity was
  freed: with limit 1, after \<open>a\<close> started and \<open>b\<close> and \<open>c\<close> queued behind it, stopping \<open>b\<close>
  starts \<open>c\<close> while \<open>a\<close> still runs, so two executions run.\<close>

theorem remove_exceeds_limit:
  "\<exists>st. runs (initial 1) stop_one_queued st \<and> rt_running st = [''c'', ''a''] \<and> capacity (rt_queue st) = - 1"
proof -
  let ?st = "fold do_action stop_one_queued (initial 1)"
  have "all_enabled stop_one_queued (initial 1)" by code_simp
  then have "runs (initial 1) stop_one_queued ?st" by (rule runs_fold)
  moreover have "rt_running ?st = [''c'', ''a''] \<and> capacity (rt_queue ?st) = - 1" by code_simp
  ultimately show ?thesis by blast
qed

lemma queue_remove_effect:
  assumes "queue_remove i q = (q', es)" and "queue_has q i"
  shows "capacity q' = capacity q + 1" and "length (released es) \<le> 1"
    and "Suc (length (released es) + length (queue q')) = length (queue q)"
proof -
  from assms(2) obtain k where k: "findIndex (\<lambda>item. item = i) (queue q) = Some k" "k < length (queue q)"
    using findIndex_Some[of "\<lambda>item. item = i" "queue q"]
    by (cases "findIndex (\<lambda>item. item = i) (queue q)") (auto simp: queue_has_def findIndex_None)
  then have "Suc (length (removeAt k (queue q))) = length (queue q)" by simp
  with assms(1) k show "capacity q' = capacity q + 1" and "length (released es) \<le> 1"
    and "Suc (length (released es) + length (queue q')) = length (queue q)"
    by (auto simp: queue_remove_def resolveNext_def released_def simp del: length_removeAt
        split: list.splits)
qed

definition accounted :: "int \<Rightarrow> nat \<Rightarrow> runtime \<Rightarrow> bool" where
  "accounted L n s \<longleftrightarrow>
     capacity (rt_queue s) = L - int (length (rt_running s)) - int (length (queue (rt_queue s)))
     \<and> int (length (rt_running s)) \<le> L + int n"

lemma accounted_step:
  assumes "accounted L n s" and "run_step s a t"
  shows "accounted L (n + cancels [a]) t"
  using assms(2)
proof cases
  case (start i q es passed)
  with assms(1) show ?thesis
    by (auto simp: accounted_def enqueue_def Let_def cancels_def split: if_splits)
next
  case (finish i q es)
  then have "length (rt_running s) = Suc (length (remove1 i (rt_running s)))"
    by (metis Suc_pred length_pos_if_in_set length_remove1 One_nat_def)
  with finish assms(1) show ?thesis
    by (auto simp: accounted_def dequeue_def resolveNext_def released_def cancels_def split: list.splits)
next
  case (cancel i q es)
  from queue_remove_effect[OF cancel(4,3)] cancel assms(1) show ?thesis
    by (auto simp: accounted_def cancels_def)
qed

lemma runs_accounted: "runs s as t \<Longrightarrow> accounted L n s \<Longrightarrow> accounted L (n + cancels as) t"
proof (induction rule: runs.induct)
  case (runs_nil s)
  then show ?case by (simp add: cancels_def)
next
  case (runs_snoc s as t a u)
  from accounted_step[OF runs_snoc.IH[OF runs_snoc.prems] runs_snoc.hyps(2)] show ?case
    by (simp add: cancels_def add.assoc)
qed

text \<open>With stops of queued executions the stored capacity still is the limit minus the
  running and the waiting executions, and every stop lets at most one execution run beyond the
  limit.\<close>

theorem concurrency_accounting:
  assumes "0 < limit" and "runs (initial limit) actions st"
  shows "capacity (rt_queue st) = limit - int (length (rt_running st)) - int (length (queue (rt_queue st)))
    \<and> int (length (rt_running st)) \<le> limit + int (cancels actions)"
proof -
  have "accounted limit 0 (initial limit)" using assms(1) by (simp add: accounted_def initial_def new_queue_def)
  from runs_accounted[OF assms(2) this] show ?thesis by (simp add: accounted_def)
qed

theorem concurrency_accounting_witness:
  "0 < (1::int) \<and> (\<exists>st. runs (initial 1) stop_one_queued st
     \<and> int (length (rt_running st)) \<le> 1 + int (cancels stop_one_queued))"
proof -
  have "all_enabled stop_one_queued (initial 1)" by code_simp
  then have r: "runs (initial 1) stop_one_queued (fold do_action stop_one_queued (initial 1))" by (rule runs_fold)
  with concurrency_accounting[OF _ r] show ?thesis by auto
qed

section \<open>Emptying a queue\<close>

fun every_second :: "'a list \<Rightarrow> 'a list" where
  "every_second [] = []"
| "every_second [x] = []"
| "every_second (x # y # xs) = y # every_second xs"

lemma remove_head:
  "queue_remove x \<lparr>capacity = c, queue = x # y # xs\<rparr> = (\<lparr>capacity = c + 1, queue = xs\<rparr>, [ExecutionReleased y])"
  "queue_remove x \<lparr>capacity = c, queue = [x]\<rparr> = (\<lparr>capacity = c + 1, queue = []\<rparr>, [])"
  by (simp_all add: queue_remove_def resolveNext_def)

lemma remove_absent: "x \<notin> set (queue q) \<Longrightarrow> queue_remove x q = (q, [])"
  by (auto simp: queue_remove_def findIndex_None split: option.splits dest: findIndex_Some)

lemma remove_each_queue:
  "distinct xs \<Longrightarrow> remove_each xs \<lparr>capacity = c, queue = xs\<rparr>
     = (\<lparr>capacity = c + int ((length xs + 1) div 2), queue = []\<rparr>, map ExecutionReleased (every_second xs))"
proof (induction xs arbitrary: c rule: every_second.induct)
  case 1
  then show ?case by simp
next
  case (2 x)
  then show ?case by (simp add: remove_head)
next
  case (3 x y xs)
  then have "queue_remove y \<lparr>capacity = c + 1, queue = xs\<rparr> = (\<lparr>capacity = c + 1, queue = xs\<rparr>, [])"
    by (intro remove_absent) simp
  with 3 show ?case by (simp add: remove_head Let_def)
qed

lemma set_of_array_distinct: "distinct xs \<Longrightarrow> set_of_array xs = xs"
proof -
  have "distinct (acc @ xs) \<Longrightarrow> fold set_add xs acc = acc @ xs" for acc
    by (induction xs arbitrary: acc) (auto simp: set_add_def)
  from this[of "[]"] show "distinct xs \<Longrightarrow> set_of_array xs = xs" by (simp add: set_of_array_def)
qed

text \<open>\<open>removeAll\<close> empties a queue, but removing an execution lets the next one through: of
  \<open>n\<close> queued executions every second one is started rather than removed, and only half of the
  capacity, rounded up, comes back.\<close>

theorem removeAll_starts_every_second:
  assumes "distinct (queue q)"
  shows "empty_queue q = (q\<lparr>capacity := capacity q + int ((length (queue q) + 1) div 2), queue := []\<rparr>,
    map ExecutionReleased (every_second (queue q)))"
proof -
  obtain c xs where q: "q = \<lparr>capacity = c, queue = xs\<rparr>" by (cases q)
  with assms show ?thesis by (simp add: empty_queue_def getAll_def set_of_array_distinct remove_each_queue)
qed

theorem removeAll_starts_every_second_witness:
  "distinct [''a'', ''b'', ''c'']
   \<and> empty_queue \<lparr>capacity = - 3, queue = [''a'', ''b'', ''c'']\<rparr> = (\<lparr>capacity = - 1, queue = []\<rparr>, [ExecutionReleased ''b''])"
  using removeAll_starts_every_second[of "\<lparr>capacity = - 3, queue = [''a'', ''b'', ''c'']\<rparr>"] by simp

section \<open>The service never reads an undefined queue map\<close>

definition control_ok :: "ConcurrencyConfig \<Rightarrow> ConcurrencyControl \<Rightarrow> bool" where
  "control_ok cfg s \<longleftrightarrow> (if cfg_queueMode cfg then queues s = None \<and> \<not> isEnabled s else queues s \<noteq> None)
     \<and> (cfg_evaluationLimit cfg \<noteq> 0)"

lemma control_ok_new: "concurrencyControl_new cfg = Inr s \<Longrightarrow> control_ok cfg s"
  by (auto simp: concurrencyControl_new_def rbind_eq_Inr normaliseLimit_def control_ok_def Let_def
      split: if_splits)

lemma resolved_limit_nonzero:
  "cfg_evaluationLimit cfg \<noteq> 0 \<Longrightarrow>
     resolveEvaluationConcurrencyLimit (cfg_evaluationEnvSet cfg) (cfg_evaluationLimit cfg) license \<noteq> 0"
  by (auto simp: resolveEvaluationConcurrencyLimit_def readLicenseQuota_def EVALUATION_TIER_DEFAULTS_def
      split: option.splits if_splits)

lemma ensure_ok:
  assumes "control_ok cfg s"
  shows "\<exists>s1. ensureEvalQueueResolved cfg license s = Inr s1 \<and> control_ok cfg s1"
proof -
  have "cfg_evaluationLimit cfg \<noteq> 0" using assms by (simp add: control_ok_def)
  from resolved_limit_nonzero[OF this, of license] assms show ?thesis
    by (auto simp: ensureEvalQueueResolved_def normaliseLimit_def control_ok_def Let_def split: if_splits)
qed

lemma control_ok_set_queue [simp]: "control_ok cfg (set_queue mode q s) = control_ok cfg s"
  by (auto simp: control_ok_def set_queue_def split: sum.splits option.splits)

lemma with_queue_ok:
  assumes "control_ok cfg s" and "mode \<noteq> Agent"
  shows "\<exists>s' r. with_queue cfg license mode skipped operation s = Inr (s', r) \<and> control_ok cfg s'"
proof -
  obtain s1 where s1: "(if mode = Evaluation then ensureEvalQueueResolved cfg license s else Inr s) = Inr s1"
    and ok: "control_ok cfg s1"
    using ensure_ok[OF assms(1)] assms(1) by (cases "mode = Evaluation") auto
  have t: "\<exists>t. queue_type_of mode = Inr t" using assms(2) by (cases mode) (auto simp: queue_type_of_def)
  show ?thesis
  proof (cases "isEnabled s1")
    case True
    with ok have "queues s1 \<noteq> None" by (auto simp: control_ok_def split: if_splits)
    with t have "\<exists>q. getQueue mode s1 = Inr q" by (auto simp: getQueue_def split: option.splits)
    then obtain q where "getQueue mode s1 = Inr q" by blast
    with True s1 ok show ?thesis
      by (cases q) (auto simp: with_queue_def isUnlimited_def split: prod.splits)
  next
    case False
    with s1 ok show ?thesis by (simp add: with_queue_def)
  qed
qed

text \<open>\<^bold>\<open>C25.\<close> The constructor establishes the invariant of the service, and from a state that has it
  \<open>throttle\<close>, \<open>release\<close> and \<open>remove\<close> return for every mode but \<open>agent\<close> and keep it: neither the undefined
  queue map of queue mode nor a zero evaluation limit is ever hit.  Manual, retried, internal,
  integrated, error and command-line executions are let through without touching the state.\<close>

theorem concurrency_control_total:
  assumes "control_ok cfg s" and "target_mode target \<noteq> Agent"
  shows "(\<forall>s0. concurrencyControl_new cfg = Inr s0 \<longrightarrow> control_ok cfg s0)
    \<and> (\<exists>s' r. throttle cfg license target s = Inr (s', r) \<and> control_ok cfg s')
    \<and> (\<exists>s' r. release cfg license (target_mode target) s = Inr (s', r) \<and> control_ok cfg s')
    \<and> (\<exists>s' r. remove cfg license target s = Inr (s', r) \<and> control_ok cfg s')
    \<and> (target_mode target \<in> {ErrorMode, Integrated, Cli, Internal, Manual, Retry} \<longrightarrow>
         throttle cfg license target s = Inr (s, [], True))"
proof -
  have "throttle cfg license target s = Inr (s, [], True)"
    if "target_mode target \<in> {ErrorMode, Integrated, Cli, Internal, Manual, Retry}"
    using that by (auto simp: throttle_def with_queue_def isUnlimited_def getQueue_def queue_type_of_def)
  with with_queue_ok[OF assms, of license "([], True)" "enqueue (target_executionId target)"]
    with_queue_ok[OF assms, of license "[]" dequeue]
    with_queue_ok[OF assms, of license "[]" "queue_remove (target_executionId target)"]
    control_ok_new[of cfg]
  show ?thesis unfolding throttle_def release_def remove_def by blast
qed

definition regular_config :: ConcurrencyConfig where
  "regular_config = \<lparr>cfg_queueMode = False, cfg_productionLimit = 2, cfg_evaluationLimit = - 1,
     cfg_evaluationEnvSet = False, cfg_cloud = False\<rparr>"

definition business_license :: License where
  "business_license = \<lparr>license_quota = None, license_planName = ''Business''\<rparr>"

definition regular_control :: ConcurrencyControl where
  "regular_control = \<lparr>isEnabled = True, limits = [(ProductionQueue, 2), (EvaluationQueue, - 1)],
     queues = Some [(ProductionQueue, new_queue 2)], evalQueueResolved = False\<rparr>"

lemma regular_control_new: "concurrencyControl_new regular_config = Inr regular_control"
  by code_simp

theorem concurrency_control_total_witness:
  "control_ok regular_config regular_control
   \<and> (\<exists>s' r. throttle regular_config business_license \<lparr>target_executionId = ''1'', target_mode = Webhook\<rparr> regular_control
        = Inr (s', r) \<and> control_ok regular_config s')"
  using concurrency_control_total[OF control_ok_new[OF regular_control_new],
      of "\<lparr>target_executionId = ''1'', target_mode = Webhook\<rparr>" business_license]
    control_ok_new[OF regular_control_new] by simp

text \<open>The mode \<open>agent\<close> is declared in \<open>WorkflowExecuteModeList\<close>, but \<open>getQueue\<close> has no branch for it:
  while control is enabled, throttling an agent execution throws.\<close>

theorem agent_mode_rejected:
  "throttle regular_config business_license \<lparr>target_executionId = ''1'', target_mode = Agent\<rparr> regular_control
     = Inl (AppError ''UnknownExecutionModeError'')"
  by code_simp

text \<open>After \<open>disable\<close>, which shutdown calls so that throttled executions cannot resume, the
  first release of an evaluation execution resolves the evaluation queue and enables control
  again.\<close>

theorem disable_is_undone_by_evaluation:
  "\<exists>s es. release regular_config business_license Evaluation (disable regular_control) = Inr (s, es) \<and> isEnabled s"
proof -
  have "(case release regular_config business_license Evaluation (disable regular_control) of
      Inl _ \<Rightarrow> False | Inr (s, es) \<Rightarrow> isEnabled s)" by code_simp
  then show ?thesis by (auto split: sum.splits)
qed

section \<open>Reservations give back what they took\<close>

lemma map_set_same: "map_get m k = Some v \<Longrightarrow> map_set k v m = m"
  by (induction m) auto

lemma map_set_twice: "map_set k w (map_set k v m) = map_set k w m"
  by (induction m) auto

lemma queue_type_of_limited:
  "mode \<in> {Webhook, Trigger, Chat} \<Longrightarrow> queue_type_of mode = Inr (Some ProductionQueue)"
  by (auto simp: queue_type_of_def)

lemma reserve_release_roundtrip:
  assumes "isEnabled s" and "queues s = Some qs" and "map_get qs ProductionQueue = Some q"
    and "target_mode target \<in> {Webhook, Trigger, Chat}" and "0 < capacity q" and "queue q = []"
  shows "\<exists>s1. reserve_begin cfg license target None s = Inr (s1, [ConcurrencyCheck (capacity q - 1)], True)
    \<and> reservation_release cfg license (reserve_end target None) s1 = Inr (None, s, [])"
proof -
  note ty = queue_type_of_limited[OF assms(4)]
  let ?q1 = "q\<lparr>capacity := capacity q - 1\<rparr>"
  let ?s1 = "s\<lparr>queues := Some (map_set ProductionQueue ?q1 qs)\<rparr>"
  have mode: "target_mode target \<noteq> Evaluation" using assms(4) by auto
  have "reserve_begin cfg license target None s = Inr (?s1, [ConcurrencyCheck (capacity q - 1)], True)"
    using assms(1,2,3,5) mode ty
    by (simp add: reserve_begin_def throttle_def with_queue_def isUnlimited_def getQueue_def
        set_queue_def enqueue_def Let_def)
  moreover have "release cfg license (target_mode target) ?s1 = Inr (s, [])"
  proof -
    have "s\<lparr>queues := Some qs\<rparr> = s" using assms(2) by simp
    moreover have "?q1\<lparr>capacity := capacity q\<rparr> = q" by simp
    ultimately show ?thesis
      using assms(1,2,3,6) mode ty
      by (simp add: release_def with_queue_def isUnlimited_def getQueue_def set_queue_def dequeue_def
          resolveNext_def map_set_twice map_set_same)
  qed
  ultimately show ?thesis by (auto simp: reservation_release_def reserve_end_def)
qed

text \<open>For a production execution that is let through at once, reserving and then releasing
  restores the service exactly; a reservation that is held cannot be taken again, and a second
  release changes nothing.\<close>

theorem reservation_balanced:
  assumes "isEnabled s" and "queues s = Some qs" and "map_get qs ProductionQueue = Some q"
    and "target_mode target \<in> {Webhook, Trigger, Chat}" and "0 < capacity q" and "queue q = []"
  shows "\<exists>s1. reserve_begin cfg license target None s = Inr (s1, [ConcurrencyCheck (capacity q - 1)], True)
    \<and> reservation_release cfg license (reserve_end target None) s1 = Inr (None, s, [])
    \<and> reserve_begin cfg license target (reserve_end target None) s1 = Inl AssertionError
    \<and> reservation_release cfg license None s = Inr (None, s, [])"
  using reserve_release_roundtrip[OF assms, of cfg license]
  by (auto simp: reservation_release_def[of _ _ None] reserve_end_def reserve_begin_def)

theorem reservation_balanced_witness:
  "\<exists>s1. reserve_begin regular_config business_license \<lparr>target_executionId = ''1'', target_mode = Webhook\<rparr> None
      regular_control = Inr (s1, [ConcurrencyCheck 1], True)
    \<and> reservation_release regular_config business_license
        (reserve_end \<lparr>target_executionId = ''1'', target_mode = Webhook\<rparr> None) s1 = Inr (None, regular_control, [])"
  using reservation_balanced[of regular_control "[(ProductionQueue, new_queue 2)]" "new_queue 2"
      "\<lparr>target_executionId = ''1'', target_mode = Webhook\<rparr>" regular_config business_license]
  by (auto simp: regular_control_def new_queue_def)

end
