(* ===== verification/Active_Executions.thy ===== *)
theory Active_Executions
  imports Concurrency Workflow_Model
begin

text \<open>
  \<^verbatim>\<open>packages/cli/src/active-executions.ts\<close>: the registry of the executions of this process.
  The registry holds the state of the concurrency service it calls.  Asynchronous methods are
  split at their \<open>await\<close>s; what the database answers is an argument.  The \<open>finally\<close> handler
  that \<open>add\<close> attaches to the post-execution promise is the operation \<open>settle\<close>.
\<close>

section \<open>State\<close>

datatype promise = Pending | Resolved | Rejected

fun promise_resolve :: "promise \<Rightarrow> promise" where
  "promise_resolve Pending = Resolved"
| "promise_resolve p = p"

fun promise_reject :: "promise \<Rightarrow> promise" where
  "promise_reject Pending = Rejected"
| "promise_reject p = p"

record IExecutingWorkflowData =
  ax_mode :: WorkflowExecuteMode
  ax_startedAt :: nat
  ax_status :: ExecutionStatus
  ax_postExecutePromise :: promise
  ax_responsePromise :: "promise option"
  ax_workflowExecution :: "bool option"
  ax_reservation :: reservation

text \<open>\<open>ax_workflowExecution\<close> is the attached cancelable run, with its cancelled flag.\<close>

record ActiveExecutions =
  activeExecutions :: "(string, IExecutingWorkflowData) js_map"
  responseModes :: "(string, string) js_map"
  concurrencyControl :: ConcurrencyControl

definition active_has :: "ActiveExecutions \<Rightarrow> string \<Rightarrow> bool" where
  "active_has S executionId = (map_get (activeExecutions S) executionId \<noteq> None)"

definition getExecutionOrFail :: "ActiveExecutions \<Rightarrow> string \<Rightarrow> IExecutingWorkflowData result" where
  "getExecutionOrFail S executionId =
     (case map_get (activeExecutions S) executionId of
        None \<Rightarrow> Inl (AppError ''ExecutionNotFoundError'')
      | Some e \<Rightarrow> Inr e)"

definition put_execution :: "string \<Rightarrow> IExecutingWorkflowData \<Rightarrow> ActiveExecutions \<Rightarrow> ActiveExecutions" where
  "put_execution executionId e S = S\<lparr>activeExecutions := map_set executionId e (activeExecutions S)\<rparr>"

definition drop_execution :: "string \<Rightarrow> ActiveExecutions \<Rightarrow> ActiveExecutions" where
  "drop_execution executionId S =
     S\<lparr>activeExecutions := map_delete executionId (activeExecutions S),
       responseModes := map_delete executionId (responseModes S)\<rparr>"

section \<open>Adding an execution\<close>

text \<open>Up to the \<open>await\<close> of the reservation; the last component says whether it resolved at once.\<close>

definition add_begin ::
  "ConcurrencyConfig \<Rightarrow> License \<Rightarrow> WorkflowExecuteMode \<Rightarrow> string option \<Rightarrow> string \<Rightarrow> ActiveExecutions
     \<Rightarrow> (ActiveExecutions \<times> string \<times> queue_event list \<times> bool) result" where
  "add_begin cfg license mode maybeExecutionId created S =
     (let executionId = (case maybeExecutionId of None \<Rightarrow> created | Some i \<Rightarrow> i)
      in if mode = Evaluation then Inr (S, executionId, [], True)
         else
           rbind (reserve_begin cfg license \<lparr>target_executionId = executionId, target_mode = mode\<rparr> None
                    (concurrencyControl S)) (\<lambda>(c, es, passed).
             Inr (S\<lparr>concurrencyControl := c\<rparr>, executionId, es, passed)))"

text \<open>After it: the database update, the \<open>catch\<close> branch that releases the reservation and
  rethrows, and the registration.\<close>

definition add_end ::
  "ConcurrencyConfig \<Rightarrow> License \<Rightarrow> WorkflowExecuteMode \<Rightarrow> string option \<Rightarrow> string \<Rightarrow> bool \<Rightarrow> nat
     \<Rightarrow> ActiveExecutions \<Rightarrow> (ActiveExecutions \<times> queue_event list \<times> js_error option) result" where
  "add_end cfg license mode maybeExecutionId executionId dbOk now S =
     (let reservation = (if mode = Evaluation then None
                         else reserve_end \<lparr>target_executionId = executionId, target_mode = mode\<rparr> None)
      in if \<not> dbOk then
           rbind (reservation_release cfg license reservation (concurrencyControl S)) (\<lambda>(r, c, es).
             Inr (S\<lparr>concurrencyControl := c\<rparr>, es,
               Some (case maybeExecutionId of
                       None \<Rightarrow> AppError ''DatabaseError''
                     | Some _ \<Rightarrow> AppError ''ExecutionAlreadyResumingError'')))
         else
           let resuming = map_get (activeExecutions S) executionId;
               execution =
                 \<lparr>ax_mode = mode,
                  ax_startedAt = (case resuming of Some e \<Rightarrow> ax_startedAt e | None \<Rightarrow> now),
                  ax_status = Running,
                  ax_postExecutePromise = Pending,
                  ax_responsePromise = (case resuming of Some e \<Rightarrow> ax_responsePromise e | None \<Rightarrow> None),
                  ax_workflowExecution = None,
                  ax_reservation = reservation\<rparr>
           in Inr (put_execution executionId execution S, [], None))"

text \<open>The \<open>finally\<close> handler of the promise of \<open>execution\<close>.  The handler holds the object itself:
  \<open>detached\<close> is \<open>None\<close> while that object is the entry of the registry, and \<open>Some\<close> of its fields once the
  entry was deleted or replaced; the reservation released and the status read are the object's own.\<close>

definition settle ::
  "ConcurrencyConfig \<Rightarrow> License \<Rightarrow> string \<Rightarrow> IExecutingWorkflowData option \<Rightarrow> ActiveExecutions
     \<Rightarrow> (ActiveExecutions \<times> queue_event list) result" where
  "settle cfg license executionId detached S =
     rbind (case detached of Some e \<Rightarrow> Inr e | None \<Rightarrow> getExecutionOrFail S executionId) (\<lambda>execution.
     rbind (reservation_release cfg license (ax_reservation execution) (concurrencyControl S)) (\<lambda>(r, c, es).
       let S1 = S\<lparr>concurrencyControl := c\<rparr>;
           execution1 = execution\<lparr>ax_reservation := r, ax_workflowExecution := None\<rparr>
       in Inr (if ax_status execution = Waiting
               then (if detached = None then put_execution executionId execution1 S1 else S1)
               else drop_execution executionId S1, es)))"

section \<open>The other operations\<close>

definition attachWorkflowExecution :: "string \<Rightarrow> ActiveExecutions \<Rightarrow> ActiveExecutions result" where
  "attachWorkflowExecution executionId S =
     rbind (getExecutionOrFail S executionId) (\<lambda>e.
       Inr (put_execution executionId (e\<lparr>ax_workflowExecution := Some False\<rparr>) S))"

definition attachResponsePromise :: "string \<Rightarrow> promise \<Rightarrow> ActiveExecutions \<Rightarrow> ActiveExecutions result" where
  "attachResponsePromise executionId p S =
     rbind (getExecutionOrFail S executionId) (\<lambda>e.
       Inr (put_execution executionId (e\<lparr>ax_responsePromise := Some p\<rparr>) S))"

definition resolveResponsePromise :: "string \<Rightarrow> ActiveExecutions \<Rightarrow> ActiveExecutions" where
  "resolveResponsePromise executionId S =
     (case map_get (activeExecutions S) executionId of
        None \<Rightarrow> S
      | Some e \<Rightarrow>
          put_execution executionId
            (e\<lparr>ax_responsePromise := map_option promise_resolve (ax_responsePromise e)\<rparr>) S)"

definition stopExecution :: "string \<Rightarrow> ActiveExecutions \<Rightarrow> ActiveExecutions" where
  "stopExecution executionId S =
     (case map_get (activeExecutions S) executionId of
        None \<Rightarrow> S
      | Some e \<Rightarrow>
          let e1 = e\<lparr>ax_responsePromise := map_option promise_reject (ax_responsePromise e)\<rparr>
          in if ax_status e = Waiting then drop_execution executionId S
             else put_execution executionId
                    (e1\<lparr>ax_workflowExecution := map_option (\<lambda>_. True) (ax_workflowExecution e1),
                        ax_postExecutePromise := promise_reject (ax_postExecutePromise e1)\<rparr>) S)"

definition finalizeExecution :: "string \<Rightarrow> ActiveExecutions \<Rightarrow> ActiveExecutions result" where
  "finalizeExecution executionId S =
     (if \<not> active_has S executionId then Inr S
      else rbind (getExecutionOrFail S executionId) (\<lambda>e.
        Inr (put_execution executionId
               (e\<lparr>ax_postExecutePromise := promise_resolve (ax_postExecutePromise e)\<rparr>) S)))"

definition resolveExecutionResponsePromise :: "string \<Rightarrow> ActiveExecutions \<Rightarrow> ActiveExecutions result" where
  "resolveExecutionResponsePromise executionId S =
     (if \<not> active_has S executionId then Inr S
      else rbind (getExecutionOrFail S executionId) (\<lambda>e.
        Inr (if ax_status e \<noteq> Waiting \<and> ax_responsePromise e \<noteq> None
             then put_execution executionId
                    (e\<lparr>ax_responsePromise := map_option promise_resolve (ax_responsePromise e)\<rparr>) S
             else S)))"

definition setStatus :: "string \<Rightarrow> ExecutionStatus \<Rightarrow> ActiveExecutions \<Rightarrow> ActiveExecutions result" where
  "setStatus executionId status S =
     rbind (getExecutionOrFail S executionId) (\<lambda>e. Inr (put_execution executionId (e\<lparr>ax_status := status\<rparr>) S))"

definition getStatus :: "string \<Rightarrow> ActiveExecutions \<Rightarrow> ExecutionStatus result" where
  "getStatus executionId S = rbind (getExecutionOrFail S executionId) (\<lambda>e. Inr (ax_status e))"

definition setResponseMode :: "string \<Rightarrow> string \<Rightarrow> ActiveExecutions \<Rightarrow> ActiveExecutions" where
  "setResponseMode executionId mode S = S\<lparr>responseModes := map_set executionId mode (responseModes S)\<rparr>"

definition getResponseMode :: "string \<Rightarrow> ActiveExecutions \<Rightarrow> string option" where
  "getResponseMode executionId S = map_get (responseModes S) executionId"

text \<open>\<open>shutdown\<close> up to its waiting loop; the last component lists the executions cancelled in the
  database.\<close>

definition shutdown_one :: "bool \<Rightarrow> bool \<Rightarrow> string \<Rightarrow> ActiveExecutions \<times> string list \<Rightarrow> ActiveExecutions \<times> string list" where
  "shutdown_one isRegularMode cancelAll executionId acc =
     (let (S, toCancel) = acc
      in if isRegularMode \<and> cancelAll then (stopExecution executionId S, toCancel @ [executionId])
         else case map_get (activeExecutions S) executionId of
                None \<Rightarrow> (S, toCancel)
              | Some e \<Rightarrow>
                  (if ax_status e = Waiting \<or> ax_status e = New
                   then (S\<lparr>activeExecutions := map_delete executionId (activeExecutions S)\<rparr>, toCancel)
                   else (S, toCancel)))"

definition shutdown_begin ::
  "bool \<Rightarrow> bool \<Rightarrow> ActiveExecutions \<Rightarrow> (ActiveExecutions \<times> queue_event list \<times> string list) result" where
  "shutdown_begin isRegularMode cancelAll S =
     (let S1 = (if isRegularMode then S\<lparr>concurrencyControl := disable (concurrencyControl S)\<rparr> else S);
          (S2, toCancel) = fold (shutdown_one isRegularMode cancelAll) (map_keys (activeExecutions S1)) (S1, [])
      in rbind (removeAll toCancel (concurrencyControl S2)) (\<lambda>(c, es, cancelled).
           Inr (S2\<lparr>concurrencyControl := c\<rparr>, es, cancelled)))"

section \<open>Capacity follows the life of an execution\<close>

text \<open>A production queue with room and nobody waiting.\<close>

definition has_room :: "ActiveExecutions \<Rightarrow> bool" where
  "has_room S \<longleftrightarrow> isEnabled (concurrencyControl S)
     \<and> (case queues (concurrencyControl S) of
          None \<Rightarrow> False
        | Some qs \<Rightarrow> (case map_get qs ProductionQueue of
                        None \<Rightarrow> False | Some q \<Rightarrow> 0 < capacity q \<and> queue q = []))"

lemma reserve_with_room:
  assumes "has_room S" and "mode \<in> {Webhook, Trigger, Chat}"
  shows "\<exists>c es. reserve_begin cfg license \<lparr>target_executionId = i, target_mode = mode\<rparr> None (concurrencyControl S)
        = Inr (c, es, True)
    \<and> reservation_release cfg license (reserve_end \<lparr>target_executionId = i, target_mode = mode\<rparr> None) c
        = Inr (None, concurrencyControl S, [])"
proof -
  from assms(1) obtain qs q where "isEnabled (concurrencyControl S)" "queues (concurrencyControl S) = Some qs"
    "map_get qs ProductionQueue = Some q" "0 < capacity q" "queue q = []"
    by (auto simp: has_room_def split: option.splits)
  from reserve_release_roundtrip[OF this(1-3) _ this(4,5), of "\<lparr>target_executionId = i, target_mode = mode\<rparr>" cfg license]
    assms(2) show ?thesis by auto
qed

lemma map_delete_new: "map_get m k = None \<Longrightarrow> map_delete k (map_set k v m) = m"
  by (induction m) (auto simp: AList.delete_eq split: if_splits)

text \<open>\<^bold>\<open>C26.\<close> The capacity an execution takes is given back on every way out.  For a new production
  execution that finds room: when the database update fails, \<open>add\<close> fails and the registry and
  the concurrency service are as before; when the execution runs and its promise settles, they
  are as before too, apart from its response mode; when it settles as waiting, the
  entry stays without its run and without a reservation, and the service is as before.\<close>

theorem execution_gives_capacity_back:
  assumes "has_room S" and "mode \<in> {Webhook, Trigger, Chat}" and "\<not> active_has S i"
  shows "\<exists>S1 es. add_begin cfg license mode None i S = Inr (S1, i, es, True)
    \<and> add_end cfg license mode None i False now S1 = Inr (S, [], Some (AppError ''DatabaseError''))
    \<and> (\<exists>S2. add_end cfg license mode None i True now S1 = Inr (S2, [], None)
        \<and> getStatus i S2 = Inr Running
        \<and> settle cfg license i None S2 = Inr (S\<lparr>responseModes := map_delete i (responseModes S)\<rparr>, [])
        \<and> (\<exists>S3 S4 e. setStatus i Waiting S2 = Inr S3 \<and> settle cfg license i None S3 = Inr (S4, [])
             \<and> concurrencyControl S4 = concurrencyControl S
             \<and> map_get (activeExecutions S4) i = Some e \<and> ax_reservation e = None
             \<and> ax_workflowExecution e = None))"
proof -
  have mode: "mode \<noteq> Evaluation" using assms(2) by auto
  have new: "map_get (activeExecutions S) i = None" using assms(3) by (simp add: active_has_def)
  from reserve_with_room[OF assms(1,2), of cfg license i] obtain c es where
    r: "reserve_begin cfg license \<lparr>target_executionId = i, target_mode = mode\<rparr> None (concurrencyControl S)
          = Inr (c, es, True)"
    and b: "reservation_release cfg license (reserve_end \<lparr>target_executionId = i, target_mode = mode\<rparr> None) c
          = Inr (None, concurrencyControl S, [])" by blast
  let ?S1 = "S\<lparr>concurrencyControl := c\<rparr>"
  have 1: "add_begin cfg license mode None i S = Inr (?S1, i, es, True)"
    using mode r by (simp add: add_begin_def)
  have 2: "add_end cfg license mode None i False now ?S1 = Inr (S, [], Some (AppError ''DatabaseError''))"
    using mode b by (simp add: add_end_def)
  let ?e = "\<lparr>ax_mode = mode, ax_startedAt = now, ax_status = Running, ax_postExecutePromise = Pending,
    ax_responsePromise = None, ax_workflowExecution = None,
    ax_reservation = reserve_end \<lparr>target_executionId = i, target_mode = mode\<rparr> None\<rparr>"
  let ?S2 = "put_execution i ?e ?S1"
  have 3: "add_end cfg license mode None i True now ?S1 = Inr (?S2, [], None)"
    using mode new by (simp add: add_end_def)
  have 4: "getStatus i ?S2 = Inr Running" by (simp add: getStatus_def getExecutionOrFail_def put_execution_def)
  have 5: "settle cfg license i None ?S2 = Inr (S\<lparr>responseModes := map_delete i (responseModes S)\<rparr>, [])"
    using b new by (simp add: settle_def getExecutionOrFail_def put_execution_def drop_execution_def map_delete_new)
  let ?S3 = "put_execution i (?e\<lparr>ax_status := Waiting\<rparr>) ?S2"
  have 6: "setStatus i Waiting ?S2 = Inr ?S3" by (simp add: setStatus_def getExecutionOrFail_def put_execution_def)
  obtain S4 where 7: "settle cfg license i None ?S3 = Inr (S4, [])" "concurrencyControl S4 = concurrencyControl S"
    "map_get (activeExecutions S4) i = Some (?e\<lparr>ax_status := Waiting, ax_reservation := None, ax_workflowExecution := None\<rparr>)"
    using b by (simp add: settle_def getExecutionOrFail_def put_execution_def)
  from 1 2 3 4 5 6 7 show ?thesis by fastforce
qed

definition idle_registry :: ActiveExecutions where
  "idle_registry = \<lparr>activeExecutions = [], responseModes = [], concurrencyControl = regular_control\<rparr>"

theorem execution_gives_capacity_back_witness:
  "has_room idle_registry \<and> \<not> active_has idle_registry ''1''
   \<and> (\<exists>S1 es. add_begin regular_config business_license Webhook None ''1'' idle_registry = Inr (S1, ''1'', es, True)
        \<and> add_end regular_config business_license Webhook None ''1'' False 7 S1
            = Inr (idle_registry, [], Some (AppError ''DatabaseError'')))"
proof -
  have h: "has_room idle_registry" "\<not> active_has idle_registry ''1''" by code_simp+
  from execution_gives_capacity_back[OF h(1) _ h(2), of Webhook regular_config business_license 7] h
  show ?thesis by blast
qed

section \<open>Shutdown\<close>

definition stopped :: "IExecutingWorkflowData \<Rightarrow> IExecutingWorkflowData" where
  "stopped e = e\<lparr>ax_responsePromise := map_option promise_reject (ax_responsePromise e),
     ax_workflowExecution := map_option (\<lambda>_. True) (ax_workflowExecution e),
     ax_postExecutePromise := promise_reject (ax_postExecutePromise e)\<rparr>"

text \<open>What shutdown makes of an entry.\<close>

definition after_shutdown :: "bool \<Rightarrow> IExecutingWorkflowData \<Rightarrow> IExecutingWorkflowData option" where
  "after_shutdown cancelling e =
     (if cancelling then (if ax_status e = Waiting then None else Some (stopped e))
      else if ax_status e = Waiting \<or> ax_status e = New then None else Some e)"

lemma promise_reject_twice [simp]: "promise_reject (promise_reject p) = promise_reject p"
  by (cases p) auto

lemma after_shutdown_twice:
  "Option.bind (after_shutdown b e) (after_shutdown b) = after_shutdown b e"
proof -
  have "map_option (promise_reject \<circ> promise_reject) r = map_option promise_reject r" for r
    by (cases r) auto
  then show ?thesis
    by (auto simp: after_shutdown_def stopped_def option.map_comp comp_def)
qed

lemma shutdown_one_effect:
  assumes "shutdown_one r cancelAll i (S, tc) = (S', tc')"
  shows "map_get (activeExecutions S') k
      = (if k = i then Option.bind (map_get (activeExecutions S) i) (after_shutdown (r \<and> cancelAll))
         else map_get (activeExecutions S) k)"
    and "concurrencyControl S' = concurrencyControl S"
  using assms
  by (auto simp: shutdown_one_def stopExecution_def drop_execution_def put_execution_def after_shutdown_def
      stopped_def Let_def split: option.splits if_splits)

lemma shutdown_loop_effect:
  assumes "fold (shutdown_one r cancelAll) ks (S, tc) = (S', tc')"
  shows "map_get (activeExecutions S') k
      = (if k \<in> set ks then Option.bind (map_get (activeExecutions S) k) (after_shutdown (r \<and> cancelAll))
         else map_get (activeExecutions S) k)
    \<and> concurrencyControl S' = concurrencyControl S"
  using assms
proof (induction ks arbitrary: S tc)
  case Nil
  then show ?case by simp
next
  case (Cons i ks)
  obtain S1 tc1 where s1: "shutdown_one r cancelAll i (S, tc) = (S1, tc1)" by fastforce
  with Cons.prems have "fold (shutdown_one r cancelAll) ks (S1, tc1) = (S', tc')" by simp
  from Cons.IH[OF this] shutdown_one_effect[OF s1] show ?case by (auto simp: after_shutdown_twice)
qed

text \<open>\<^bold>\<open>C27.\<close> In regular mode shutdown always returns, disables concurrency control, and leaves an
  entry exactly as follows: without \<open>cancelAll\<close>, waiting and new executions are dropped and all
  others kept; with it, waiting ones are dropped and all others get their run cancelled and
  their promises rejected.  Because control is disabled first, the following \<open>removeAll\<close> does
  nothing: no queued execution is removed and none is cancelled in the database, although
  \<open>removeAll\<close> is passed the executions to cancel.\<close>

theorem shutdown_effect:
  "\<exists>S'. shutdown_begin True cancelAll S = Inr (S', [], [])
    \<and> concurrencyControl S' = disable (concurrencyControl S)
    \<and> (\<forall>i. map_get (activeExecutions S') i = Option.bind (map_get (activeExecutions S) i) (after_shutdown cancelAll))"
proof -
  let ?S1 = "S\<lparr>concurrencyControl := disable (concurrencyControl S)\<rparr>"
  obtain S2 tc where l: "fold (shutdown_one True cancelAll) (map fst (activeExecutions S)) (?S1, []) = (S2, tc)"
    by fastforce
  have g: "map_get (activeExecutions S2) i
      = (if i \<in> set (map fst (activeExecutions S)) then Option.bind (map_get (activeExecutions S) i) (after_shutdown cancelAll)
         else map_get (activeExecutions S) i)" for i
    using shutdown_loop_effect[OF l, of i] by simp
  have c: "concurrencyControl S2 = disable (concurrencyControl S)"
    using shutdown_loop_effect[OF l] by simp
  have "S2\<lparr>concurrencyControl := disable (concurrencyControl S)\<rparr> = S2" using c by (metis ActiveExecutions.surjective ActiveExecutions.update_convs(3))
  then have "shutdown_begin True cancelAll S = Inr (S2, [], [])"
    using l c by (simp add: shutdown_begin_def removeAll_def disable_def)
  moreover have "map_get (activeExecutions S2) i = Option.bind (map_get (activeExecutions S) i) (after_shutdown cancelAll)" for i
    using g[of i] map_of_eq_None_iff[of "activeExecutions S" i] by (cases "map_get (activeExecutions S) i") auto
  ultimately show ?thesis using c by blast
qed

end
