(* ===== verification/Task_Broker.thy ===== *)
theory Task_Broker
  imports Workflow_Model
begin

text \<open>
  \<^verbatim>\<open>packages/cli/src/task-runners/task-broker/task-broker.service.ts\<close>: the broker matches task
  offers of runners with task requests of requesters and forwards messages between them.  The
  private maps and arrays of the class are the fields of \<open>TaskBroker\<close>; messages are those of
  \<^verbatim>\<open>packages/@n8n/task-runner/src/message-types.ts\<close>.

  \<^bold>\<open>Asynchrony.\<close>  \<open>acceptOffer\<close> suspends twice, for the runner's and for the requester's answer.
  A suspended call is an entry of \<open>accepting\<close> or \<open>readying\<close>; the operations that settle its
  promise run its continuation.  The \<open>await\<close> of a message callback does not suspend, and
  callbacks do not fail.
  \<^bold>\<open>Timers\<close> are the flags \<open>timeout\<close>; firing one is an operation.  \<^bold>\<open>Sent messages\<close> are
  appended to \<open>outbox\<close>.  \<^bold>\<open>nanoid\<close> is the parameter \<open>nanoid\<close>, read at the counter \<open>next_id\<close>.
\<close>

section \<open>State and messages\<close>

record TaskRunner =
  runner_id :: string
  runner_taskTypes :: "string list"

record Task =
  task_id :: string
  task_runnerId :: string
  task_requesterId :: string
  task_type :: string
  task_timeout :: bool

record TaskOffer =
  offerId :: string
  offer_runnerId :: string
  offer_taskType :: string
  validFor :: int
  validUntil :: int

text \<open>\<open>req_ref\<close> is the identity of the request object, which \<open>pendingTaskRequests\<close> and the
  suspended calls share.\<close>

record TaskRequest =
  req_ref :: nat
  requestId :: string
  req_requesterId :: string
  req_taskType :: string
  req_timeout :: bool
  acceptInProgress :: bool

datatype to_runner =
    RunnerRegistered
  | TaskOfferAccept string string
  | TaskCancel string string
  | TaskSettings string json
  | RPCResponse string string string json
  | TaskDataResponse string string json
  | NodeTypes string string json

datatype to_requester =
    TaskReady string string
  | TaskDone string json
  | TaskError string json
  | RequestExpired string string
  | TaskDataRequest string string json
  | NodeTypesRequest string string json
  | RPC string string string json

datatype sent = ToRunner string to_runner | ToRequester string to_requester | TimedOutDuringTask

record TaskBroker =
  knownRunners :: "(string, TaskRunner) js_map"
  requesters :: "string js_set"
  tasks :: "(string, Task) js_map"
  isDraining :: bool
  runnerAcceptRejects :: "string js_set"
  requesterAcceptRejects :: "string js_set"
  pendingTaskOffers :: "TaskOffer list"
  pendingTaskRequests :: "TaskRequest list"
  mismatchWarned :: "string js_set"
  accepting :: "(string, TaskOffer \<times> TaskRequest) js_map"
  readying :: "(string, TaskRequest) js_map"
  next_id :: nat
  outbox :: "sent list"

definition taskBroker_new :: "int \<Rightarrow> TaskBroker result" where
  "taskBroker_new taskTimeout =
     (if taskTimeout \<le> 0 then Inl (AppError ''Task timeout must be greater than 0'')
      else Inr \<lparr>knownRunners = [], requesters = [], tasks = [], isDraining = False,
                runnerAcceptRejects = [], requesterAcceptRejects = [], pendingTaskOffers = [],
                pendingTaskRequests = [], mismatchWarned = [], accepting = [], readying = [],
                next_id = 0, outbox = []\<rparr>)"

section \<open>Messages\<close>

definition messageRunner :: "string \<Rightarrow> to_runner \<Rightarrow> TaskBroker \<Rightarrow> TaskBroker" where
  "messageRunner runnerId m b =
     (if map_get (knownRunners b) runnerId \<noteq> None then b\<lparr>outbox := outbox b @ [ToRunner runnerId m]\<rparr> else b)"

definition messageRequester :: "string \<Rightarrow> to_requester \<Rightarrow> TaskBroker \<Rightarrow> TaskBroker" where
  "messageRequester requesterId m b =
     (if set_has (requesters b) requesterId then b\<lparr>outbox := outbox b @ [ToRequester requesterId m]\<rparr> else b)"

section \<open>Tasks\<close>

definition cancelTask :: "string \<Rightarrow> string \<Rightarrow> TaskBroker \<Rightarrow> TaskBroker" where
  "cancelTask taskId reason b =
     (case map_get (tasks b) taskId of
        None \<Rightarrow> b
      | Some task \<Rightarrow>
          messageRunner (task_runnerId task) (TaskCancel taskId reason)
            (b\<lparr>tasks := map_delete taskId (tasks b)\<rparr>))"

definition failTask :: "string \<Rightarrow> json \<Rightarrow> TaskBroker \<Rightarrow> TaskBroker" where
  "failTask taskId error b =
     (case map_get (tasks b) taskId of
        None \<Rightarrow> b
      | Some task \<Rightarrow>
          messageRequester (task_requesterId task) (TaskError taskId error)
            (b\<lparr>tasks := map_delete taskId (tasks b)\<rparr>))"

text \<open>\<open>getRunnerOrFailTask\<close> throws in two cases; the second one fails the task first.\<close>

definition getRunnerOrFailTask :: "string \<Rightarrow> TaskBroker \<Rightarrow> TaskBroker \<times> TaskRunner option" where
  "getRunnerOrFailTask taskId b =
     (case map_get (tasks b) taskId of
        None \<Rightarrow> (b, None)
      | Some task \<Rightarrow>
          (case map_get (knownRunners b) (task_runnerId task) of
             None \<Rightarrow> (failTask taskId (JStr ''Cannot find runner, failed to find runner'') b, None)
           | Some runner \<Rightarrow> (b, Some runner)))"

text \<open>A handler that forwards an answer to the runner of the task.\<close>

definition answerRunner :: "string \<Rightarrow> to_runner \<Rightarrow> TaskBroker \<Rightarrow> TaskBroker" where
  "answerRunner taskId m b =
     (if map_get (tasks b) taskId = None then b
      else
        let (b1, runner) = getRunnerOrFailTask taskId b
        in case runner of None \<Rightarrow> b1 | Some r \<Rightarrow> messageRunner (runner_id r) m b1)"

definition handleRequesterRpcResponse :: "string \<Rightarrow> string \<Rightarrow> string \<Rightarrow> json \<Rightarrow> TaskBroker \<Rightarrow> TaskBroker" where
  "handleRequesterRpcResponse taskId callId status data b = answerRunner taskId (RPCResponse taskId callId status data) b"

definition handleRequesterDataResponse :: "string \<Rightarrow> string \<Rightarrow> json \<Rightarrow> TaskBroker \<Rightarrow> TaskBroker" where
  "handleRequesterDataResponse taskId reqId data b = answerRunner taskId (TaskDataResponse taskId reqId data) b"

definition handleRequesterNodeTypesResponse :: "string \<Rightarrow> string \<Rightarrow> json \<Rightarrow> TaskBroker \<Rightarrow> TaskBroker" where
  "handleRequesterNodeTypesResponse taskId reqId nodeTypes b = answerRunner taskId (NodeTypes taskId reqId nodeTypes) b"

text \<open>A handler that forwards a question to the requester of the task.\<close>

definition askRequester :: "string \<Rightarrow> to_requester \<Rightarrow> TaskBroker \<Rightarrow> TaskBroker" where
  "askRequester taskId m b =
     (case map_get (tasks b) taskId of None \<Rightarrow> b | Some task \<Rightarrow> messageRequester (task_requesterId task) m b)"

definition handleRpcRequest :: "string \<Rightarrow> string \<Rightarrow> string \<Rightarrow> json \<Rightarrow> TaskBroker \<Rightarrow> TaskBroker" where
  "handleRpcRequest taskId callId name params b = askRequester taskId (RPC taskId callId name params) b"

definition handleDataRequest :: "string \<Rightarrow> string \<Rightarrow> json \<Rightarrow> TaskBroker \<Rightarrow> TaskBroker" where
  "handleDataRequest taskId reqId params b = askRequester taskId (TaskDataRequest taskId reqId params) b"

definition handleNodeTypesRequest :: "string \<Rightarrow> string \<Rightarrow> json \<Rightarrow> TaskBroker \<Rightarrow> TaskBroker" where
  "handleNodeTypesRequest taskId reqId params b = askRequester taskId (NodeTypesRequest taskId reqId params) b"

definition handleResponse :: "string \<Rightarrow> string \<Rightarrow> json \<Rightarrow> TaskBroker \<Rightarrow> TaskBroker" where
  "handleResponse taskId reqId data b =
     (case map_get (tasks b) taskId of
        None \<Rightarrow> b
      | Some task \<Rightarrow> messageRunner (task_requesterId task) (TaskDataResponse taskId reqId data) b)"

definition endTask :: "string \<Rightarrow> to_requester \<Rightarrow> TaskBroker \<Rightarrow> TaskBroker" where
  "endTask taskId m b =
     (case map_get (tasks b) taskId of
        None \<Rightarrow> b
      | Some task \<Rightarrow>
          let b1 = messageRequester (task_requesterId task) m b
          in b1\<lparr>tasks := map_delete (task_id task) (tasks b1)\<rparr>)"

definition taskDoneHandler :: "string \<Rightarrow> json \<Rightarrow> TaskBroker \<Rightarrow> TaskBroker" where
  "taskDoneHandler taskId data b = endTask taskId (TaskDone taskId data) b"

definition taskErrorHandler :: "string \<Rightarrow> json \<Rightarrow> TaskBroker \<Rightarrow> TaskBroker" where
  "taskErrorHandler taskId error b = endTask taskId (TaskError taskId error) b"

definition handleTaskTimeout :: "bool \<Rightarrow> string \<Rightarrow> TaskBroker \<Rightarrow> TaskBroker" where
  "handleTaskTimeout internalMode taskId b =
     (case map_get (tasks b) taskId of
        None \<Rightarrow> b
      | Some task \<Rightarrow>
          taskErrorHandler taskId (JStr ''Task execution timed out'')
            (if internalMode then b\<lparr>outbox := outbox b @ [TimedOutDuringTask]\<rparr>
             else messageRunner (task_runnerId task) (TaskCancel taskId ''Task execution timed out'') b))"

definition sendTaskSettings :: "string \<Rightarrow> json \<Rightarrow> TaskBroker \<Rightarrow> TaskBroker" where
  "sendTaskSettings taskId settings b =
     (if map_get (tasks b) taskId = None then b
      else
        let (b1, runner) = getRunnerOrFailTask taskId b
        in case runner of
             None \<Rightarrow> b1
           | Some r \<Rightarrow>
               (case map_get (tasks b1) taskId of
                  None \<Rightarrow> b1
                | Some task \<Rightarrow>
                    messageRunner (runner_id r) (TaskSettings taskId settings)
                      (b1\<lparr>tasks := map_set taskId (task\<lparr>task_timeout := True\<rparr>) (tasks b1)\<rparr>)))"

section \<open>Matching offers and requests\<close>

definition expireTasks :: "int \<Rightarrow> TaskBroker \<Rightarrow> TaskBroker" where
  "expireTasks now b =
     b\<lparr>pendingTaskOffers := filter (\<lambda>o'. validFor o' = - 1 \<or> \<not> validUntil o' < now) (pendingTaskOffers b)\<rparr>"

definition set_request :: "nat \<Rightarrow> (TaskRequest \<Rightarrow> TaskRequest) \<Rightarrow> TaskBroker \<Rightarrow> TaskBroker" where
  "set_request ref f b =
     b\<lparr>pendingTaskRequests := map (\<lambda>r. if req_ref r = ref then f r else r) (pendingTaskRequests b)\<rparr>"

text \<open>\<open>acceptOffer\<close> up to its first \<open>await\<close>.\<close>

definition acceptOffer_begin :: "(nat \<Rightarrow> string) \<Rightarrow> TaskOffer \<Rightarrow> TaskRequest \<Rightarrow> TaskBroker \<Rightarrow> TaskBroker" where
  "acceptOffer_begin nanoid offer request b =
     (let taskId = nanoid (next_id b);
          b1 = b\<lparr>next_id := next_id b + 1,
                 runnerAcceptRejects := set_add taskId (runnerAcceptRejects b),
                 accepting := map_set taskId (offer, request) (accepting b)\<rparr>
      in messageRunner (offer_runnerId offer) (TaskOfferAccept taskId (offerId offer)) b1)"

definition warnOnTaskTypeMismatch :: "TaskRequest \<Rightarrow> TaskBroker \<Rightarrow> TaskBroker" where
  "warnOnTaskTypeMismatch request b =
     (if pendingTaskOffers b = [] then b
      else if set_has (mismatchWarned b) (requestId request) then b
      else b\<lparr>mismatchWarned := set_add (requestId request) (mismatchWarned b)\<rparr>)"

definition settleRequest :: "(nat \<Rightarrow> string) \<Rightarrow> TaskRequest \<Rightarrow> TaskBroker \<Rightarrow> TaskBroker" where
  "settleRequest nanoid request b =
     (if acceptInProgress request then b
      else case findIndex (\<lambda>o'. offer_taskType o' = req_taskType request) (pendingTaskOffers b) of
             None \<Rightarrow> warnOnTaskTypeMismatch request b
           | Some offerIndex \<Rightarrow>
               let offer = pendingTaskOffers b ! offerIndex;
                   b1 = set_request (req_ref request) (\<lambda>r. r\<lparr>acceptInProgress := True\<rparr>) b;
                   b2 = b1\<lparr>pendingTaskOffers := removeAt offerIndex (pendingTaskOffers b1),
                           mismatchWarned := set_delete (requestId request) (mismatchWarned b1)\<rparr>
               in acceptOffer_begin nanoid offer (request\<lparr>acceptInProgress := True\<rparr>) b2)"

definition settleTasks :: "(nat \<Rightarrow> string) \<Rightarrow> int \<Rightarrow> TaskBroker \<Rightarrow> TaskBroker" where
  "settleTasks nanoid now b =
     (let b1 = expireTasks now b in fold (settleRequest nanoid) (pendingTaskRequests b1) b1)"

definition taskRequested :: "(nat \<Rightarrow> string) \<Rightarrow> int \<Rightarrow> TaskRequest \<Rightarrow> TaskBroker \<Rightarrow> TaskBroker" where
  "taskRequested nanoid now request b =
     (if isDraining b then
        messageRequester (req_requesterId request) (RequestExpired (requestId request) ''draining'') b
      else settleTasks nanoid now (b\<lparr>pendingTaskRequests := pendingTaskRequests b @ [request]\<rparr>))"

definition taskOffered :: "(nat \<Rightarrow> string) \<Rightarrow> int \<Rightarrow> TaskOffer \<Rightarrow> TaskBroker \<Rightarrow> TaskBroker" where
  "taskOffered nanoid now offer b =
     settleTasks nanoid now (b\<lparr>pendingTaskOffers := pendingTaskOffers b @ [offer]\<rparr>)"

text \<open>\<open>acceptOffer\<close> after the runner accepted, up to the second \<open>await\<close>.\<close>

definition acceptOffer_accepted :: "string \<Rightarrow> TaskOffer \<Rightarrow> TaskRequest \<Rightarrow> TaskBroker \<Rightarrow> TaskBroker" where
  "acceptOffer_accepted taskId offer request b =
     (let b1 = set_request (req_ref request) (\<lambda>r. r\<lparr>req_timeout := False\<rparr>) b;
          task = \<lparr>task_id = taskId, task_runnerId = offer_runnerId offer,
                  task_requesterId = req_requesterId request, task_type = offer_taskType offer,
                  task_timeout = False\<rparr>;
          b2 = b1\<lparr>tasks := map_set taskId task (tasks b1)\<rparr>
      in case findIndex (\<lambda>r. requestId r = requestId request) (pendingTaskRequests b2) of
           None \<Rightarrow> b2
         | Some requestIndex \<Rightarrow>
             messageRequester (req_requesterId request) (TaskReady (requestId request) taskId)
               (b2\<lparr>pendingTaskRequests := removeAt requestIndex (pendingTaskRequests b2),
                   requesterAcceptRejects := set_add taskId (requesterAcceptRejects b2),
                   readying := map_set taskId request (readying b2)\<rparr>))"

datatype reject_reason = TaskRejectError | TaskDeferredError | TaskRunnerAcceptTimeoutError

text \<open>The first \<open>catch\<close> of \<open>acceptOffer\<close>; a deferred request gets a new timeout.\<close>

definition acceptOffer_rejected :: "TaskRequest \<Rightarrow> reject_reason \<Rightarrow> TaskBroker \<Rightarrow> TaskBroker" where
  "acceptOffer_rejected request reason b =
     set_request (req_ref request) (\<lambda>r.
       let r1 = r\<lparr>acceptInProgress := False\<rparr>
       in if reason = TaskDeferredError then r1\<lparr>req_timeout := True\<rparr> else r1) b"

definition handleRunnerAccept :: "string \<Rightarrow> TaskBroker \<Rightarrow> TaskBroker" where
  "handleRunnerAccept taskId b =
     (if set_has (runnerAcceptRejects b) taskId then
        let b1 = b\<lparr>runnerAcceptRejects := set_delete taskId (runnerAcceptRejects b)\<rparr>
        in case map_get (accepting b1) taskId of
             None \<Rightarrow> b1
           | Some (offer, request) \<Rightarrow>
               acceptOffer_accepted taskId offer request (b1\<lparr>accepting := map_delete taskId (accepting b1)\<rparr>)
      else b)"

definition rejectRunner :: "string \<Rightarrow> reject_reason \<Rightarrow> TaskBroker \<Rightarrow> TaskBroker" where
  "rejectRunner taskId reason b =
     (if set_has (runnerAcceptRejects b) taskId then
        let b1 = b\<lparr>runnerAcceptRejects := set_delete taskId (runnerAcceptRejects b)\<rparr>
        in case map_get (accepting b1) taskId of
             None \<Rightarrow> b1
           | Some (offer, request) \<Rightarrow>
               acceptOffer_rejected request reason (b1\<lparr>accepting := map_delete taskId (accepting b1)\<rparr>)
      else b)"

definition handleRunnerReject :: "string \<Rightarrow> TaskBroker \<Rightarrow> TaskBroker" where
  "handleRunnerReject taskId b = rejectRunner taskId TaskRejectError b"

definition handleRunnerDeferred :: "string \<Rightarrow> TaskBroker \<Rightarrow> TaskBroker" where
  "handleRunnerDeferred taskId b = rejectRunner taskId TaskDeferredError b"

text \<open>The two-second timer of the first promise: it rejects the promise and leaves the entry of
  \<open>runnerAcceptRejects\<close> behind.\<close>

definition acceptTimeout :: "string \<Rightarrow> TaskBroker \<Rightarrow> TaskBroker" where
  "acceptTimeout taskId b =
     (case map_get (accepting b) taskId of
        None \<Rightarrow> b
      | Some (offer, request) \<Rightarrow>
          acceptOffer_rejected request TaskRunnerAcceptTimeoutError
            (b\<lparr>accepting := map_delete taskId (accepting b)\<rparr>))"

definition handleRequesterAccept :: "string \<Rightarrow> json \<Rightarrow> TaskBroker \<Rightarrow> TaskBroker" where
  "handleRequesterAccept taskId settings b =
     (if set_has (requesterAcceptRejects b) taskId then
        let b1 = b\<lparr>requesterAcceptRejects := set_delete taskId (requesterAcceptRejects b)\<rparr>
        in case map_get (readying b1) taskId of
             None \<Rightarrow> b1
           | Some request \<Rightarrow> sendTaskSettings taskId settings (b1\<lparr>readying := map_delete taskId (readying b1)\<rparr>)
      else b)"

definition handleRequesterReject :: "string \<Rightarrow> string \<Rightarrow> TaskBroker \<Rightarrow> TaskBroker" where
  "handleRequesterReject taskId reason b =
     (if set_has (requesterAcceptRejects b) taskId then
        let b1 = b\<lparr>requesterAcceptRejects := set_delete taskId (requesterAcceptRejects b)\<rparr>
        in case map_get (readying b1) taskId of
             None \<Rightarrow> b1
           | Some request \<Rightarrow> cancelTask taskId reason (b1\<lparr>readying := map_delete taskId (readying b1)\<rparr>)
      else b)"

definition requesterTimeout :: "string \<Rightarrow> TaskBroker \<Rightarrow> TaskBroker" where
  "requesterTimeout taskId b =
     (case map_get (readying b) taskId of
        None \<Rightarrow> b
      | Some request \<Rightarrow> cancelTask taskId ''Unknown reason'' (b\<lparr>readying := map_delete taskId (readying b)\<rparr>))"

definition handleRequestTimeout :: "string \<Rightarrow> TaskBroker \<Rightarrow> TaskBroker" where
  "handleRequestTimeout reqId b =
     (case findIndex (\<lambda>r. requestId r = reqId) (pendingTaskRequests b) of
        None \<Rightarrow> b
      | Some requestIndex \<Rightarrow>
          let request = pendingTaskRequests b ! requestIndex
          in messageRequester (req_requesterId request) (RequestExpired (requestId request) ''timeout'')
               (b\<lparr>pendingTaskRequests := removeAt requestIndex (pendingTaskRequests b),
                  mismatchWarned := set_delete reqId (mismatchWarned b)\<rparr>))"

section \<open>Runners and requesters\<close>

definition registerRunner :: "TaskRunner \<Rightarrow> TaskBroker \<Rightarrow> TaskBroker" where
  "registerRunner runner b =
     messageRunner (runner_id runner) RunnerRegistered
       (b\<lparr>knownRunners := map_set (runner_id runner) runner (knownRunners b)\<rparr>)"

definition failTaskOf :: "string \<Rightarrow> json \<Rightarrow> Task \<Rightarrow> TaskBroker \<Rightarrow> TaskBroker" where
  "failTaskOf runnerId error task b =
     (if task_runnerId task = runnerId
      then handleRunnerReject (task_id task) (failTask (task_id task) error b) else b)"

definition deregisterRunner :: "string \<Rightarrow> json \<Rightarrow> TaskBroker \<Rightarrow> TaskBroker" where
  "deregisterRunner runnerId error b =
     (let b1 = b\<lparr>knownRunners := map_delete runnerId (knownRunners b),
                 pendingTaskOffers := filter (\<lambda>o'. offer_runnerId o' \<noteq> runnerId) (pendingTaskOffers b)\<rparr>
      in fold (failTaskOf runnerId error) (map_values (tasks b1)) b1)"

definition registerRequester :: "string \<Rightarrow> TaskBroker \<Rightarrow> TaskBroker" where
  "registerRequester requesterId b = b\<lparr>requesters := set_add requesterId (requesters b)\<rparr>"

definition deregisterRequester :: "string \<Rightarrow> TaskBroker \<Rightarrow> TaskBroker" where
  "deregisterRequester requesterId b = b\<lparr>requesters := set_delete requesterId (requesters b)\<rparr>"

definition startDraining :: "TaskBroker \<Rightarrow> TaskBroker" where
  "startDraining b = b\<lparr>isDraining := True\<rparr>"

definition stopDraining :: "TaskBroker \<Rightarrow> TaskBroker" where
  "stopDraining b = b\<lparr>isDraining := False\<rparr>"

definition hasActiveTasks :: "TaskBroker \<Rightarrow> bool" where
  "hasActiveTasks b = (length (tasks b) > 0)"

section \<open>Dispatch\<close>

datatype runner_message =
    RTaskAccepted string
  | RTaskRejected string string
  | RTaskDeferred string
  | RTaskOffer string string int
  | RTaskDone string json
  | RTaskError string json
  | RTaskDataRequest string string json
  | RNodeTypesRequest string string json
  | RRPC string string string json
  | RInfo

definition onRunnerMessage ::
  "(nat \<Rightarrow> string) \<Rightarrow> int \<Rightarrow> string \<Rightarrow> runner_message \<Rightarrow> TaskBroker \<Rightarrow> TaskBroker" where
  "onRunnerMessage nanoid now runnerId message b =
     (if map_get (knownRunners b) runnerId = None then b
      else case message of
          RTaskAccepted taskId \<Rightarrow> handleRunnerAccept taskId b
        | RTaskRejected taskId reason \<Rightarrow> handleRunnerReject taskId b
        | RTaskDeferred taskId \<Rightarrow> handleRunnerDeferred taskId b
        | RTaskOffer taskType oid vf \<Rightarrow>
            taskOffered nanoid now
              \<lparr>offerId = oid, offer_runnerId = runnerId, offer_taskType = taskType, validFor = vf,
               validUntil = (if vf = - 1 then 0 else now + vf * 1000000)\<rparr> b
        | RTaskDone taskId data \<Rightarrow> taskDoneHandler taskId data b
        | RTaskError taskId error \<Rightarrow> taskErrorHandler taskId error b
        | RTaskDataRequest taskId reqId params \<Rightarrow> handleDataRequest taskId reqId params b
        | RNodeTypesRequest taskId reqId params \<Rightarrow> handleNodeTypesRequest taskId reqId params b
        | RRPC taskId callId name params \<Rightarrow> handleRpcRequest taskId callId name params b
        | RInfo \<Rightarrow> b)"

datatype requester_message =
    QTaskSettings string json
  | QTaskCancel string string
  | QTaskRequest string string
  | QTaskDataResponse string string json
  | QNodeTypesResponse string string json
  | QRPCResponse string string string json

text \<open>The request object of a \<open>taskrequest\<close> message is new: \<open>ref\<close> is its identity.\<close>

definition onRequesterMessage ::
  "(nat \<Rightarrow> string) \<Rightarrow> int \<Rightarrow> nat \<Rightarrow> string \<Rightarrow> requester_message \<Rightarrow> TaskBroker \<Rightarrow> TaskBroker" where
  "onRequesterMessage nanoid now ref requesterId message b =
     (case message of
        QTaskSettings taskId settings \<Rightarrow> handleRequesterAccept taskId settings b
      | QTaskCancel taskId reason \<Rightarrow> cancelTask taskId reason b
      | QTaskRequest taskType reqId \<Rightarrow>
          taskRequested nanoid now
            \<lparr>req_ref = ref, requestId = reqId, req_requesterId = requesterId, req_taskType = taskType,
             req_timeout = True, acceptInProgress = False\<rparr> b
      | QTaskDataResponse taskId reqId data \<Rightarrow> handleRequesterDataResponse taskId reqId data b
      | QNodeTypesResponse taskId reqId nodeTypes \<Rightarrow> handleRequesterNodeTypesResponse taskId reqId nodeTypes b
      | QRPCResponse taskId callId status data \<Rightarrow> handleRequesterRpcResponse taskId callId status data b)"

section \<open>What settling does\<close>

lemma messageRunner_simps [simp]:
  "knownRunners (messageRunner i m b) = knownRunners b"
  "requesters (messageRunner i m b) = requesters b"
  "tasks (messageRunner i m b) = tasks b"
  "isDraining (messageRunner i m b) = isDraining b"
  "runnerAcceptRejects (messageRunner i m b) = runnerAcceptRejects b"
  "requesterAcceptRejects (messageRunner i m b) = requesterAcceptRejects b"
  "pendingTaskOffers (messageRunner i m b) = pendingTaskOffers b"
  "pendingTaskRequests (messageRunner i m b) = pendingTaskRequests b"
  "mismatchWarned (messageRunner i m b) = mismatchWarned b"
  "accepting (messageRunner i m b) = accepting b"
  "readying (messageRunner i m b) = readying b"
  "next_id (messageRunner i m b) = next_id b"
  by (simp_all add: messageRunner_def)

lemma messageRequester_simps [simp]:
  "knownRunners (messageRequester i q b) = knownRunners b"
  "requesters (messageRequester i q b) = requesters b"
  "tasks (messageRequester i q b) = tasks b"
  "isDraining (messageRequester i q b) = isDraining b"
  "runnerAcceptRejects (messageRequester i q b) = runnerAcceptRejects b"
  "requesterAcceptRejects (messageRequester i q b) = requesterAcceptRejects b"
  "pendingTaskOffers (messageRequester i q b) = pendingTaskOffers b"
  "pendingTaskRequests (messageRequester i q b) = pendingTaskRequests b"
  "mismatchWarned (messageRequester i q b) = mismatchWarned b"
  "accepting (messageRequester i q b) = accepting b"
  "readying (messageRequester i q b) = readying b"
  "next_id (messageRequester i q b) = next_id b"
  by (simp_all add: messageRequester_def)

lemma warn_simps [simp]:
  "tasks (warnOnTaskTypeMismatch r b) = tasks b"
  "runnerAcceptRejects (warnOnTaskTypeMismatch r b) = runnerAcceptRejects b"
  "requesterAcceptRejects (warnOnTaskTypeMismatch r b) = requesterAcceptRejects b"
  "pendingTaskOffers (warnOnTaskTypeMismatch r b) = pendingTaskOffers b"
  "pendingTaskRequests (warnOnTaskTypeMismatch r b) = pendingTaskRequests b"
  "accepting (warnOnTaskTypeMismatch r b) = accepting b"
  "readying (warnOnTaskTypeMismatch r b) = readying b"
  "next_id (warnOnTaskTypeMismatch r b) = next_id b"
  by (simp_all add: warnOnTaskTypeMismatch_def)

type_synonym suspended = "string \<times> TaskOffer \<times> TaskRequest"

definition refs :: "suspended list \<Rightarrow> nat set" where
  "refs new = set (map (\<lambda>(k, o', q). req_ref q) new)"

definition mark :: "nat set \<Rightarrow> TaskRequest \<Rightarrow> TaskRequest" where
  "mark X r = (if req_ref r \<in> X then r\<lparr>acceptInProgress := True\<rparr> else r)"

lemma req_ref_mark [simp]: "req_ref (mark X r) = req_ref r"
  by (simp add: mark_def)

lemma mark_empty [simp]: "mark {} = id"
  by (auto simp: mark_def)

definition ids_fresh :: "(nat \<Rightarrow> string) \<Rightarrow> TaskBroker \<Rightarrow> bool" where
  "ids_fresh nanoid b \<longleftrightarrow> (\<forall>k\<ge>next_id b. nanoid k \<notin> set (map_keys (accepting b))
     \<and> nanoid k \<notin> set (map_keys (tasks b)) \<and> nanoid k \<notin> set (map_keys (readying b)))"

text \<open>What a settling pass that opened the calls \<open>new\<close> leaves alone and what it adds.\<close>

definition opened :: "(nat \<Rightarrow> string) \<Rightarrow> TaskBroker \<Rightarrow> TaskBroker \<Rightarrow> suspended list \<Rightarrow> bool" where
  "opened nanoid b b' new \<longleftrightarrow>
     accepting b' = accepting b @ new
     \<and> pendingTaskRequests b' = map (mark (refs new)) (pendingTaskRequests b)
     \<and> mset (pendingTaskOffers b) = mset (pendingTaskOffers b') + mset (map (\<lambda>(k, o', q). o') new)
     \<and> set (runnerAcceptRejects b') = set (runnerAcceptRejects b) \<union> set (map fst new)
     \<and> tasks b' = tasks b \<and> readying b' = readying b \<and> requesterAcceptRejects b' = requesterAcceptRejects b
     \<and> ids_fresh nanoid b'"

lemma opened_refl: "ids_fresh nanoid b \<Longrightarrow> opened nanoid b b []"
  by (simp add: opened_def refs_def)

lemma opened_trans:
  assumes "opened nanoid a b new" and "opened nanoid b c new2"
  shows "opened nanoid a c (new @ new2)"
proof -
  have "mark (refs new2) \<circ> mark (refs new) = mark (refs (new @ new2))"
    by (auto simp: mark_def refs_def)
  with assms show ?thesis by (auto simp: opened_def)
qed

lemma settleRequest_open:
  assumes inj: "inj nanoid" and fresh: "ids_fresh nanoid b" and "\<not> acceptInProgress r"
    and k: "findIndex (\<lambda>o'. offer_taskType o' = req_taskType r) (pendingTaskOffers b) = Some k"
  shows "opened nanoid b (settleRequest nanoid r b)
    [(nanoid (next_id b), pendingTaskOffers b ! k, r\<lparr>acceptInProgress := True\<rparr>)]"
proof -
  have less: "k < length (pendingTaskOffers b)" using findIndex_Some[OF k] by simp
  have new: "map_get (accepting b) (nanoid (next_id b)) = None"
    using fresh by (auto simp: ids_fresh_def map_of_eq_None_iff)
  have "nanoid n \<noteq> nanoid (next_id b)" if "Suc (next_id b) \<le> n" for n
    using inj that by (metis injD Suc_n_not_le_n)
  note later = this
  let ?c = "settleRequest nanoid r b"
  have fields: "accepting ?c = accepting b @ [(nanoid (next_id b), pendingTaskOffers b ! k, r\<lparr>acceptInProgress := True\<rparr>)]"
    "pendingTaskRequests ?c = map (mark {req_ref r}) (pendingTaskRequests b)"
    "pendingTaskOffers ?c = removeAt k (pendingTaskOffers b)"
    "runnerAcceptRejects ?c = set_add (nanoid (next_id b)) (runnerAcceptRejects b)"
    "tasks ?c = tasks b" "readying ?c = readying b" "requesterAcceptRejects ?c = requesterAcceptRejects b"
    "next_id ?c = Suc (next_id b)"
    using assms(3) k set_map_set_new[OF new]
    by (simp_all add: settleRequest_def acceptOffer_begin_def set_request_def mark_def Let_def)
  have "ids_fresh nanoid ?c"
    using fresh later unfolding ids_fresh_def fields by (auto dest: Suc_leD)
  with fields mset_removeAt[OF less] show ?thesis by (simp add: opened_def refs_def)
qed

definition served :: "suspended \<Rightarrow> TaskOffer list \<Rightarrow> TaskRequest list \<Rightarrow> bool" where
  "served call offers requests =
     (case call of (k, o', q) \<Rightarrow> o' \<in> set offers \<and> offer_taskType o' = req_taskType q
        \<and> (\<exists>r\<in>set requests. \<not> acceptInProgress r \<and> q = r\<lparr>acceptInProgress := True\<rparr>))"

lemma opened_offers: "opened nanoid b b' new \<Longrightarrow> set (pendingTaskOffers b') \<subseteq> set (pendingTaskOffers b)"
  by (metis opened_def set_mset_mset set_mset_union Un_upper1)

lemma settle_loop:
  assumes "inj nanoid" and "ids_fresh nanoid b"
  shows "\<exists>new. opened nanoid b (fold (settleRequest nanoid) rs b) new
    \<and> (\<forall>call\<in>set new. served call (pendingTaskOffers b) rs)
    \<and> (\<forall>r\<in>set rs. acceptInProgress r \<or> req_ref r \<in> refs new
         \<or> (\<forall>o'\<in>set (pendingTaskOffers (fold (settleRequest nanoid) rs b)). offer_taskType o' \<noteq> req_taskType r))"
  using assms(2)
proof (induction rs arbitrary: b)
  case Nil
  then show ?case by (intro exI[of _ "[]"]) (simp add: opened_refl)
next
  case (Cons r rs)
  let ?b1 = "settleRequest nanoid r b"
  obtain new1 where n1: "opened nanoid b ?b1 new1" "\<forall>call\<in>set new1. served call (pendingTaskOffers b) [r]"
    "acceptInProgress r \<or> req_ref r \<in> refs new1 \<or> (\<forall>o'\<in>set (pendingTaskOffers ?b1). offer_taskType o' \<noteq> req_taskType r)"
  proof (cases "acceptInProgress r")
    case True
    with Cons.prems show ?thesis
      by (intro that[of "[]"]) (auto simp: settleRequest_def opened_refl)
  next
    case False
    show ?thesis
    proof (cases "findIndex (\<lambda>o'. offer_taskType o' = req_taskType r) (pendingTaskOffers b)")
      case None
      have "opened nanoid b (warnOnTaskTypeMismatch r b) []"
        using Cons.prems by (simp add: opened_def ids_fresh_def refs_def)
      moreover have "settleRequest nanoid r b = warnOnTaskTypeMismatch r b"
        using None False by (simp add: settleRequest_def)
      moreover have "\<forall>o'\<in>set (pendingTaskOffers b). offer_taskType o' \<noteq> req_taskType r"
        using None by (simp add: findIndex_None)
      ultimately show ?thesis by (intro that[of "[]"]) auto
    next
      case (Some k)
      note o = settleRequest_open[OF assms(1) Cons.prems False Some]
      from findIndex_Some[OF Some] False
      have "served (nanoid (next_id b), pendingTaskOffers b ! k, r\<lparr>acceptInProgress := True\<rparr>) (pendingTaskOffers b) [r]"
        by (auto simp: served_def)
      with o show ?thesis by (intro that[OF o]) (auto simp: refs_def)
    qed
  qed
  from n1(1) have "ids_fresh nanoid ?b1" by (simp add: opened_def)
  from Cons.IH[OF this] obtain new2 where n2: "opened nanoid ?b1 (fold (settleRequest nanoid) rs ?b1) new2"
    "\<forall>call\<in>set new2. served call (pendingTaskOffers ?b1) rs"
    "\<forall>r\<in>set rs. acceptInProgress r \<or> req_ref r \<in> refs new2
       \<or> (\<forall>o'\<in>set (pendingTaskOffers (fold (settleRequest nanoid) rs ?b1)). offer_taskType o' \<noteq> req_taskType r)"
    by blast
  have sub: "set (pendingTaskOffers ?b1) \<subseteq> set (pendingTaskOffers b)"
    "set (pendingTaskOffers (fold (settleRequest nanoid) rs ?b1)) \<subseteq> set (pendingTaskOffers ?b1)"
    using opened_offers[OF n1(1)] opened_offers[OF n2(1)] .
  have "\<forall>call\<in>set (new1 @ new2). served call (pendingTaskOffers b) (r # rs)"
    using n1(2) n2(2) sub(1) by (fastforce simp: served_def)
  moreover have "refs (new1 @ new2) = refs new1 \<union> refs new2" by (simp add: refs_def)
  ultimately show ?case
    using opened_trans[OF n1(1) n2(1)] n1(3) n2(3) sub(2) by (intro exI[of _ "new1 @ new2"]) auto
qed

lemma ids_fresh_expire [simp]: "ids_fresh nanoid (expireTasks now b) = ids_fresh nanoid b"
  by (simp add: ids_fresh_def expireTasks_def)

definition unexpired :: "int \<Rightarrow> TaskOffer list \<Rightarrow> TaskOffer list" where
  "unexpired now offers = filter (\<lambda>o'. validFor o' = - 1 \<or> now \<le> validUntil o') offers"

lemma expireTasks_unexpired: "pendingTaskOffers (expireTasks now b) = unexpired now (pendingTaskOffers b)"
  by (simp add: expireTasks_def unexpired_def not_less)

text \<open>\<^bold>\<open>C13.\<close> With distinct task ids, \<open>settleTasks\<close> matches offers and requests soundly and
  completely.  It drops exactly the expired offers; every offer it takes goes to one request of
  the same task type that was pending and not being served; the remaining offers and the taken
  ones are the unexpired offers; requests stay in their place, with the served ones marked; and no
  unserved request is left for which an offer of its type is still pending.\<close>

theorem settleTasks_correct:
  assumes "inj nanoid" and "ids_fresh nanoid b"
  shows "\<exists>new. accepting (settleTasks nanoid now b) = accepting b @ new
    \<and> (\<forall>call\<in>set new. served call (unexpired now (pendingTaskOffers b)) (pendingTaskRequests b))
    \<and> mset (unexpired now (pendingTaskOffers b))
        = mset (pendingTaskOffers (settleTasks nanoid now b)) + mset (map (\<lambda>(k, o', q). o') new)
    \<and> pendingTaskRequests (settleTasks nanoid now b) = map (mark (refs new)) (pendingTaskRequests b)
    \<and> (\<forall>r\<in>set (pendingTaskRequests (settleTasks nanoid now b)). acceptInProgress r
        \<or> (\<forall>o'\<in>set (pendingTaskOffers (settleTasks nanoid now b)). offer_taskType o' \<noteq> req_taskType r))"
proof -
  let ?b1 = "expireTasks now b"
  have e: "settleTasks nanoid now b = fold (settleRequest nanoid) (pendingTaskRequests b) ?b1"
    by (simp add: settleTasks_def expireTasks_def)
  have f: "pendingTaskRequests ?b1 = pendingTaskRequests b" "accepting ?b1 = accepting b"
    by (simp_all add: expireTasks_def)
  have "ids_fresh nanoid ?b1" using assms(2) by simp
  from settle_loop[OF assms(1) this, of "pendingTaskRequests b", folded e] obtain new where
    o: "opened nanoid ?b1 (settleTasks nanoid now b) new"
    and v: "\<forall>call\<in>set new. served call (pendingTaskOffers ?b1) (pendingTaskRequests b)"
    and m: "\<forall>r\<in>set (pendingTaskRequests b). acceptInProgress r \<or> req_ref r \<in> refs new
        \<or> (\<forall>o'\<in>set (pendingTaskOffers (settleTasks nanoid now b)). offer_taskType o' \<noteq> req_taskType r)"
    by blast
  have "\<forall>r\<in>set (map (mark (refs new)) (pendingTaskRequests b)). acceptInProgress r
        \<or> (\<forall>o'\<in>set (pendingTaskOffers (settleTasks nanoid now b)). offer_taskType o' \<noteq> req_taskType r)"
    using m by (auto simp: mark_def)
  with o v show ?thesis
    unfolding opened_def f expireTasks_unexpired by (intro exI[of _ new]) simp
qed

definition empty_broker :: TaskBroker where
  "empty_broker = \<lparr>knownRunners = [], requesters = [], tasks = [], isDraining = False,
     runnerAcceptRejects = [], requesterAcceptRejects = [], pendingTaskOffers = [],
     pendingTaskRequests = [], mismatchWarned = [], accepting = [], readying = [], next_id = 0, outbox = []\<rparr>"

definition js_offer :: "string \<Rightarrow> TaskOffer" where
  "js_offer i = \<lparr>offerId = i, offer_runnerId = ''runner'', offer_taskType = ''javascript'', validFor = - 1, validUntil = 0\<rparr>"

definition js_request :: "nat \<Rightarrow> string \<Rightarrow> TaskRequest" where
  "js_request r i = \<lparr>req_ref = r, requestId = i, req_requesterId = ''main'', req_taskType = ''javascript'',
     req_timeout = True, acceptInProgress = False\<rparr>"

definition one_of_each :: TaskBroker where
  "one_of_each = empty_broker\<lparr>pendingTaskOffers := [js_offer ''o1''],
     pendingTaskRequests := [js_request 1 ''r1'', js_request 2 ''r2'']\<rparr>"

theorem settleTasks_correct_witness:
  "inj nat_to_string \<and> ids_fresh nat_to_string one_of_each
   \<and> (\<exists>new. accepting (settleTasks nat_to_string 5 one_of_each) = accepting one_of_each @ new
       \<and> mset (unexpired 5 [js_offer ''o1''])
          = mset (pendingTaskOffers (settleTasks nat_to_string 5 one_of_each)) + mset (map (\<lambda>(k, o', q). o') new))"
proof -
  have i: "inj nat_to_string" by (simp add: inj_def)
  have f: "ids_fresh nat_to_string one_of_each" by (simp add: ids_fresh_def one_of_each_def empty_broker_def)
  have "pendingTaskOffers one_of_each = [js_offer ''o1'']" by (simp add: one_of_each_def)
  with settleTasks_correct[OF i f, of 5] i f show ?thesis by auto
qed

section \<open>The invariant of the broker\<close>

text \<open>\<open>requestId\<close>s are unique while a request is pending or being accepted, and a request is
  marked \<open>acceptInProgress\<close> exactly when a suspended call holds it.\<close>

definition calls_ok :: "suspended list \<Rightarrow> string set \<Rightarrow> TaskRequest list \<Rightarrow> bool" where
  "calls_ok A X P \<longleftrightarrow>
     map_wf A \<and> set (map_keys A) \<subseteq> X \<and> distinct (map (\<lambda>(k, o', q). req_ref q) A)
     \<and> (\<forall>(k, o', q)\<in>set A. offer_taskType o' = req_taskType q)
     \<and> distinct (map req_ref P) \<and> distinct (map requestId P)
     \<and> (\<forall>r\<in>set P. acceptInProgress r \<longleftrightarrow> req_ref r \<in> refs A)
     \<and> (\<forall>r\<in>set P. \<forall>(k, o', q)\<in>set A. req_ref r = req_ref q \<longleftrightarrow> requestId r = requestId q)"

definition broker_ok :: "(nat \<Rightarrow> string) \<Rightarrow> TaskBroker \<Rightarrow> bool" where
  "broker_ok nanoid b \<longleftrightarrow>
     ids_fresh nanoid b \<and> calls_ok (accepting b) (set (runnerAcceptRejects b)) (pendingTaskRequests b)
     \<and> map_wf (tasks b) \<and> (\<forall>(k, t)\<in>set (tasks b). task_id t = k)"

lemma calls_ok_filter: "calls_ok A X P \<Longrightarrow> calls_ok A X (filter Q P)"
  by (auto simp: calls_ok_def distinct_map_filter)

lemma calls_ok_map:
  assumes "calls_ok A X P"
    and "\<And>r. req_ref (g r) = req_ref r \<and> requestId (g r) = requestId r \<and> acceptInProgress (g r) = acceptInProgress r"
  shows "calls_ok A X (map g P)"
proof -
  have "req_ref \<circ> g = req_ref" "requestId \<circ> g = requestId" using assms(2) by auto
  with assms show ?thesis by (auto simp: calls_ok_def case_prod_unfold)
qed

lemma calls_ok_new:
  assumes "calls_ok A X P" and "req_ref r \<notin> refs A \<union> req_ref ` set P"
    and "requestId r \<notin> requestId ` set P" and "\<forall>(k, o', q)\<in>set A. requestId r \<noteq> requestId q"
    and "\<not> acceptInProgress r"
  shows "calls_ok A X (P @ [r])"
proof -
  have "\<forall>(k, o', q)\<in>set A. req_ref r \<noteq> req_ref q" using assms(2) by (force simp: refs_def)
  with assms show ?thesis by (auto simp: calls_ok_def)
qed

lemma calls_ok_grow: "calls_ok A X P \<Longrightarrow> X \<subseteq> Y \<Longrightarrow> calls_ok A Y P"
  by (auto simp: calls_ok_def)

lemma refs_delete:
  assumes "calls_ok A X P" and "map_get A k = Some (o', q)"
  shows "refs (map_delete k A) = refs A - {req_ref q}"
    and "set (map_delete k A) = set A - {(k, o', q)}"
proof -
  have wf: "map_wf A" and d: "distinct (map (\<lambda>(k, o', q). req_ref q) A)" using assms(1) by (simp_all add: calls_ok_def)
  have mem: "(k, o', q) \<in> set A" using assms(2) by (rule map_of_SomeD)
  show s: "set (map_delete k A) = set A - {(k, o', q)}"
    using wf mem by (auto simp: set_map_delete) (metis assms(2) map_of_is_SomeI option.inject prod.inject)+
  have "inj_on (\<lambda>(k, o', q). req_ref q) (set A)" using d by (simp add: distinct_map)
  then show "refs (map_delete k A) = refs A - {req_ref q}"
    unfolding refs_def set_map s using mem by (subst inj_on_image_set_diff) auto
qed

lemma calls_ok_delete:
  assumes "calls_ok A X P" and "map_get A k = Some (o', q)"
    and "distinct (map req_ref P')" and "distinct (map requestId P')"
    and P': "\<And>r. r \<in> set P' \<Longrightarrow> \<exists>r0\<in>set P. req_ref r = req_ref r0 \<and> requestId r = requestId r0
        \<and> acceptInProgress r = (acceptInProgress r0 \<and> req_ref r0 \<noteq> req_ref q)"
    and "set (map_keys (map_delete k A)) \<subseteq> Y"
  shows "calls_ok (map_delete k A) Y P'"
proof -
  note del = refs_delete[OF assms(1,2)]
  have "distinct (map (\<lambda>(k, o', q). req_ref q) (map_delete k A))"
    using assms(1) by (auto simp: calls_ok_def AList.delete_eq distinct_map_filter)
  moreover have "acceptInProgress r \<longleftrightarrow> req_ref r \<in> refs (map_delete k A)" if "r \<in> set P'" for r
    using P'[OF that] assms(1) by (auto simp: del(1) calls_ok_def)
  moreover have "\<forall>(k, o', q)\<in>set (map_delete k A). req_ref r = req_ref q \<longleftrightarrow> requestId r = requestId q" if "r \<in> set P'" for r
    using P'[OF that] assms(1) unfolding del(2) by (fastforce simp: calls_ok_def)
  ultimately show ?thesis
    using assms(1,3,4,6) unfolding calls_ok_def del(2) by (auto simp: distinct_delete)
qed

lemma removeAt_filter:
  "distinct (map f xs) \<Longrightarrow> findIndex (\<lambda>x. f x = v) xs = Some i \<Longrightarrow> removeAt i xs = filter (\<lambda>x. f x \<noteq> v) xs"
proof (induction xs arbitrary: i)
  case Nil
  then show ?case by simp
next
  case (Cons x xs)
  show ?case
  proof (cases "f x = v")
    case True
    have "filter (\<lambda>x. f x \<noteq> v) xs = xs"
      using Cons.prems(1) True by (intro filter_True) (metis image_eqI distinct.simps(2) list.map(2) set_map)
    with True Cons.prems show ?thesis by simp
  next
    case False
    with Cons.prems obtain k where "findIndex (\<lambda>x. f x = v) xs = Some k" "i = Suc k" by auto
    with Cons False show ?thesis by simp
  qed
qed

text \<open>Operations that touch none of the fields of the invariant, or only drop tasks.\<close>

lemma broker_ok_cong:
  assumes "accepting c = accepting b" and "runnerAcceptRejects c = runnerAcceptRejects b"
    and "pendingTaskRequests c = pendingTaskRequests b" and "next_id c = next_id b"
    and "\<exists>P. tasks c = filter P (tasks b)" and "set (readying c) \<subseteq> set (readying b)" and "broker_ok nanoid b"
  shows "broker_ok nanoid c"
proof -
  from assms(5) have t: "set (tasks c) \<subseteq> set (tasks b)" "map_wf (tasks b) \<Longrightarrow> map_wf (tasks c)"
    by (auto intro: distinct_map_filter)
  have "set (map fst (tasks c)) \<subseteq> set (map fst (tasks b))" "set (map fst (readying c)) \<subseteq> set (map fst (readying b))"
    using t(1) assms(6) by auto
  with assms(1,4,7) have "ids_fresh nanoid c" unfolding broker_ok_def ids_fresh_def by (metis subsetD)
  with assms(1-3,7) t show ?thesis unfolding broker_ok_def by (metis (no_types, lifting) subsetD)
qed

lemma set_map_delete_subset: "set (map_delete k m) \<subseteq> set m"
  by (auto simp: set_map_delete)

lemma cancelTask_keeps:
  "accepting (cancelTask i m b) = accepting b" "runnerAcceptRejects (cancelTask i m b) = runnerAcceptRejects b"
  "pendingTaskRequests (cancelTask i m b) = pendingTaskRequests b" "next_id (cancelTask i m b) = next_id b"
  "\<exists>P. tasks (cancelTask i m b) = filter P (tasks b)" "readying (cancelTask i m b) = readying b"
  by (auto simp: AList.delete_eq cancelTask_def intro: exI[of _ "\<lambda>x. True"] split: option.splits)

lemma failTask_keeps:
  "accepting (failTask i e b) = accepting b" "runnerAcceptRejects (failTask i e b) = runnerAcceptRejects b"
  "pendingTaskRequests (failTask i e b) = pendingTaskRequests b" "next_id (failTask i e b) = next_id b"
  "\<exists>P. tasks (failTask i e b) = filter P (tasks b)" "readying (failTask i e b) = readying b"
  by (auto simp: AList.delete_eq failTask_def intro: exI[of _ "\<lambda>x. True"] split: option.splits)

lemma endTask_keeps:
  "accepting (endTask i q b) = accepting b" "runnerAcceptRejects (endTask i q b) = runnerAcceptRejects b"
  "pendingTaskRequests (endTask i q b) = pendingTaskRequests b" "next_id (endTask i q b) = next_id b"
  "\<exists>P. tasks (endTask i q b) = filter P (tasks b)" "readying (endTask i q b) = readying b"
  by (auto simp: AList.delete_eq endTask_def Let_def intro: exI[of _ "\<lambda>x. True"] split: option.splits)

lemma broker_ok_messageRunner [simp]: "broker_ok nanoid (messageRunner i m b) = broker_ok nanoid b"
  by (simp add: broker_ok_def ids_fresh_def)

lemma broker_ok_messageRequester [simp]: "broker_ok nanoid (messageRequester i q b) = broker_ok nanoid b"
  by (simp add: broker_ok_def ids_fresh_def)

lemma broker_ok_cancelTask: "broker_ok nanoid b \<Longrightarrow> broker_ok nanoid (cancelTask i m b)"
  by (rule broker_ok_cong[of _ b]) (simp_all add: cancelTask_keeps)

lemma broker_ok_failTask: "broker_ok nanoid b \<Longrightarrow> broker_ok nanoid (failTask i e b)"
  by (rule broker_ok_cong[of _ b]) (simp_all add: failTask_keeps)

lemma broker_ok_endTask: "broker_ok nanoid b \<Longrightarrow> broker_ok nanoid (endTask i q b)"
  by (rule broker_ok_cong[of _ b]) (simp_all add: endTask_keeps)

lemma broker_ok_getRunner: "broker_ok nanoid b \<Longrightarrow> broker_ok nanoid (fst (getRunnerOrFailTask i b))"
  by (simp add: getRunnerOrFailTask_def broker_ok_failTask split: option.split)

lemma broker_ok_answerRunner: "broker_ok nanoid b \<Longrightarrow> broker_ok nanoid (answerRunner i m b)"
  using broker_ok_getRunner[of nanoid b i] by (auto simp: answerRunner_def split: prod.splits option.splits)

lemma broker_ok_askRequester: "broker_ok nanoid b \<Longrightarrow> broker_ok nanoid (askRequester i q b)"
  by (simp add: askRequester_def split: option.split)

lemma update_values_id:
  "\<forall>(k, t)\<in>set m. task_id t = k \<Longrightarrow> task_id v = i \<Longrightarrow> \<forall>(k, t)\<in>set (map_set i v m). task_id t = k"
  by (induction m) (auto split: if_splits)

lemma broker_ok_sendTaskSettings:
  assumes "broker_ok nanoid b"
  shows "broker_ok nanoid (sendTaskSettings i st b)"
proof (cases "map_get (tasks b) i")
  case None
  with assms show ?thesis by (simp add: sendTaskSettings_def)
next
  case (Some task)
  then have mem: "(i, task) \<in> set (tasks b)" by (rule map_of_SomeD)
  then have "task_id task = i" using assms by (auto simp: broker_ok_def)
  show ?thesis
  proof (cases "map_get (knownRunners b) (task_runnerId task)")
    case None
    with Some assms show ?thesis
      by (simp add: sendTaskSettings_def getRunnerOrFailTask_def broker_ok_failTask)
  next
    case (Some runner)
    let ?t = "map_set i (task\<lparr>task_timeout := True\<rparr>) (tasks b)"
    have keys: "set (map_keys ?t) = set (map_keys (tasks b))" using mem by (force simp: dom_update)
    have "snd ` set ?t \<subseteq> insert (task\<lparr>task_timeout := True\<rparr>) (snd ` set (tasks b))" by (rule map_values_set_subset)
    have "\<forall>(k, t)\<in>set ?t. task_id t = k"
      using assms \<open>task_id task = i\<close> unfolding broker_ok_def by (intro update_values_id) auto
    then have "broker_ok nanoid (b\<lparr>tasks := ?t\<rparr>)"
      using assms keys by (simp add: broker_ok_def ids_fresh_def)
    with Some \<open>map_get (tasks b) i = Some task\<close> show ?thesis
      by (simp add: sendTaskSettings_def getRunnerOrFailTask_def)
  qed
qed

lemma broker_ok_readying: "broker_ok nanoid b \<Longrightarrow> broker_ok nanoid (b\<lparr>readying := map_delete i (readying b)\<rparr>)"
  by (rule broker_ok_cong[of _ b]) (auto simp: set_map_delete intro: exI[of _ "\<lambda>x. True"])

lemma broker_ok_requesterAcceptRejects [simp]:
  "broker_ok nanoid (b\<lparr>requesterAcceptRejects := x\<rparr>) = broker_ok nanoid b"
  by (simp add: broker_ok_def ids_fresh_def)

lemma broker_ok_requester:
  assumes "broker_ok nanoid b"
  shows "broker_ok nanoid (handleRequesterAccept i st b)" and "broker_ok nanoid (handleRequesterReject i m b)"
    and "broker_ok nanoid (requesterTimeout i b)"
  using assms broker_ok_readying[of nanoid "b\<lparr>requesterAcceptRejects := _\<rparr>" i] broker_ok_readying[OF assms, of i]
  by (auto simp: handleRequesterAccept_def handleRequesterReject_def requesterTimeout_def Let_def
      intro!: broker_ok_sendTaskSettings broker_ok_cancelTask split: option.splits)

text \<open>The continuations of the first suspended promise.\<close>

lemma broker_ok_drop_call:
  assumes ok: "broker_ok nanoid b" and call: "map_get (accepting b) k = Some (o', q)"
    and c: "accepting c = map_delete k (accepting b)" "next_id c = next_id b"
      "set (map_keys (accepting c)) \<subseteq> set (runnerAcceptRejects c)"
      "set (map_keys (readying c)) \<subseteq> insert k (set (map_keys (readying b)))"
      "set (map_keys (tasks c)) \<subseteq> insert k (set (map_keys (tasks b)))"
      "\<forall>(j, t)\<in>set (tasks c). task_id t = j" "map_wf (tasks c)"
    and d: "distinct (map req_ref (pendingTaskRequests c))" "distinct (map requestId (pendingTaskRequests c))"
    and P': "\<And>r. r \<in> set (pendingTaskRequests c) \<Longrightarrow> \<exists>r0\<in>set (pendingTaskRequests b).
        req_ref r = req_ref r0 \<and> requestId r = requestId r0
        \<and> acceptInProgress r = (acceptInProgress r0 \<and> req_ref r0 \<noteq> req_ref q)"
  shows "broker_ok nanoid c"
proof -
  have calls: "calls_ok (accepting b) (set (runnerAcceptRejects b)) (pendingTaskRequests b)"
    using ok by (simp add: broker_ok_def)
  have "calls_ok (accepting c) (set (runnerAcceptRejects c)) (pendingTaskRequests c)"
    unfolding c(1) using calls_ok_delete[OF calls call d P'] c(1,3) by simp
  moreover have "ids_fresh nanoid c"
  proof -
    have k: "k \<in> set (map fst (accepting b))" using map_of_SomeD[OF call] by force
    have sub: "set (map fst (accepting c)) \<subseteq> set (map fst (accepting b))"
      unfolding c(1) by (auto simp: set_map_delete)
    have old: "nanoid n \<notin> set (map fst (accepting b)) \<and> nanoid n \<notin> set (map fst (tasks b))
        \<and> nanoid n \<notin> set (map fst (readying b))" if "next_id b \<le> n" for n
      using ok that by (simp add: broker_ok_def ids_fresh_def)
    have "nanoid n \<notin> set (map fst (accepting c)) \<and> nanoid n \<notin> set (map fst (tasks c))
        \<and> nanoid n \<notin> set (map fst (readying c))" if "next_id c \<le> n" for n
    proof -
      from old[of n] that c(2) have o: "nanoid n \<notin> set (map fst (accepting b))"
        "nanoid n \<notin> set (map fst (tasks b))" "nanoid n \<notin> set (map fst (readying b))" by simp_all
      with k have "nanoid n \<noteq> k" by blast
      with o sub c(4,5) show ?thesis by blast
    qed
    then show ?thesis unfolding ids_fresh_def by blast
  qed
  ultimately show ?thesis using c(6,7) by (simp add: broker_ok_def)
qed

lemma set_request_simps [simp]:
  "accepting (set_request i f b) = accepting b" "next_id (set_request i f b) = next_id b"
  "runnerAcceptRejects (set_request i f b) = runnerAcceptRejects b" "readying (set_request i f b) = readying b"
  "requesterAcceptRejects (set_request i f b) = requesterAcceptRejects b" "tasks (set_request i f b) = tasks b"
  "pendingTaskOffers (set_request i f b) = pendingTaskOffers b"
  by (simp_all add: set_request_def)

lemma keys_delete_subset: "set (map_keys (map_delete k A)) \<subseteq> set (map_keys A) - {k}"
  by (auto simp: set_map_delete)

definition reopened :: "reject_reason \<Rightarrow> TaskRequest \<Rightarrow> TaskRequest" where
  "reopened reason r = (if reason = TaskDeferredError then r\<lparr>acceptInProgress := False, req_timeout := True\<rparr>
     else r\<lparr>acceptInProgress := False\<rparr>)"

lemma broker_ok_rejected:
  assumes ok: "broker_ok nanoid b" and call: "map_get (accepting b) k = Some (o', q)"
    and c: "c = b\<lparr>runnerAcceptRejects := X, accepting := map_delete k (accepting b)\<rparr>"
    and X: "set (runnerAcceptRejects b) - {k} \<subseteq> set X"
  shows "broker_ok nanoid (acceptOffer_rejected q reason c)"
proof (rule broker_ok_drop_call[OF ok call])
  let ?f = "\<lambda>r. if req_ref r = req_ref q then reopened reason r else r"
  have p: "pendingTaskRequests (acceptOffer_rejected q reason c) = map ?f (pendingTaskRequests b)"
    by (simp add: acceptOffer_rejected_def set_request_def c reopened_def Let_def)
  have f: "req_ref (?f r) = req_ref r" "requestId (?f r) = requestId r"
    "acceptInProgress (?f r) = (acceptInProgress r \<and> req_ref r \<noteq> req_ref q)" for r
    by (simp_all add: reopened_def)
  have c': "req_ref \<circ> ?f = req_ref" "requestId \<circ> ?f = requestId" using f(1,2) by (simp_all add: comp_def)
  have d: "distinct (map req_ref (pendingTaskRequests b))" "distinct (map requestId (pendingTaskRequests b))"
    using ok by (simp_all add: broker_ok_def calls_ok_def)
  show "distinct (map req_ref (pendingTaskRequests (acceptOffer_rejected q reason c)))"
    and "distinct (map requestId (pendingTaskRequests (acceptOffer_rejected q reason c)))"
    unfolding p map_map c' using d by simp_all
  show "\<exists>r0\<in>set (pendingTaskRequests b). req_ref r = req_ref r0 \<and> requestId r = requestId r0
      \<and> acceptInProgress r = (acceptInProgress r0 \<and> req_ref r0 \<noteq> req_ref q)"
    if "r \<in> set (pendingTaskRequests (acceptOffer_rejected q reason c))" for r
  proof -
    from that obtain r0 where "r0 \<in> set (pendingTaskRequests b)" "r = ?f r0" unfolding p by auto
    with f[of r0] show ?thesis by blast
  qed
  have "set (map_keys (accepting b)) \<subseteq> set (runnerAcceptRejects b)" using ok by (simp add: broker_ok_def calls_ok_def)
  with X keys_delete_subset[of k "accepting b"]
  show "set (map_keys (accepting (acceptOffer_rejected q reason c))) \<subseteq> set (runnerAcceptRejects (acceptOffer_rejected q reason c))"
    by (auto simp: acceptOffer_rejected_def c)
qed (use ok in \<open>auto simp: acceptOffer_rejected_def c broker_ok_def\<close>)

lemma broker_ok_rejects:
  assumes "broker_ok nanoid b"
  shows "broker_ok nanoid (rejectRunner k reason b)" and "broker_ok nanoid (acceptTimeout k b)"
proof -
  have drop: "broker_ok nanoid (b\<lparr>runnerAcceptRejects := set_delete k (runnerAcceptRejects b)\<rparr>)"
    if "map_get (accepting b) k = None"
    using assms that by (auto simp: broker_ok_def calls_ok_def ids_fresh_def map_of_eq_None_iff)
  show "broker_ok nanoid (rejectRunner k reason b)"
    using assms drop broker_ok_rejected[OF assms _ refl, of k _ _ "set_delete k (runnerAcceptRejects b)" reason]
    by (auto simp: rejectRunner_def Let_def split: option.splits)
  show "broker_ok nanoid (acceptTimeout k b)"
    using assms broker_ok_rejected[OF assms _ refl, of k _ _ "runnerAcceptRejects b" TaskRunnerAcceptTimeoutError]
    by (auto simp: acceptTimeout_def split: option.splits)
qed

lemma accepted_fields:
  "accepting (acceptOffer_accepted k o' q b) = accepting b"
  "next_id (acceptOffer_accepted k o' q b) = next_id b"
  "runnerAcceptRejects (acceptOffer_accepted k o' q b) = runnerAcceptRejects b"
  "tasks (acceptOffer_accepted k o' q b) = map_set k \<lparr>task_id = k, task_runnerId = offer_runnerId o',
     task_requesterId = req_requesterId q, task_type = offer_taskType o', task_timeout = False\<rparr> (tasks b)"
  "readying (acceptOffer_accepted k o' q b) = readying b
     \<or> readying (acceptOffer_accepted k o' q b) = map_set k q (readying b)"
  by (simp_all add: acceptOffer_accepted_def Let_def split: option.split)

lemma accepted_pending:
  assumes "distinct (map requestId (pendingTaskRequests b))"
  shows "pendingTaskRequests (acceptOffer_accepted k o' q b) = filter (\<lambda>r. requestId r \<noteq> requestId q)
    (map (\<lambda>r. if req_ref r = req_ref q then r\<lparr>req_timeout := False\<rparr> else r) (pendingTaskRequests b))"
proof -
  let ?P = "map (\<lambda>r. if req_ref r = req_ref q then r\<lparr>req_timeout := False\<rparr> else r) (pendingTaskRequests b)"
  have "requestId \<circ> (\<lambda>r :: TaskRequest. if req_ref r = req_ref q then r\<lparr>req_timeout := False\<rparr> else r) = requestId" by auto
  with assms have d: "distinct (map requestId ?P)" by (simp only: map_map)
  have "pendingTaskRequests (acceptOffer_accepted k o' q b)
      = (case findIndex (\<lambda>r. requestId r = requestId q) ?P of None \<Rightarrow> ?P | Some i \<Rightarrow> removeAt i ?P)"
    by (simp add: acceptOffer_accepted_def set_request_def Let_def split: option.split)
  also have "\<dots> = filter (\<lambda>r. requestId r \<noteq> requestId q) ?P"
  proof (cases "findIndex (\<lambda>r. requestId r = requestId q) ?P")
    case None
    then have "\<forall>r\<in>set ?P. requestId r \<noteq> requestId q" by (simp only: findIndex_None)
    with None show ?thesis by (simp only: option.case filter_True)
  next
    case (Some i)
    from removeAt_filter[OF d Some] Some show ?thesis by (simp only: option.case)
  qed
  finally show ?thesis .
qed

lemma broker_ok_accept:
  assumes ok: "broker_ok nanoid b"
  shows "broker_ok nanoid (handleRunnerAccept k b)"
proof (cases "k \<in> set (runnerAcceptRejects b)")
  case False
  with ok show ?thesis by (simp add: handleRunnerAccept_def)
next
  case known: True
  let ?X = "set_delete k (runnerAcceptRejects b)"
  show ?thesis
  proof (cases "map_get (accepting b) k")
    case None
    then have "handleRunnerAccept k b = b\<lparr>runnerAcceptRejects := ?X\<rparr>"
      using known by (simp add: handleRunnerAccept_def)
    with ok None show ?thesis
      by (auto simp: broker_ok_def calls_ok_def ids_fresh_def map_of_eq_None_iff)
  next
    case (Some call)
    obtain o' q where call: "call = (o', q)" by (cases call)
    let ?c = "handleRunnerAccept k b"
    let ?g = "\<lambda>r. if req_ref r = req_ref q then r\<lparr>req_timeout := False\<rparr> else r"
    let ?P = "map ?g (pendingTaskRequests b)"
    let ?task = "\<lparr>task_id = k, task_runnerId = offer_runnerId o', task_requesterId = req_requesterId q,
        task_type = offer_taskType o', task_timeout = False\<rparr>"
    have calls: "calls_ok (accepting b) (set (runnerAcceptRejects b)) (pendingTaskRequests b)"
      and ids: "\<forall>(k, t)\<in>set (tasks b). task_id t = k" using ok by (simp_all add: broker_ok_def)
    have P: "calls_ok (accepting b) (set (runnerAcceptRejects b)) ?P"
      using calls by (rule calls_ok_map) simp
    have fields: "accepting ?c = map_delete k (accepting b)" "next_id ?c = next_id b"
        "runnerAcceptRejects ?c = ?X" "tasks ?c = map_set k ?task (tasks b)"
        "readying ?c = readying b \<or> readying ?c = map_set k q (readying b)"
        "pendingTaskRequests ?c = filter (\<lambda>r. requestId r \<noteq> requestId q) ?P"
    proof -
      let ?b1 = "b\<lparr>runnerAcceptRejects := ?X, accepting := map_delete k (accepting b)\<rparr>"
      have e: "?c = acceptOffer_accepted k o' q ?b1"
        using known Some call by (simp add: handleRunnerAccept_def)
      show "accepting ?c = map_delete k (accepting b)" "next_id ?c = next_id b"
        "runnerAcceptRejects ?c = ?X" "tasks ?c = map_set k ?task (tasks b)"
        unfolding e by (simp_all add: accepted_fields(1-4))
      show "readying ?c = readying b \<or> readying ?c = map_set k q (readying b)"
        unfolding e using accepted_fields(5)[of k o' q ?b1] by simp
      have "distinct (map requestId (pendingTaskRequests b))" using calls by (simp add: calls_ok_def)
      then show "pendingTaskRequests ?c = filter (\<lambda>r. requestId r \<noteq> requestId q) ?P"
        unfolding e by (simp add: accepted_pending)
    qed
    show ?thesis
    proof (rule broker_ok_drop_call[OF ok Some[unfolded call]])
      show "distinct (map req_ref (pendingTaskRequests ?c))" "distinct (map requestId (pendingTaskRequests ?c))"
        using calls_ok_filter[OF P, of "\<lambda>r. requestId r \<noteq> requestId q"] unfolding fields(6)
        by (simp_all only: calls_ok_def)
      show "\<exists>r0\<in>set (pendingTaskRequests b). req_ref r = req_ref r0 \<and> requestId r = requestId r0
          \<and> acceptInProgress r = (acceptInProgress r0 \<and> req_ref r0 \<noteq> req_ref q)"
        if r: "r \<in> set (pendingTaskRequests ?c)" for r
      proof -
        from r obtain r0 where r0: "r0 \<in> set (pendingTaskRequests b)" "r = ?g r0" "requestId r0 \<noteq> requestId q"
          unfolding fields(6) by auto
        from map_of_SomeD[OF Some] calls r0(1,3) have "req_ref r0 \<noteq> req_ref q"
          by (fastforce simp: calls_ok_def call)
        with r0 show ?thesis by auto
      qed
      show "\<forall>(j, t)\<in>set (tasks ?c). task_id t = j" unfolding fields(4) using ids by (rule update_values_id) simp
      have "set (map_keys (accepting b)) \<subseteq> set (runnerAcceptRejects b)" using calls by (simp add: calls_ok_def)
      with keys_delete_subset[of k "accepting b"]
      show "set (map_keys (accepting ?c)) \<subseteq> set (runnerAcceptRejects ?c)" unfolding fields by auto
      show "set (map_keys (readying ?c)) \<subseteq> insert k (set (map_keys (readying b)))"
        using fields(5) by (cases "readying ?c = readying b") (simp_all add: dom_update subset_insertI)
      show "map_wf (tasks ?c)" using ok unfolding fields(4) broker_ok_def by (simp add: distinct_update)
    qed (use fields in \<open>simp_all add: dom_update\<close>)
  qed
qed

lemma broker_ok_requestTimeout:
  assumes "broker_ok nanoid b"
  shows "broker_ok nanoid (handleRequestTimeout i b)"
proof (cases "findIndex (\<lambda>r. requestId r = i) (pendingTaskRequests b)")
  case None
  with assms show ?thesis by (simp add: handleRequestTimeout_def)
next
  case (Some k)
  have "calls_ok (accepting b) (set (runnerAcceptRejects b)) (pendingTaskRequests b)"
    using assms by (simp add: broker_ok_def)
  with Some have "removeAt k (pendingTaskRequests b) = filter (\<lambda>r. requestId r \<noteq> i) (pendingTaskRequests b)"
    by (intro removeAt_filter[where f = requestId]) (simp_all add: calls_ok_def)
  with Some assms show ?thesis
    by (simp add: handleRequestTimeout_def Let_def broker_ok_def ids_fresh_def calls_ok_filter)
qed

lemma broker_ok_settleRequest:
  assumes inj: "inj nanoid" and ok: "broker_ok nanoid b" and r: "r \<in> set (pendingTaskRequests b)"
  shows "broker_ok nanoid (settleRequest nanoid r b)
    \<and> pendingTaskRequests (settleRequest nanoid r b) \<in>
        {pendingTaskRequests b, map (mark {req_ref r}) (pendingTaskRequests b)}"
proof (cases "acceptInProgress r")
  case True
  with ok show ?thesis by (simp add: settleRequest_def)
next
  case False
  show ?thesis
  proof (cases "findIndex (\<lambda>o'. offer_taskType o' = req_taskType r) (pendingTaskOffers b)")
    case None
    with False ok show ?thesis by (simp add: settleRequest_def broker_ok_def ids_fresh_def)
  next
    case (Some k)
    have fresh: "ids_fresh nanoid b" using ok by (simp add: broker_ok_def)
    let ?o = "pendingTaskOffers b ! k" and ?q = "r\<lparr>acceptInProgress := True\<rparr>" and ?i = "nanoid (next_id b)"
    let ?c = "settleRequest nanoid r b"
    from settleRequest_open[OF inj fresh False Some] have
      c: "accepting ?c = accepting b @ [(?i, ?o, ?q)]"
        "pendingTaskRequests ?c = map (mark {req_ref r}) (pendingTaskRequests b)"
        "set (runnerAcceptRejects ?c) = insert ?i (set (runnerAcceptRejects b))"
        "tasks ?c = tasks b" "ids_fresh nanoid ?c"
      by (simp_all add: opened_def refs_def)
    have calls: "calls_ok (accepting b) (set (runnerAcceptRejects b)) (pendingTaskRequests b)"
      using ok by (simp add: broker_ok_def)
    have ty: "offer_taskType ?o = req_taskType r" using findIndex_Some[OF Some] by simp
    have new: "?i \<notin> fst ` set (accepting b)" using fresh by (simp add: ids_fresh_def)
    have ref: "req_ref r \<notin> refs (accepting b)" using calls r False by (auto simp: calls_ok_def)
    have same: "s = r" if "s \<in> set (pendingTaskRequests b)" "req_ref s = req_ref r \<or> requestId s = requestId r" for s
      using calls r that by (auto simp: calls_ok_def distinct_map dest: inj_onD)
    have m: "req_ref \<circ> mark X = req_ref" "requestId \<circ> mark X = requestId" for X by (auto simp: mark_def)
    have d: "distinct (map req_ref (pendingTaskRequests ?c))" "distinct (map requestId (pendingTaskRequests ?c))"
      unfolding c(2) map_map m using calls by (simp_all add: calls_ok_def)
    have refs: "refs (accepting ?c) = insert (req_ref r) (refs (accepting b))" by (simp add: c(1) refs_def)
    have flag: "\<forall>s\<in>set (pendingTaskRequests ?c). acceptInProgress s \<longleftrightarrow> req_ref s \<in> refs (accepting ?c)"
      unfolding refs unfolding c(2) using calls by (auto simp: mark_def calls_ok_def)
    have pair: "\<forall>s\<in>set (pendingTaskRequests ?c). \<forall>(k, o', q)\<in>set (accepting ?c).
        req_ref s = req_ref q \<longleftrightarrow> requestId s = requestId q"
    proof
      fix s assume "s \<in> set (pendingTaskRequests ?c)"
      then obtain s0 where s0: "s0 \<in> set (pendingTaskRequests b)" "req_ref s = req_ref s0" "requestId s = requestId s0"
        unfolding c(2) by (auto simp: mark_def)
      have old: "\<forall>(k, o', q)\<in>set (accepting b). req_ref s = req_ref q \<longleftrightarrow> requestId s = requestId q"
        unfolding s0(2,3) using calls s0(1) by (simp add: calls_ok_def)
      have "req_ref s = req_ref r \<longleftrightarrow> requestId s = requestId r"
        unfolding s0(2,3) using same[OF s0(1)] by auto
      with old show "\<forall>(k, o', q)\<in>set (accepting ?c). req_ref s = req_ref q \<longleftrightarrow> requestId s = requestId q"
        by (simp add: c(1))
    qed
    have "distinct (map (\<lambda>(k, o', q). req_ref q) (accepting ?c))"
      using calls ref by (simp add: c(1) calls_ok_def refs_def)
    with calls new ty d flag pair have "calls_ok (accepting ?c) (set (runnerAcceptRejects ?c)) (pendingTaskRequests ?c)"
      unfolding calls_ok_def by (auto simp: c(1,3))
    with c(4,5) ok c(2) show ?thesis by (simp add: broker_ok_def)
  qed
qed

lemma broker_ok_settle_loop:
  assumes inj: "inj nanoid"
  shows "broker_ok nanoid b \<Longrightarrow> set rs \<subseteq> set (pendingTaskRequests b) \<Longrightarrow> distinct (map req_ref rs) \<Longrightarrow>
    broker_ok nanoid (fold (settleRequest nanoid) rs b)"
proof (induction rs arbitrary: b)
  case Nil
  then show ?case by simp
next
  case (Cons r rs)
  from Cons.prems broker_ok_settleRequest[OF inj, of b r]
  have ok: "broker_ok nanoid (settleRequest nanoid r b)" and
    p: "pendingTaskRequests (settleRequest nanoid r b) \<in> {pendingTaskRequests b, map (mark {req_ref r}) (pendingTaskRequests b)}"
    by simp_all
  have "s \<in> set (pendingTaskRequests (settleRequest nanoid r b))" if "s \<in> set rs" for s
  proof -
    from that have "req_ref s \<in> req_ref ` set rs" by simp
    with Cons.prems(3) have "req_ref s \<noteq> req_ref r" by auto
    then have "mark {req_ref r} s = s" by (simp add: mark_def)
    moreover have "s \<in> set (pendingTaskRequests b)" using that Cons.prems(2) by auto
    ultimately show ?thesis using p by (auto simp: image_iff) metis
  qed
  with Cons.IH[OF ok] Cons.prems(3) show ?case by auto
qed

lemma broker_ok_settleTasks:
  assumes "inj nanoid" and "broker_ok nanoid b"
  shows "broker_ok nanoid (settleTasks nanoid now b)"
proof -
  have "broker_ok nanoid (expireTasks now b)" using assms(2) by (simp add: broker_ok_def ids_fresh_def expireTasks_def)
  then show ?thesis
    using assms broker_ok_settle_loop[OF assms(1), of "expireTasks now b" "pendingTaskRequests (expireTasks now b)"]
    by (simp add: settleTasks_def Let_def broker_ok_def calls_ok_def)
qed

lemma broker_ok_deregister:
  assumes "broker_ok nanoid b"
  shows "broker_ok nanoid (deregisterRunner i e b)"
proof -
  have step: "broker_ok nanoid c \<Longrightarrow> broker_ok nanoid (failTaskOf i e t c)" for c t
    by (simp add: failTaskOf_def handleRunnerReject_def broker_ok_rejects(1) broker_ok_failTask)
  have "broker_ok nanoid c \<Longrightarrow> broker_ok nanoid (fold (failTaskOf i e) ts c)" for ts c
    by (induction ts arbitrary: c) (auto intro: step)
  moreover have "broker_ok nanoid (b\<lparr>knownRunners := x, pendingTaskOffers := y\<rparr>)" for x y
    using assms by (simp add: broker_ok_def ids_fresh_def)
  ultimately show ?thesis by (simp add: deregisterRunner_def Let_def)
qed

lemma broker_ok_taskOffered:
  "inj nanoid \<Longrightarrow> broker_ok nanoid b \<Longrightarrow> broker_ok nanoid (taskOffered nanoid now offer b)"
  unfolding taskOffered_def by (rule broker_ok_settleTasks) (simp_all add: broker_ok_def ids_fresh_def)

text \<open>A request object is new, and its id is not in use (requesters draw it from \<open>nanoid\<close>).\<close>

definition request_fresh :: "nat \<Rightarrow> requester_message \<Rightarrow> TaskBroker \<Rightarrow> bool" where
  "request_fresh ref message b =
     (case message of
        QTaskRequest taskType reqId \<Rightarrow>
          ref \<notin> refs (accepting b) \<union> req_ref ` set (pendingTaskRequests b)
          \<and> reqId \<notin> requestId ` set (pendingTaskRequests b)
          \<and> (\<forall>(k, o', q)\<in>set (accepting b). reqId \<noteq> requestId q)
      | _ \<Rightarrow> True)"

lemma broker_ok_runner_message:
  "inj nanoid \<Longrightarrow> broker_ok nanoid b \<Longrightarrow> broker_ok nanoid (onRunnerMessage nanoid now i m b)"
  by (cases m)
    (simp_all add: onRunnerMessage_def broker_ok_accept handleRunnerReject_def handleRunnerDeferred_def
      broker_ok_rejects(1) broker_ok_taskOffered taskDoneHandler_def taskErrorHandler_def broker_ok_endTask
      handleDataRequest_def handleNodeTypesRequest_def handleRpcRequest_def broker_ok_askRequester)

lemma broker_ok_requester_message:
  assumes "inj nanoid" and ok: "broker_ok nanoid b" and "request_fresh ref m b"
  shows "broker_ok nanoid (onRequesterMessage nanoid now ref i m b)"
proof (cases m)
  case (QTaskRequest taskType reqId)
  let ?r = "\<lparr>req_ref = ref, requestId = reqId, req_requesterId = i, req_taskType = taskType,
             req_timeout = True, acceptInProgress = False\<rparr>"
  from ok assms(3) have "broker_ok nanoid (b\<lparr>pendingTaskRequests := pendingTaskRequests b @ [?r]\<rparr>)"
    by (auto simp: QTaskRequest request_fresh_def broker_ok_def ids_fresh_def intro!: calls_ok_new)
  with ok assms(1) show ?thesis
    by (simp add: QTaskRequest onRequesterMessage_def taskRequested_def broker_ok_settleTasks)
qed (use ok in \<open>simp_all add: onRequesterMessage_def broker_ok_requester broker_ok_cancelTask
      handleRequesterDataResponse_def handleRequesterNodeTypesResponse_def handleRequesterRpcResponse_def
      broker_ok_answerRunner\<close>)

inductive broker_reachable :: "(nat \<Rightarrow> string) \<Rightarrow> TaskBroker \<Rightarrow> bool" for nanoid where
  start: "broker_reachable nanoid empty_broker"
| runner_message: "broker_reachable nanoid b \<Longrightarrow> broker_reachable nanoid (onRunnerMessage nanoid now i m b)"
| requester_message: "broker_reachable nanoid b \<Longrightarrow> request_fresh ref q b \<Longrightarrow>
    broker_reachable nanoid (onRequesterMessage nanoid now ref i q b)"
| accept_timer: "broker_reachable nanoid b \<Longrightarrow> broker_reachable nanoid (acceptTimeout k b)"
| settings_timer: "broker_reachable nanoid b \<Longrightarrow> broker_reachable nanoid (requesterTimeout k b)"
| request_timer: "broker_reachable nanoid b \<Longrightarrow> broker_reachable nanoid (handleRequestTimeout i b)"
| task_timer: "broker_reachable nanoid b \<Longrightarrow> broker_reachable nanoid (handleTaskTimeout mode k b)"
| register_runner: "broker_reachable nanoid b \<Longrightarrow> broker_reachable nanoid (registerRunner r b)"
| deregister_runner: "broker_reachable nanoid b \<Longrightarrow> broker_reachable nanoid (deregisterRunner i e b)"
| register_requester: "broker_reachable nanoid b \<Longrightarrow> broker_reachable nanoid (registerRequester i b)"
| deregister_requester: "broker_reachable nanoid b \<Longrightarrow> broker_reachable nanoid (deregisterRequester i b)"
| drain: "broker_reachable nanoid b \<Longrightarrow> broker_reachable nanoid (startDraining b)"

lemma reachable_ok: "broker_reachable nanoid b \<Longrightarrow> inj nanoid \<Longrightarrow> broker_ok nanoid b"
proof (induction rule: broker_reachable.induct)
  case start
  then show ?case by (simp add: empty_broker_def broker_ok_def ids_fresh_def calls_ok_def)
next
  case (task_timer b mode k)
  then have "broker_ok nanoid b" by simp
  moreover have "broker_ok nanoid (b\<lparr>outbox := x\<rparr>)" for x
    using \<open>broker_ok nanoid b\<close> by (simp add: broker_ok_def ids_fresh_def)
  ultimately show ?case
    by (simp add: handleTaskTimeout_def taskErrorHandler_def broker_ok_endTask split: option.split)
next
  case (register_runner b r)
  then show ?case by (simp add: registerRunner_def) (simp add: broker_ok_def ids_fresh_def)
qed (simp_all add: broker_ok_runner_message broker_ok_requester_message broker_ok_rejects broker_ok_requester
    broker_ok_requestTimeout broker_ok_deregister registerRequester_def deregisterRequester_def startDraining_def,
    simp_all add: broker_ok_def ids_fresh_def)

text \<open>\<^bold>\<open>C14.\<close> In every state the broker can reach, a pending request is marked as being accepted
  exactly when a suspended \<open>acceptOffer\<close> call holds it, that call serves an offer of the same task
  type, and when the call's timer fires first the request becomes available again: no
  request is left marked with nobody to unmark it.\<close>

theorem request_never_stuck:
  assumes "inj nanoid" and "broker_reachable nanoid b" and "r \<in> set (pendingTaskRequests b)"
  shows "(acceptInProgress r \<longleftrightarrow> (\<exists>k o' q. map_get (accepting b) k = Some (o', q) \<and> req_ref q = req_ref r))
    \<and> (\<forall>k o' q. map_get (accepting b) k = Some (o', q) \<and> req_ref q = req_ref r \<longrightarrow>
         offer_taskType o' = req_taskType q
         \<and> (\<exists>r'\<in>set (pendingTaskRequests (acceptTimeout k b)).
               req_ref r' = req_ref r \<and> \<not> acceptInProgress r'))"
proof -
  have ok: "calls_ok (accepting b) (set (runnerAcceptRejects b)) (pendingTaskRequests b)"
    using reachable_ok[OF assms(2,1)] by (simp add: broker_ok_def)
  then have wf: "map_wf (accepting b)" by (simp add: calls_ok_def)
  have "acceptInProgress r \<longleftrightarrow> req_ref r \<in> refs (accepting b)" using ok assms(3) by (simp add: calls_ok_def)
  moreover have "req_ref r \<in> refs (accepting b) \<longleftrightarrow>
      (\<exists>k o' q. map_get (accepting b) k = Some (o', q) \<and> req_ref q = req_ref r)"
    using wf by (force simp: refs_def dest: map_of_SomeD)
  moreover have "offer_taskType o' = req_taskType q
      \<and> (\<exists>r'\<in>set (pendingTaskRequests (acceptTimeout k b)). req_ref r' = req_ref r \<and> \<not> acceptInProgress r')"
    if "map_get (accepting b) k = Some (o', q)" "req_ref q = req_ref r" for k o' q
  proof
    show "offer_taskType o' = req_taskType q"
      using ok map_of_SomeD[OF that(1)] by (auto simp: calls_ok_def)
    show "\<exists>r'\<in>set (pendingTaskRequests (acceptTimeout k b)). req_ref r' = req_ref r \<and> \<not> acceptInProgress r'"
    proof -
      have "pendingTaskRequests (acceptTimeout k b)
          = map (\<lambda>r. if req_ref r = req_ref q then r\<lparr>acceptInProgress := False\<rparr> else r) (pendingTaskRequests b)"
        using that(1) by (simp add: acceptTimeout_def acceptOffer_rejected_def set_request_def Let_def)
      with that(2) assms(3) have "r\<lparr>acceptInProgress := False\<rparr> \<in> set (pendingTaskRequests (acceptTimeout k b))"
        by force
      then show ?thesis by (intro bexI) simp_all
    qed
  qed
  ultimately show ?thesis by blast
qed

definition served_broker :: TaskBroker where
  "served_broker =
     onRunnerMessage nat_to_string 5 ''runner'' (RTaskOffer ''javascript'' ''o1'' (- 1))
       (onRequesterMessage nat_to_string 4 1 ''main'' (QTaskRequest ''javascript'' ''r1'')
         (registerRequester ''main'' (registerRunner \<lparr>runner_id = ''runner'', runner_taskTypes = [''javascript'']\<rparr> empty_broker)))"

lemma served_broker_reachable: "broker_reachable nat_to_string served_broker"
  unfolding served_broker_def
  by (intro broker_reachable.intros) code_simp

theorem request_never_stuck_witness:
  "inj nat_to_string \<and> broker_reachable nat_to_string served_broker
   \<and> (js_request 1 ''r1'')\<lparr>acceptInProgress := True\<rparr> \<in> set (pendingTaskRequests served_broker)
   \<and> (\<exists>k o' q. map_get (accepting served_broker) k = Some (o', q) \<and> req_ref q = 1)"
proof -
  have i: "inj nat_to_string" by (simp add: inj_def)
  have m: "(js_request 1 ''r1'')\<lparr>acceptInProgress := True\<rparr> \<in> set (pendingTaskRequests served_broker)" by code_simp
  from request_never_stuck[OF i served_broker_reachable m] i m served_broker_reachable show ?thesis
    by (auto simp: js_request_def)
qed

section \<open>Disconnecting runners\<close>

lemma failTask_outbox: "\<exists>zs. outbox (failTask i e b) = outbox b @ zs"
  by (simp add: failTask_def messageRequester_def split: option.split)

lemma rejectRunner_keeps:
  "tasks (rejectRunner i x b) = tasks b" "outbox (rejectRunner i x b) = outbox b"
  "pendingTaskOffers (rejectRunner i x b) = pendingTaskOffers b" "requesters (rejectRunner i x b) = requesters b"
  "knownRunners (rejectRunner i x b) = knownRunners b"
  by (simp_all add: rejectRunner_def acceptOffer_rejected_def set_request_def Let_def split: option.split)

lemma failTask_effect:
  "tasks (failTask i e b) = map_delete i (tasks b)" "pendingTaskOffers (failTask i e b) = pendingTaskOffers b"
  "requesters (failTask i e b) = requesters b" "knownRunners (failTask i e b) = knownRunners b"
proof -
  have "map_get (tasks b) i = None \<Longrightarrow> map_delete i (tasks b) = tasks b"
    by (simp add: map_of_eq_None_iff delete_idem)
  then show "tasks (failTask i e b) = map_delete i (tasks b)" by (simp add: failTask_def split: option.split)
qed (simp_all add: failTask_def split: option.split)

lemma failTask_message:
  assumes "map_get (tasks b) k = Some t" and "set_has (requesters b) (task_requesterId t)"
  shows "ToRequester (task_requesterId t) (TaskError k e) \<in> set (outbox (failTask k e b))"
  using assms by (simp add: failTask_def messageRequester_def)

lemma failTaskOf_loop:
  assumes "\<forall>(k, t)\<in>set (tasks b). task_id t = k"
  shows "tasks (fold (failTaskOf i e) ts b) = filter (\<lambda>(k, t). k \<notin> task_id ` {t \<in> set ts. task_runnerId t = i}) (tasks b)
    \<and> pendingTaskOffers (fold (failTaskOf i e) ts b) = pendingTaskOffers b
    \<and> knownRunners (fold (failTaskOf i e) ts b) = knownRunners b
    \<and> set (outbox b) \<subseteq> set (outbox (fold (failTaskOf i e) ts b))
    \<and> (\<forall>k t. map_get (tasks b) k = Some t \<and> t \<in> set ts \<and> task_runnerId t = i
          \<and> set_has (requesters b) (task_requesterId t) \<longrightarrow>
        ToRequester (task_requesterId t) (TaskError k e) \<in> set (outbox (fold (failTaskOf i e) ts b)))"
  using assms
proof (induction ts arbitrary: b)
  case Nil
  then show ?case by simp
next
  case (Cons u ts)
  let ?b1 = "failTaskOf i e u b"
  have 1: "tasks ?b1 = (if task_runnerId u = i then map_delete (task_id u) (tasks b) else tasks b)"
    "pendingTaskOffers ?b1 = pendingTaskOffers b" "requesters ?b1 = requesters b" "knownRunners ?b1 = knownRunners b"
    "set (outbox b) \<subseteq> set (outbox ?b1)"
    using failTask_outbox[of "task_id u" e b]
    by (auto simp: failTaskOf_def handleRunnerReject_def rejectRunner_keeps failTask_effect)
  have "\<forall>(k, t)\<in>set (tasks ?b1). task_id t = k" using Cons.prems by (auto simp: 1 set_map_delete)
  note IH = Cons.IH[OF this]
  have "ToRequester (task_requesterId t) (TaskError k e) \<in> set (outbox (fold (failTaskOf i e) ts ?b1))"
    if t: "map_get (tasks b) k = Some t" "t \<in> set (u # ts)" "task_runnerId t = i" "set_has (requesters b) (task_requesterId t)"
    for k t
  proof (cases "task_runnerId u = i \<and> task_id u = k")
    case True
    with failTask_message[OF t(1,4), of e] have "ToRequester (task_requesterId t) (TaskError k e) \<in> set (outbox ?b1)"
      by (simp add: failTaskOf_def handleRunnerReject_def rejectRunner_keeps)
    with IH show ?thesis by blast
  next
    case False
    have "task_id t = k" using Cons.prems map_of_SomeD[OF t(1)] by auto
    with False t(3) have "t \<noteq> u" by auto
    moreover have "map_get (tasks ?b1) k = Some t" using False t(1) by (auto simp: 1(1))
    ultimately show ?thesis using IH t(2-4) 1(3) by auto
  qed
  moreover have "tasks (fold (failTaskOf i e) (u # ts) b)
      = filter (\<lambda>(k, t). k \<notin> task_id ` {t \<in> set (u # ts). task_runnerId t = i}) (tasks b)"
    using IH by (auto simp: 1(1) AList.delete_eq intro!: filter_cong)
  ultimately show ?case using IH 1(2,4,5) by auto
qed

text \<open>When a runner disconnects, the broker forgets it, drops all its offers and exactly its
  tasks, and tells the requester of each of these tasks, if it is still registered, that the
  task failed.\<close>

theorem deregisterRunner_correct:
  assumes "inj nanoid" and "broker_reachable nanoid b"
  shows "map_get (knownRunners (deregisterRunner i e b)) i = None
    \<and> pendingTaskOffers (deregisterRunner i e b) = filter (\<lambda>o'. offer_runnerId o' \<noteq> i) (pendingTaskOffers b)
    \<and> tasks (deregisterRunner i e b) = filter (\<lambda>(k, t). task_runnerId t \<noteq> i) (tasks b)
    \<and> (\<forall>k t. map_get (tasks b) k = Some t \<and> task_runnerId t = i \<and> set_has (requesters b) (task_requesterId t) \<longrightarrow>
         ToRequester (task_requesterId t) (TaskError k e) \<in> set (outbox (deregisterRunner i e b)))"
proof -
  have ok: "map_wf (tasks b)" "\<forall>(k, t)\<in>set (tasks b). task_id t = k"
    using reachable_ok[OF assms(2,1)] by (simp_all add: broker_ok_def)
  let ?b1 = "b\<lparr>knownRunners := map_delete i (knownRunners b),
    pendingTaskOffers := filter (\<lambda>o'. offer_runnerId o' \<noteq> i) (pendingTaskOffers b)\<rparr>"
  have e: "deregisterRunner i e b = fold (failTaskOf i e) (map snd (tasks b)) ?b1"
    by (simp add: deregisterRunner_def)
  have keys: "k \<notin> task_id ` {t \<in> set (map snd (tasks b)). task_runnerId t = i} \<longleftrightarrow> task_runnerId t \<noteq> i"
    if "(k, t) \<in> set (tasks b)" for k t
  proof -
    have "t' = t" if "(k', t') \<in> set (tasks b)" "task_id t' = k" for k' t'
      using ok that \<open>(k, t) \<in> set (tasks b)\<close> by (auto dest: eq_key_imp_eq_value)
    note same = this
    have k: "task_id t = k" using that ok(2) by auto
    have mem: "t \<in> set (map snd (tasks b))" using that by force
    show ?thesis
    proof
      assume n: "k \<notin> task_id ` {t \<in> set (map snd (tasks b)). task_runnerId t = i}"
      show "task_runnerId t \<noteq> i"
      proof
        assume "task_runnerId t = i"
        with mem have "t \<in> {t \<in> set (map snd (tasks b)). task_runnerId t = i}" by blast
        then have "task_id t \<in> task_id ` {t \<in> set (map snd (tasks b)). task_runnerId t = i}" by (rule imageI)
        with n k show False by blast
      qed
    next
      assume n: "task_runnerId t \<noteq> i"
      show "k \<notin> task_id ` {t \<in> set (map snd (tasks b)). task_runnerId t = i}"
      proof
        assume "k \<in> task_id ` {t \<in> set (map snd (tasks b)). task_runnerId t = i}"
        then obtain u where u: "k = task_id u" "u \<in> snd ` set (tasks b)" "task_runnerId u = i" by auto
        then obtain j where "(j, u) \<in> set (tasks b)" by auto
        from same[OF this] u n show False by auto
      qed
    qed
  qed
  have "filter (\<lambda>(k, t). k \<notin> task_id ` {t \<in> set (map snd (tasks b)). task_runnerId t = i}) (tasks b)
      = filter (\<lambda>(k, t). task_runnerId t \<noteq> i) (tasks b)"
    using keys by (intro filter_cong) auto
  moreover have "\<forall>(k, t)\<in>set (tasks ?b1). task_id t = k" using ok(2) by simp
  note l = failTaskOf_loop[OF this, of i e "map snd (tasks b)", folded e]
  have f: "tasks ?b1 = tasks b" "requesters ?b1 = requesters b" by simp_all
  have "map_get (knownRunners (deregisterRunner i e b)) i = None" using l by simp
  moreover have "pendingTaskOffers (deregisterRunner i e b) = filter (\<lambda>o'. offer_runnerId o' \<noteq> i) (pendingTaskOffers b)"
    using l by simp
  moreover have "tasks (deregisterRunner i e b)
      = filter (\<lambda>(k, t). k \<notin> task_id ` {t \<in> set (map snd (tasks b)). task_runnerId t = i}) (tasks b)"
    using l unfolding f by blast
  moreover have "ToRequester (task_requesterId t) (TaskError k e) \<in> set (outbox (deregisterRunner i e b))"
    if "map_get (tasks b) k = Some t" "task_runnerId t = i" "set_has (requesters b) (task_requesterId t)" for k t
  proof -
    have "t \<in> set (map snd (tasks b))" using map_of_SomeD[OF that(1)] by force
    with l that show ?thesis unfolding f by blast
  qed
  ultimately show ?thesis by simp
qed

definition running_broker :: TaskBroker where
  "running_broker = onRunnerMessage nat_to_string 6 ''runner'' (RTaskAccepted ''0'') served_broker"

lemma running_broker_reachable: "broker_reachable nat_to_string running_broker"
  unfolding running_broker_def by (rule broker_reachable.runner_message[OF served_broker_reachable])

theorem deregisterRunner_correct_witness:
  "inj nat_to_string \<and> broker_reachable nat_to_string running_broker \<and> tasks running_broker \<noteq> []
   \<and> tasks (deregisterRunner ''runner'' JNull running_broker) = []"
proof -
  have i: "inj nat_to_string" by (simp add: inj_def)
  have t: "tasks running_broker \<noteq> [] \<and> filter (\<lambda>(k, t). task_runnerId t \<noteq> ''runner'') (tasks running_broker) = []"
    by code_simp
  from deregisterRunner_correct[OF i running_broker_reachable, of "''runner''" JNull] t i running_broker_reachable
  show ?thesis by simp
qed

section \<open>Races\<close>

text \<open>The request timer fires while the runner is being asked, and the runner then accepts.\<close>

definition orphaned_broker :: TaskBroker where
  "orphaned_broker = onRunnerMessage nat_to_string 6 ''runner'' (RTaskAccepted ''0'')
     (handleRequestTimeout ''r1'' served_broker)"

text \<open>A reachable race leaves a task behind.  When a request times out while the runner is being
  asked to accept it, the requester is told that the request expired; the runner's later
  acceptance still creates the task, which no requester ever learns about and no timer ever
  ends: it has no timeout, nobody waits for its settings, and it stays in the broker.\<close>

theorem orphaned_task:
  "broker_reachable nat_to_string orphaned_broker
   \<and> ToRequester ''main'' (RequestExpired ''r1'' ''timeout'') \<in> set (outbox orphaned_broker)
   \<and> map_option task_timeout (map_get (tasks orphaned_broker) ''0'') = Some False
   \<and> readying orphaned_broker = [] \<and> accepting orphaned_broker = []
   \<and> ToRequester ''main'' (TaskReady ''r1'' ''0'') \<notin> set (outbox orphaned_broker)"
proof -
  have "broker_reachable nat_to_string orphaned_broker"
    unfolding orphaned_broker_def
    by (intro broker_reachable.runner_message broker_reachable.request_timer served_broker_reachable)
  moreover have "ToRequester ''main'' (RequestExpired ''r1'' ''timeout'') \<in> set (outbox orphaned_broker)
   \<and> map_option task_timeout (map_get (tasks orphaned_broker) ''0'') = Some False
   \<and> readying orphaned_broker = [] \<and> accepting orphaned_broker = []
   \<and> ToRequester ''main'' (TaskReady ''r1'' ''0'') \<notin> set (outbox orphaned_broker)" by code_simp
  ultimately show ?thesis by blast
qed

text \<open>When a runner disconnects while it is being asked to accept a task, its pending promise
  is not rejected: the loop goes over the tasks, and a task is registered only after it was
  accepted.  The request stays marked as being accepted until the two-second timer fires.\<close>

theorem disconnect_leaves_accept_pending:
  "\<exists>r. r \<in> set (pendingTaskRequests (deregisterRunner ''runner'' JNull served_broker)) \<and> acceptInProgress r
   \<and> map_keys (accepting (deregisterRunner ''runner'' JNull served_broker)) = [''0'']"
proof -
  have "list_ex acceptInProgress (pendingTaskRequests (deregisterRunner ''runner'' JNull served_broker))
    \<and> map_keys (accepting (deregisterRunner ''runner'' JNull served_broker)) = [''0'']" by code_simp
  then show ?thesis by (auto simp: list_ex_iff)
qed

end
