(* ===== verification/Scope_Tables.thy ===== *)
theory Scope_Tables
  imports JS_Prelude
begin

text \<open>
  The permission tables of \<open>packages/@n8n/permissions\<close>: the resources and their
  operations, the scopes of the static roles and of public API keys, and the role maps built
  from them.  JavaScript objects with fixed keys are association lists in the order of their
  literals, which is the order \<open>Object.keys\<close> and \<open>Object.entries\<close> report.
\<close>

section \<open>Scopes and resources\<close>

text \<open>A \<open>Scope\<close> is a string \<open>resource:operation\<close>, \<open>resource:*\<close> or \<open>*\<close>.\<close>

type_synonym Scope = string

definition DEFAULT_OPERATIONS :: "string list" where
  "DEFAULT_OPERATIONS = [''create'', ''read'', ''update'', ''delete'', ''list'']"

definition RESOURCES :: "(string, string list) js_map" where
  "RESOURCES =
  [(''agent'', DEFAULT_OPERATIONS @ [''execute'', ''publish'', ''unpublish'', ''manage'']),
   (''aiAssistant'', [''manage'']),
   (''annotationTag'', DEFAULT_OPERATIONS),
   (''auditLogs'', [''manage'']),
   (''banner'', [''dismiss'']),
   (''community'', [''register'']),
   (''communityPackage'', [''install'', ''uninstall'', ''update'', ''list'', ''manage'']),
   (''credential'', [''share'', ''unshare'', ''shareGlobally'', ''move''] @ DEFAULT_OPERATIONS),
   (''externalSecretsProvider'', [''sync''] @ DEFAULT_OPERATIONS),
   (''externalSecret'', [''list'']),
   (''eventBusDestination'', [''test''] @ DEFAULT_OPERATIONS),
   (''ldap'', [''sync'', ''manage'']),
   (''license'', [''manage'']),
   (''logStreaming'', [''manage'']),
   (''orchestration'', [''read'', ''list'']),
   (''project'', DEFAULT_OPERATIONS),
   (''saml'', [''manage'']),
   (''securityAudit'', [''generate'']),
   (''securitySettings'', [''manage'']),
   (''sourceControl'', [''pull'', ''push'', ''manage'']),
   (''tag'', DEFAULT_OPERATIONS),
   (''user'', [''resetPassword'', ''changeRole'', ''enforceMfa'', 
       ''generateInviteLink''] @ DEFAULT_OPERATIONS),
   (''variable'', DEFAULT_OPERATIONS),
   (''projectVariable'', DEFAULT_OPERATIONS),
   (''workersView'', [''manage'']),
   (''workflow'', [''share'', ''unshare'', ''execute'', ''execute-chat'', ''export'',
       ''import'', ''move'', ''activate'',
       ''deactivate'', ''publish'', ''unpublish'', ''enableRedaction'',
       ''disableRedaction''] @ DEFAULT_OPERATIONS),
   (''folder'', DEFAULT_OPERATIONS @ [''move'']),
   (''insights'', [''list'', ''read'']),
   (''oidc'', [''manage'']),
   (''provisioning'', [''manage'']),
   (''dataTable'', DEFAULT_OPERATIONS @ [''readRow'', ''writeRow'', 
       ''readColumn'', ''writeColumn'', ''listProject'']),
   (''execution'', [''delete'', ''read'', ''retry'', ''list'', ''get'', ''reveal'']),
   (''workflowTags'', [''update'', ''list'']),
   (''role'', [''manage'']),
   (''mcp'', [''manage'', ''oauth'']),
   (''mcpApiKey'', [''create'', ''rotate'']),
   (''chatHub'', [''manage'', ''message'']),
   (''chatHubAgent'', DEFAULT_OPERATIONS),
   (''breakingChanges'', [''list'']),
   (''apiKey'', [''manage'', ''list'', ''create'', ''delete'', ''update'']),
   (''encryptionKey'', [''manage'']),
   (''credentialResolver'', DEFAULT_OPERATIONS),
   (''instanceAi'', [''message'', ''manage'', ''gateway'']),
   (''roleMappingRule'', DEFAULT_OPERATIONS),
   (''otel'', [''manage''])]"

definition API_KEY_RESOURCES :: "(string, string list) js_map" where
  "API_KEY_RESOURCES =
  [(''tag'', DEFAULT_OPERATIONS),
   (''workflow'', DEFAULT_OPERATIONS @ [''move'', ''activate'',
       ''deactivate'', ''export'', ''import'']),
   (''variable'', [''create'', ''update'', ''delete'', ''list'']),
   (''securityAudit'', [''generate'']),
   (''project'', [''create'', ''update'', ''delete'', ''list'']),
   (''user'', [''read'', ''list'', ''create'', ''changeRole'', ''delete'']),
   (''execution'', [''delete'', ''read'', ''retry'', ''list'', ''get'', ''stop'']),
   (''credential'', [''create'', ''read'', ''update'', ''move'', ''delete'', ''list'']),
   (''sourceControl'', [''pull'']),
   (''workflowTags'', [''update'', ''list'']),
   (''executionTags'', [''update'', ''list'']),
   (''communityPackage'', [''install'', ''uninstall'', ''update'', ''list'']),
   (''dataTable'', [''create'', ''read'', ''update'', ''delete'', ''list'']),
   (''dataTableRow'', [''create'', ''read'', ''update'', ''delete'', ''upsert'']),
   (''dataTableColumn'', [''create'', ''read'', ''delete'', ''update'']),
   (''folder'', [''create'', ''delete'', ''read'', ''update'', ''list'']),
   (''insights'', [''read''])]"

section \<open>Scopes of the global roles\<close>

definition GLOBAL_OWNER_SCOPES :: "Scope list" where
  "GLOBAL_OWNER_SCOPES =
  [''agent:create'', ''agent:read'', ''agent:update'', ''agent:delete'', ''agent:list'',
   ''agent:execute'', ''agent:publish'', ''agent:unpublish'', ''agent:manage'',
   ''aiAssistant:manage'', ''annotationTag:create'', ''annotationTag:read'',
   ''annotationTag:update'', ''annotationTag:delete'', ''annotationTag:list'',
   ''auditLogs:manage'', ''banner:dismiss'', ''credential:create'', ''credential:read'',
   ''credential:update'', ''credential:delete'', ''credential:list'', ''credential:share'',
   ''credential:unshare'', ''credential:shareGlobally'', ''credential:move'',
   ''community:register'', ''communityPackage:install'', ''communityPackage:uninstall'',
   ''communityPackage:update'', ''communityPackage:list'', ''eventBusDestination:create'',
   ''eventBusDestination:read'', ''eventBusDestination:update'', ''eventBusDestination:delete'',
   ''eventBusDestination:list'', ''eventBusDestination:test'',
   ''externalSecretsProvider:create'', ''externalSecretsProvider:read'',
   ''externalSecretsProvider:update'', ''externalSecretsProvider:delete'',
   ''externalSecretsProvider:list'', ''externalSecretsProvider:sync'', ''externalSecret:list'',
   ''ldap:manage'', ''ldap:sync'', ''license:manage'', ''logStreaming:manage'',
   ''orchestration:read'', ''saml:manage'', ''securityAudit:generate'',
   ''securitySettings:manage'', ''sourceControl:pull'', ''sourceControl:push'',
   ''sourceControl:manage'', ''tag:create'', ''tag:read'', ''tag:update'', ''tag:delete'',
   ''tag:list'', ''user:create'', ''user:read'', ''user:update'', ''user:delete'', ''user:list'',
   ''user:resetPassword'', ''user:generateInviteLink'', ''user:changeRole'', ''user:enforceMfa'',
   ''variable:create'', ''variable:read'', ''variable:update'', ''variable:delete'',
   ''variable:list'', ''projectVariable:create'', ''projectVariable:read'',
   ''projectVariable:update'', ''projectVariable:delete'', ''projectVariable:list'',
   ''workflow:create'', ''workflow:read'', ''workflow:export'', ''workflow:import'',
   ''workflow:update'', ''workflow:publish'', ''workflow:unpublish'', ''workflow:delete'',
   ''workflow:list'', ''workflow:share'', ''workflow:unshare'', ''workflow:execute'',
   ''workflow:execute-chat'', ''workflow:move'', ''workflow:enableRedaction'',
   ''workflow:disableRedaction'', ''workersView:manage'', ''project:list'', ''project:create'',
   ''project:read'', ''project:update'', ''project:delete'', ''insights:list'',
   ''insights:read'', ''folder:move'', ''folder:read'', ''folder:update'', ''folder:delete'',
   ''folder:create'', ''folder:list'', ''oidc:manage'', ''provisioning:manage'',
   ''dataTable:create'', ''dataTable:delete'', ''dataTable:read'', ''dataTable:update'',
   ''dataTable:list'', ''dataTable:listProject'', ''dataTable:readRow'', ''dataTable:writeRow'',
   ''dataTable:readColumn'', ''dataTable:writeColumn'', ''role:manage'', ''mcp:manage'',
   ''mcp:oauth'', ''mcpApiKey:create'', ''mcpApiKey:rotate'', ''chatHub:manage'',
   ''chatHub:message'', ''chatHubAgent:create'', ''chatHubAgent:read'', ''chatHubAgent:update'',
   ''chatHubAgent:delete'', ''chatHubAgent:list'', ''breakingChanges:list'',
   ''execution:reveal'', ''apiKey:manage'', ''apiKey:list'', ''apiKey:create'',
   ''apiKey:delete'', ''apiKey:update'', ''encryptionKey:manage'', ''credentialResolver:create'',
   ''credentialResolver:read'', ''credentialResolver:update'', ''credentialResolver:delete'',
   ''credentialResolver:list'', ''instanceAi:message'', ''instanceAi:manage'',
   ''instanceAi:gateway'', ''roleMappingRule:create'', ''roleMappingRule:read'',
   ''roleMappingRule:update'', ''roleMappingRule:delete'', ''roleMappingRule:list'',
   ''otel:manage'']"

definition GLOBAL_ADMIN_SCOPES :: "Scope list" where
  "GLOBAL_ADMIN_SCOPES = GLOBAL_OWNER_SCOPES"

definition GLOBAL_MEMBER_SCOPES :: "Scope list" where
  "GLOBAL_MEMBER_SCOPES =
  [''annotationTag:create'', ''annotationTag:read'', ''annotationTag:update'',
   ''annotationTag:delete'', ''annotationTag:list'', ''eventBusDestination:list'',
   ''eventBusDestination:test'', ''tag:create'', ''tag:read'', ''tag:update'', ''tag:list'',
   ''user:list'', ''variable:list'', ''variable:read'', ''dataTable:list'', ''mcp:oauth'',
   ''mcpApiKey:create'', ''mcpApiKey:rotate'', ''chatHub:message'', ''chatHubAgent:create'',
   ''chatHubAgent:read'', ''chatHubAgent:update'', ''chatHubAgent:delete'',
   ''chatHubAgent:list'', ''apiKey:list'', ''apiKey:create'', ''apiKey:delete'',
   ''apiKey:update'', ''credentialResolver:list'', ''instanceAi:message'', ''instanceAi:gateway'']"

definition GLOBAL_CHAT_USER_SCOPES :: "Scope list" where
  "GLOBAL_CHAT_USER_SCOPES =
  [''chatHub:message'', ''chatHubAgent:create'', ''chatHubAgent:read'', ''chatHubAgent:update'',
   ''chatHubAgent:delete'', ''chatHubAgent:list'']"

section \<open>Scopes of the project roles\<close>

definition REGULAR_PROJECT_ADMIN_SCOPES :: "Scope list" where
  "REGULAR_PROJECT_ADMIN_SCOPES =
  [''agent:create'', ''agent:read'', ''agent:update'', ''agent:delete'', ''agent:list'',
   ''agent:execute'', ''agent:publish'', ''agent:unpublish'', ''workflow:create'',
   ''workflow:read'', ''workflow:export'', ''workflow:import'', ''workflow:update'',
   ''workflow:publish'', ''workflow:unpublish'', ''workflow:delete'', ''workflow:list'',
   ''workflow:execute'', ''workflow:execute-chat'', ''workflow:move'',
   ''workflow:enableRedaction'', ''workflow:disableRedaction'', ''credential:create'',
   ''credential:read'', ''credential:update'', ''credential:delete'', ''credential:list'',
   ''credential:move'', ''credential:share'', ''credential:unshare'', ''execution:reveal'',
   ''project:list'', ''project:read'', ''project:update'', ''project:delete'', ''folder:create'',
   ''folder:read'', ''folder:update'', ''folder:delete'', ''folder:list'', ''folder:move'',
   ''sourceControl:push'', ''dataTable:create'', ''dataTable:delete'', ''dataTable:read'',
   ''dataTable:update'', ''dataTable:listProject'', ''dataTable:readRow'',
   ''dataTable:writeRow'', ''dataTable:readColumn'', ''dataTable:writeColumn'',
   ''projectVariable:list'', ''projectVariable:read'', ''projectVariable:create'',
   ''projectVariable:update'', ''projectVariable:delete'']"

definition PERSONAL_PROJECT_OWNER_SCOPES :: "Scope list" where
  "PERSONAL_PROJECT_OWNER_SCOPES =
  [''agent:create'', ''agent:read'', ''agent:update'', ''agent:delete'', ''agent:list'',
   ''agent:execute'', ''agent:unpublish'', ''workflow:create'', ''workflow:read'',
   ''workflow:export'', ''workflow:import'', ''workflow:update'', ''workflow:delete'',
   ''workflow:list'', ''workflow:execute'', ''workflow:execute-chat'', ''workflow:move'',
   ''workflow:unpublish'', ''workflow:unshare'', ''workflow:enableRedaction'',
   ''workflow:disableRedaction'', ''credential:create'', ''credential:read'',
   ''credential:update'', ''credential:delete'', ''credential:list'', ''credential:move'',
   ''credential:unshare'', ''execution:reveal'', ''project:list'', ''project:read'',
   ''folder:create'', ''folder:read'', ''folder:update'', ''folder:delete'', ''folder:list'',
   ''folder:move'', ''dataTable:create'', ''dataTable:delete'', ''dataTable:read'',
   ''dataTable:update'', ''dataTable:listProject'', ''dataTable:readRow'',
   ''dataTable:writeRow'', ''dataTable:readColumn'', ''dataTable:writeColumn'']"

definition PROJECT_EDITOR_SCOPES :: "Scope list" where
  "PROJECT_EDITOR_SCOPES =
  [''agent:create'', ''agent:read'', ''agent:update'', ''agent:delete'', ''agent:list'',
   ''agent:execute'', ''agent:publish'', ''agent:unpublish'', ''workflow:create'',
   ''workflow:read'', ''workflow:export'', ''workflow:import'', ''workflow:update'',
   ''workflow:publish'', ''workflow:unpublish'', ''workflow:delete'', ''workflow:list'',
   ''workflow:execute'', ''workflow:execute-chat'', ''credential:create'', ''credential:read'',
   ''credential:update'', ''credential:delete'', ''credential:list'', ''project:list'',
   ''project:read'', ''folder:create'', ''folder:read'', ''folder:update'', ''folder:delete'',
   ''folder:list'', ''dataTable:create'', ''dataTable:delete'', ''dataTable:read'',
   ''dataTable:update'', ''dataTable:listProject'', ''dataTable:readRow'',
   ''dataTable:writeRow'', ''dataTable:readColumn'', ''dataTable:writeColumn'',
   ''projectVariable:list'', ''projectVariable:read'', ''projectVariable:create'',
   ''projectVariable:update'', ''projectVariable:delete'']"

definition PROJECT_VIEWER_SCOPES :: "Scope list" where
  "PROJECT_VIEWER_SCOPES =
  [''agent:read'', ''agent:list'', ''agent:execute'', ''credential:list'', ''credential:read'',
   ''project:list'', ''project:read'', ''workflow:list'', ''workflow:read'', ''workflow:export'',
   ''workflow:execute-chat'', ''folder:read'', ''folder:list'', ''dataTable:listProject'',
   ''dataTable:read'', ''dataTable:readRow'', ''dataTable:readColumn'', ''projectVariable:list'',
   ''projectVariable:read'']"

definition PROJECT_CHAT_USER_SCOPES :: "Scope list" where
  "PROJECT_CHAT_USER_SCOPES =
  [''agent:execute'', ''workflow:execute-chat'']"

section \<open>Scopes of the sharing roles\<close>

definition CREDENTIALS_SHARING_OWNER_SCOPES :: "Scope list" where
  "CREDENTIALS_SHARING_OWNER_SCOPES =
  [''credential:read'', ''credential:update'', ''credential:delete'', ''credential:share'',
   ''credential:unshare'', ''credential:move'']"

definition CREDENTIALS_SHARING_USER_SCOPES :: "Scope list" where
  "CREDENTIALS_SHARING_USER_SCOPES =
  [''credential:read'']"

definition WORKFLOW_SHARING_OWNER_SCOPES :: "Scope list" where
  "WORKFLOW_SHARING_OWNER_SCOPES =
  [''workflow:read'', ''workflow:export'', ''workflow:update'', ''workflow:publish'',
   ''workflow:unpublish'', ''workflow:delete'', ''workflow:execute'', ''workflow:share'',
   ''workflow:unshare'', ''workflow:move'', ''workflow:execute-chat'',
   ''workflow:enableRedaction'', ''workflow:disableRedaction'', ''execution:reveal'']"

definition WORKFLOW_SHARING_EDITOR_SCOPES :: "Scope list" where
  "WORKFLOW_SHARING_EDITOR_SCOPES =
  [''workflow:read'', ''workflow:export'', ''workflow:update'', ''workflow:publish'',
   ''workflow:unpublish'', ''workflow:execute'', ''workflow:execute-chat'']"

definition WORKFLOW_SHARING_VIEWER_SCOPES :: "Scope list" where
  "WORKFLOW_SHARING_VIEWER_SCOPES =
  [''workflow:read'', ''workflow:export'', ''workflow:execute-chat'']"

definition SECRETS_PROVIDER_CONNECTION_SHARING_OWNER_SCOPES :: "Scope list" where
  "SECRETS_PROVIDER_CONNECTION_SHARING_OWNER_SCOPES =
  [''externalSecretsProvider:read'', ''externalSecretsProvider:update'',
   ''externalSecretsProvider:delete'', ''externalSecretsProvider:list'',
   ''externalSecretsProvider:sync'', ''externalSecret:list'']"

definition SECRETS_PROVIDER_CONNECTION_SHARING_USER_SCOPES :: "Scope list" where
  "SECRETS_PROVIDER_CONNECTION_SHARING_USER_SCOPES =
  [''externalSecretsProvider:read'', ''externalSecretsProvider:list'', ''externalSecret:list'']"

section \<open>Scopes of public API keys\<close>

definition OWNER_API_KEY_SCOPES :: "Scope list" where
  "OWNER_API_KEY_SCOPES =
  [''user:read'', ''user:list'', ''user:create'', ''user:changeRole'', ''user:delete'',
   ''sourceControl:pull'', ''securityAudit:generate'', ''project:create'', ''project:update'',
   ''project:delete'', ''project:list'', ''variable:create'', ''variable:delete'',
   ''variable:list'', ''variable:update'', ''tag:create'', ''tag:read'', ''tag:update'',
   ''tag:delete'', ''tag:list'', ''workflowTags:update'', ''workflowTags:list'',
   ''executionTags:update'', ''executionTags:list'', ''workflow:create'', ''workflow:read'',
   ''workflow:update'', ''workflow:delete'', ''workflow:export'', ''workflow:import'',
   ''workflow:list'', ''workflow:move'', ''workflow:activate'', ''workflow:deactivate'',
   ''execution:delete'', ''execution:read'', ''execution:retry'', ''execution:stop'',
   ''execution:list'', ''credential:create'', ''credential:update'', ''credential:move'',
   ''credential:delete'', ''credential:list'', ''dataTable:create'', ''dataTable:read'',
   ''dataTable:update'', ''dataTable:delete'', ''dataTable:list'', ''dataTableRow:create'',
   ''dataTableRow:read'', ''dataTableRow:update'', ''dataTableRow:delete'',
   ''dataTableRow:upsert'', ''folder:create'', ''folder:delete'', ''folder:read'',
   ''folder:update'', ''folder:list'', ''dataTableColumn:create'', ''dataTableColumn:read'',
   ''dataTableColumn:update'', ''dataTableColumn:delete'', ''insights:read'']"

definition ADMIN_API_KEY_SCOPES :: "Scope list" where
  "ADMIN_API_KEY_SCOPES = OWNER_API_KEY_SCOPES"

definition MEMBER_API_KEY_SCOPES :: "Scope list" where
  "MEMBER_API_KEY_SCOPES =
  [''tag:create'', ''tag:read'', ''tag:update'', ''tag:list'', ''workflowTags:update'',
   ''workflowTags:list'', ''executionTags:update'', ''executionTags:list'', ''workflow:create'',
   ''workflow:read'', ''workflow:update'', ''workflow:delete'', ''workflow:export'',
   ''workflow:import'', ''workflow:list'', ''workflow:move'', ''workflow:activate'',
   ''workflow:deactivate'', ''execution:delete'', ''execution:read'', ''execution:retry'',
   ''execution:stop'', ''execution:list'', ''credential:create'', ''credential:update'',
   ''credential:move'', ''credential:delete'', ''dataTable:create'', ''dataTable:read'',
   ''dataTable:update'', ''dataTable:delete'', ''dataTable:list'', ''dataTableRow:create'',
   ''dataTableRow:read'', ''dataTableRow:update'', ''dataTableRow:delete'',
   ''dataTableRow:upsert'', ''folder:create'', ''folder:delete'', ''folder:read'',
   ''folder:update'', ''folder:list'', ''dataTableColumn:create'', ''dataTableColumn:read'',
   ''dataTableColumn:update'', ''dataTableColumn:delete'']"

definition CHAT_USER_API_KEY_SCOPES :: "Scope list" where
  "CHAT_USER_API_KEY_SCOPES =
  []"

definition API_KEY_SCOPES_FOR_IMPLICIT_PERSONAL_PROJECT :: "Scope list" where
  "API_KEY_SCOPES_FOR_IMPLICIT_PERSONAL_PROJECT =
  [''workflowTags:update'', ''workflowTags:list'', ''executionTags:update'',
   ''executionTags:list'', ''workflow:create'', ''workflow:read'', ''workflow:update'',
   ''workflow:delete'', ''workflow:export'', ''workflow:import'', ''workflow:list'',
   ''workflow:move'', ''workflow:activate'', ''workflow:deactivate'', ''execution:delete'',
   ''execution:read'', ''execution:retry'', ''execution:stop'', ''execution:list'',
   ''credential:create'', ''credential:update'', ''credential:move'', ''credential:delete'',
   ''dataTable:create'', ''dataTable:read'', ''dataTable:update'', ''dataTable:delete'',
   ''dataTable:list'', ''dataTableRow:create'', ''dataTableRow:read'', ''dataTableRow:update'',
   ''dataTableRow:delete'', ''dataTableRow:upsert'', ''dataTableColumn:create'',
   ''dataTableColumn:read'', ''dataTableColumn:update'', ''dataTableColumn:delete'']"

section \<open>Settings that add scopes to roles\<close>

definition PROJECT_OWNER_ROLE_SLUG :: string where
  "PROJECT_OWNER_ROLE_SLUG = ''project:personalOwner''"

definition PROJECT_ADMIN_ROLE_SLUG :: string where
  "PROJECT_ADMIN_ROLE_SLUG = ''project:admin''"

definition PROJECT_EDITOR_ROLE_SLUG :: string where
  "PROJECT_EDITOR_ROLE_SLUG = ''project:editor''"

definition PROJECT_VIEWER_ROLE_SLUG :: string where
  "PROJECT_VIEWER_ROLE_SLUG = ''project:viewer''"

definition PROJECT_CHAT_USER_ROLE_SLUG :: string where
  "PROJECT_CHAT_USER_ROLE_SLUG = ''project:chatUser''"

definition PERSONAL_SPACE_PUBLISHING_SETTING :: "string \<times> Scope list" where
  "PERSONAL_SPACE_PUBLISHING_SETTING =
    (''security.personalSpacePublishing'', [''workflow:publish'', ''agent:publish''])"

definition PERSONAL_SPACE_SHARING_SETTING :: "string \<times> Scope list" where
  "PERSONAL_SPACE_SHARING_SETTING =
    (''security.personalSpaceSharing'', [''workflow:share'', ''credential:share''])"

definition EXTERNAL_SECRETS_SYSTEM_ROLES_ENABLED_SETTING :: "string \<times> (string, Scope list) js_map" where
  "EXTERNAL_SECRETS_SYSTEM_ROLES_ENABLED_SETTING =
    (''externalSecrets.systemRolesEnabled'',
     [(PROJECT_ADMIN_ROLE_SLUG,
       [''externalSecretsProvider:create'', ''externalSecretsProvider:read'',
        ''externalSecretsProvider:update'', ''externalSecretsProvider:delete'',
        ''externalSecretsProvider:list'', ''externalSecretsProvider:sync'',
        ''externalSecret:list'']),
      (PROJECT_EDITOR_ROLE_SLUG,
       [''externalSecretsProvider:read'', ''externalSecretsProvider:list'',
        ''externalSecret:list''])])"

section \<open>Role maps\<close>

type_synonym role_map = "(string, Scope list) js_map"

datatype RoleNamespace = NsGlobal | NsProject | NsCredential | NsWorkflow | NsSecretsProviderConnection

definition GLOBAL_SCOPE_MAP :: role_map where
  "GLOBAL_SCOPE_MAP =
    [(''global:owner'', GLOBAL_OWNER_SCOPES),
     (''global:admin'', GLOBAL_ADMIN_SCOPES),
     (''global:member'', GLOBAL_MEMBER_SCOPES),
     (''global:chatUser'', GLOBAL_CHAT_USER_SCOPES)]"

definition PROJECT_SCOPE_MAP :: role_map where
  "PROJECT_SCOPE_MAP =
    [(''project:admin'', REGULAR_PROJECT_ADMIN_SCOPES),
     (''project:personalOwner'', PERSONAL_PROJECT_OWNER_SCOPES),
     (''project:editor'', PROJECT_EDITOR_SCOPES),
     (''project:viewer'', PROJECT_VIEWER_SCOPES),
     (''project:chatUser'', PROJECT_CHAT_USER_SCOPES)]"

definition CREDENTIALS_SHARING_SCOPE_MAP :: role_map where
  "CREDENTIALS_SHARING_SCOPE_MAP =
    [(''credential:owner'', CREDENTIALS_SHARING_OWNER_SCOPES),
     (''credential:user'', CREDENTIALS_SHARING_USER_SCOPES)]"

definition WORKFLOW_SHARING_SCOPE_MAP :: role_map where
  "WORKFLOW_SHARING_SCOPE_MAP =
    [(''workflow:owner'', WORKFLOW_SHARING_OWNER_SCOPES),
     (''workflow:editor'', WORKFLOW_SHARING_EDITOR_SCOPES),
     (''workflow:viewer'', WORKFLOW_SHARING_VIEWER_SCOPES)]"

definition SECRETS_PROVIDER_CONNECTION_SHARING_SCOPE_MAP :: role_map where
  "SECRETS_PROVIDER_CONNECTION_SHARING_SCOPE_MAP =
    [(''secretsProviderConnection:owner'', SECRETS_PROVIDER_CONNECTION_SHARING_OWNER_SCOPES),
     (''secretsProviderConnection:user'', SECRETS_PROVIDER_CONNECTION_SHARING_USER_SCOPES)]"

definition ALL_ROLE_MAPS :: "(RoleNamespace, role_map) js_map" where
  "ALL_ROLE_MAPS =
    [(NsGlobal, GLOBAL_SCOPE_MAP),
     (NsProject, PROJECT_SCOPE_MAP),
     (NsCredential, CREDENTIALS_SHARING_SCOPE_MAP),
     (NsWorkflow, WORKFLOW_SHARING_SCOPE_MAP),
     (NsSecretsProviderConnection, SECRETS_PROVIDER_CONNECTION_SHARING_SCOPE_MAP)]"

text \<open>The map from built-in global roles to the scopes of their API keys.\<close>

definition MAP_ROLE_SCOPES :: role_map where
  "MAP_ROLE_SCOPES =
    [(''global:owner'', OWNER_API_KEY_SCOPES),
     (''global:admin'', ADMIN_API_KEY_SCOPES),
     (''global:member'', MEMBER_API_KEY_SCOPES),
     (''global:chatUser'', CHAT_USER_API_KEY_SCOPES)]"

section \<open>The lists of all scopes\<close>

definition buildResourceScopes :: "Scope list" where
  "buildResourceScopes =
    concat (map (\<lambda>(resource, operations).
        map (\<lambda>op. resource @ '':'' @ op) operations @ [resource @ '':*'']) RESOURCES) @ [''*'']"

definition buildApiKeyScopes :: "Scope js_set" where
  "buildApiKeyScopes = set_of_array
    (concat (map (\<lambda>(resource, operations). map (\<lambda>op. resource @ '':'' @ op) operations)
      API_KEY_RESOURCES))"

definition ALL_SCOPES :: "Scope list" where
  "ALL_SCOPES = buildResourceScopes"

definition ALL_API_KEY_SCOPES :: "Scope js_set" where
  "ALL_API_KEY_SCOPES = buildApiKeyScopes"

text \<open>Display names and descriptions of some scopes.\<close>

definition scopeInformation :: "(Scope, string \<times> string option) js_map" where
  "scopeInformation =
    [(''agent:create'', ''Create Agent'',
      Some ''Allows creating new agents in a project.''),
     (''agent:read'', ''Read Agent'',
      Some ''Allows reading agent configuration and history.''),
     (''agent:update'', ''Update Agent'',
      Some ''Allows updating, building, publishing, and managing integrations of agents.''),
     (''agent:delete'', ''Delete Agent'',
      Some ''Allows deleting agents.''),
     (''agent:list'', ''List Agents'',
      Some ''Allows listing agents in a project.''),
     (''agent:execute'', ''Execute Agent'',
      Some ''Allows running agents in chat.''),
     (''agent:publish'', ''Publish Agent'',
      Some ''Allows publishing agents.''),
     (''agent:unpublish'', ''Unpublish Agent'',
      Some ''Allows unpublishing agents.''),
     (''aiAssistant:manage'', ''Manage AI Usage'',
      Some ''Allows managing AI Usage settings.''),
     (''encryptionKey:manage'', ''Manage Encryption Keys'',
      Some ''Allows listing and rotating instance encryption keys.''),
     (''annotationTag:create'', ''Create Annotation Tag'',
      Some ''Allows creating new annotation tags.''),
     (''workflow:publish'', ''Publish Workflow'',
      Some ''Allows publishing workflows.''),
     (''workflow:unpublish'', ''Unpublish Workflow'',
      Some ''Allows unpublishing workflows.''),
     (''workflow:unshare'', ''Unshare Workflow'',
      Some ''Allows removing workflow shares.''),
     (''workflow:export'', ''Export Workflow'',
      Some ''Allows including workflows in a portable package export.''),
     (''workflow:import'', ''Import Workflow'',
      Some ''Allows importing workflows from a portable package into the project.''),
     (''credential:unshare'', ''Unshare Credential'',
      Some ''Allows removing credential shares.''),
     (''insights:read'', ''Read Insights'',
      Some ''Allows reading insights data.'')]"

end
