(* ===== verification/Permissions.thy ===== *)
theory Permissions
  imports Scope_Tables
begin

text \<open>
  The permission checks of \<open>packages/@n8n/permissions/src\<close>: combining the scopes of the
  three levels, testing for a scope, the scopes of a role, the permission record the clients
  read, and the scopes an API key may carry.  The main results characterise
  \<open>hasScope\<close> by an explicit grant relation, show that the static roles of each namespace
  form a hierarchy the check respects, and that an API key never carries a scope outside the
  public API or outside what its owner's role grants.
\<close>

section \<open>Definitions\<close>

subsection \<open>Strings\<close>

text \<open>\<open>String.prototype.split\<close> with a separator of one character.\<close>

fun js_split :: "char \<Rightarrow> string \<Rightarrow> string list" where
  "js_split c [] = [[]]"
| "js_split c (x # xs) =
    (if x = c then [] # js_split c xs
     else (case js_split c xs of [] \<Rightarrow> [[x]] | p # ps \<Rightarrow> (x # p) # ps))"

text \<open>
  \<open>const [prefix, suffix] = scope.split(':')\<close>.  A scope without a colon has the suffix
  \<open>undefined\<close>, which names the property \<open>undefined\<close> when it is used as a key.
\<close>

definition scope_prefix :: "Scope \<Rightarrow> string" where
  "scope_prefix s = hd (js_split CHR '':'' s)"

definition scope_suffix :: "Scope \<Rightarrow> string" where
  "scope_suffix s = (case js_split CHR '':'' s of _ # op # _ \<Rightarrow> op | _ \<Rightarrow> ''undefined'')"

subsection \<open>Types\<close>

text \<open>
  \<open>ScopeLevels\<close> is an object with up to three properties, in the order in which the caller
  wrote them.  An optional property may be missing, or be present with the value
  \<open>undefined\<close> (\<open>None\<close>).
\<close>

datatype scope_level = LvGlobal | LvProject | LvResource

type_synonym ScopeLevels = "(scope_level, Scope list option) js_map"

record MaskLevels =
  sharing :: "Scope list"

datatype scope_mode = OneOf | AllOf

datatype scope_arg = OneScope Scope | ManyScopes "Scope list"

record DbRole =
  role_slug :: string
  role_scopes :: "Scope list"

text \<open>A principal whose role was not loaded has \<open>role\<close> undefined.\<close>

record AuthPrincipal =
  principal_role :: "DbRole option"

subsection \<open>Combining and testing scopes\<close>

fun scope_array :: "scope_arg \<Rightarrow> Scope list" where
  "scope_array (OneScope s) = [s]"
| "scope_array (ManyScopes ss) = ss"

definition copyLevel ::
  "scope_level \<times> Scope list option \<Rightarrow> (scope_level, Scope list) js_map \<Rightarrow>
   (scope_level, Scope list) js_map result" where
  "copyLevel e copied = (case snd e of
      None \<Rightarrow> Inl TypeError
    | Some ss \<Rightarrow> Inr (map_set (fst e) ss copied))"

definition maskLevel ::
  "Scope list \<Rightarrow> scope_level \<Rightarrow> (scope_level, Scope list) js_map \<Rightarrow>
   (scope_level, Scope list) js_map" where
  "maskLevel shared lv levels = (case map_get levels lv of
      None \<Rightarrow> levels
    | Some ss \<Rightarrow> map_set lv (filter (\<lambda>v. v \<in> set shared) ss) levels)"

definition combineScopes :: "ScopeLevels \<Rightarrow> MaskLevels option \<Rightarrow> Scope js_set result" where
  "combineScopes userScopes masks =
    rbind (rfold copyLevel userScopes []) (\<lambda>copied.
      let masked = (case masks of
          None \<Rightarrow> copied
        | Some m \<Rightarrow> maskLevel (sharing m) LvResource (maskLevel (sharing m) LvProject copied))
      in Inr (set_of_array (concat (map_values masked))))"

definition hasScope ::
  "scope_arg \<Rightarrow> ScopeLevels \<Rightarrow> MaskLevels option \<Rightarrow> scope_mode option \<Rightarrow> bool result" where
  "hasScope scope userScopes masks options =
    (let ss = scope_array scope in
     rbind (combineScopes userScopes masks) (\<lambda>userScopeSet.
       Inr (if options = Some AllOf
            then ss \<noteq> [] \<and> list_all (\<lambda>s. set_has userScopeSet s) ss
            else list_ex (\<lambda>s. set_has userScopeSet s) ss)))"

subsection \<open>Scopes of roles and principals\<close>

text \<open>\<open>Object.fromEntries\<close> over the entries of the five role maps.\<close>

definition COMBINED_ROLE_MAP :: role_map where
  "COMBINED_ROLE_MAP = fold (\<lambda>(k, v). map_set k v) (concat (map_values ALL_ROLE_MAPS)) []"

definition filter_scopes :: "string list option \<Rightarrow> Scope list \<Rightarrow> Scope list" where
  "filter_scopes filters ss = (case filters of
      None \<Rightarrow> ss
    | Some rs \<Rightarrow> filter (\<lambda>s. scope_prefix s \<in> set rs) ss)"

text \<open>The lookup of a role outside the map is \<open>undefined\<close>, on which \<open>filter\<close> throws.\<close>

definition getRoleScopes :: "string \<Rightarrow> string list option \<Rightarrow> Scope list option result" where
  "getRoleScopes role filters = (case map_get COMBINED_ROLE_MAP role of
      None \<Rightarrow> (if filters = None then Inr None else Inl TypeError)
    | Some ss \<Rightarrow> Inr (Some (filter_scopes filters ss)))"

definition getGlobalScopes :: "AuthPrincipal \<Rightarrow> Scope list result" where
  "getGlobalScopes user = (case principal_role user of
      None \<Rightarrow> Inl TypeError
    | Some r \<Rightarrow> Inr (role_scopes r))"

definition getAuthPrincipalScopes :: "AuthPrincipal \<Rightarrow> string list option \<Rightarrow> Scope list result" where
  "getAuthPrincipalScopes user filters = (case principal_role user of
      None \<Rightarrow> Inl (AppError ''AuthPrincipal does not have a role defined'')
    | Some r \<Rightarrow> Inr (filter_scopes filters (role_scopes r)))"

definition hasGlobalScope ::
  "AuthPrincipal \<Rightarrow> scope_arg \<Rightarrow> scope_mode option \<Rightarrow> bool result" where
  "hasGlobalScope user scope scopeOptions =
    rbind (getAuthPrincipalScopes user None) (\<lambda>ss.
      hasScope scope [(LvGlobal, Some ss)] None scopeOptions)"

definition staticRolesWithScope :: "RoleNamespace \<Rightarrow> scope_arg \<Rightarrow> string list result" where
  "staticRolesWithScope namespace scopes = (case map_get ALL_ROLE_MAPS namespace of
      None \<Rightarrow> Inl TypeError
    | Some m \<Rightarrow> Inr (filter (\<lambda>k.
        list_all (\<lambda>s. (case map_get m k of Some ss \<Rightarrow> s \<in> set ss | None \<Rightarrow> False))
          (scope_array scopes)) (map_keys m)))"

subsection \<open>The permission record\<close>

type_synonym PermissionsRecord = "(string, (string, bool) js_map) js_map"

definition resourcePermissions :: "string \<Rightarrow> Scope list \<Rightarrow> (string, bool) js_map" where
  "resourcePermissions key ss =
    fold (\<lambda>scope acc. if scope_prefix scope = key then map_set (scope_suffix scope) True acc else acc)
      ss []"

definition getResourcePermissions :: "Scope list option \<Rightarrow> PermissionsRecord" where
  "getResourcePermissions resourceScopes =
    (let ss = (case resourceScopes of None \<Rightarrow> [] | Some xs \<Rightarrow> xs) in
     fold (\<lambda>key permissions. map_set key (resourcePermissions key ss) permissions)
       (map_keys RESOURCES) [])"

subsection \<open>Public API keys\<close>

definition isApiKeyScope :: "Scope \<Rightarrow> bool" where
  "isApiKeyScope s = set_has ALL_API_KEY_SCOPES s"

definition getApiKeyScopesForRole :: "AuthPrincipal \<Rightarrow> Scope list result" where
  "getApiKeyScopesForRole user = (case principal_role user of
      None \<Rightarrow> Inl TypeError
    | Some r \<Rightarrow> Inr (if role_slug r = ''global:chatUser'' then []
        else set_of_array (filter isApiKeyScope
               (role_scopes r @ API_KEY_SCOPES_FOR_IMPLICIT_PERSONAL_PROJECT))))"

text \<open>\<open>new Set(undefined)\<close> is the empty set.\<close>

definition api_key_scope_set :: "string \<Rightarrow> Scope js_set" where
  "api_key_scope_set role = (case map_get MAP_ROLE_SCOPES role of
      None \<Rightarrow> [] | Some ss \<Rightarrow> set_of_array ss)"

definition getOwnerOnlyApiKeyScopes :: "Scope list" where
  "getOwnerOnlyApiKeyScopes =
    fold set_delete (api_key_scope_set ''global:member'') (api_key_scope_set ''global:owner'')"

definition isAssignableProjectRoleSlug :: "string \<Rightarrow> bool" where
  "isAssignableProjectRoleSlug slug =
    (take 8 slug = ''project:'' \<and> slug \<noteq> PROJECT_OWNER_ROLE_SLUG)"

subsection \<open>Role objects\<close>

definition ROLE_NAMES :: "(string, string) js_map" where
  "ROLE_NAMES =
    [(''global:owner'', ''Owner''),
     (''global:admin'', ''Admin''),
     (''global:member'', ''Member''),
     (''global:chatUser'', ''Chat User''),
     (PROJECT_OWNER_ROLE_SLUG, ''Project Owner''),
     (PROJECT_ADMIN_ROLE_SLUG, ''Project Admin''),
     (PROJECT_EDITOR_ROLE_SLUG, ''Project Editor''),
     (PROJECT_VIEWER_ROLE_SLUG, ''Project Viewer''),
     (PROJECT_CHAT_USER_ROLE_SLUG, ''Project Chat User''),
     (''credential:user'', ''Credential User''),
     (''credential:owner'', ''Credential Owner''),
     (''workflow:owner'', ''Workflow Owner''),
     (''workflow:editor'', ''Workflow Editor''),
     (''workflow:viewer'', ''Workflow Viewer''),
     (''secretsProviderConnection:owner'', ''Secrets Provider Connection Owner''),
     (''secretsProviderConnection:user'', ''Secrets Provider Connection User'')]"

definition ROLE_DESCRIPTIONS :: "(string, string) js_map" where
  "ROLE_DESCRIPTIONS =
    [(''global:owner'', ''Owner''),
     (''global:admin'', ''Admin''),
     (''global:member'', ''Member''),
     (''global:chatUser'', ''Chat User''),
     (PROJECT_OWNER_ROLE_SLUG, ''Project Owner''),
     (PROJECT_ADMIN_ROLE_SLUG,
      ''Full control of settings, members, workflows, credentials and executions''),
     (PROJECT_EDITOR_ROLE_SLUG, ''Create, edit, and delete workflows, credentials, and executions''),
     (PROJECT_VIEWER_ROLE_SLUG, ''Read-only access to workflows, credentials, and executions''),
     (PROJECT_CHAT_USER_ROLE_SLUG,
      ''Chat-only access to chatting with workflows that have n8n Chat enabled''),
     (''credential:user'', ''Credential User''),
     (''credential:owner'', ''Credential Owner''),
     (''workflow:owner'', ''Workflow Owner''),
     (''workflow:editor'', ''Workflow Editor''),
     (''workflow:viewer'', ''Read-only access to view and export the workflow''),
     (''secretsProviderConnection:owner'',
      ''Full control of secrets provider connection settings and secrets''),
     (''secretsProviderConnection:user'', ''Read-only access to use secrets from the connection'')]"

text \<open>Fields the lookup may leave undefined are options.\<close>

record RoleObject =
  ro_slug :: string
  ro_displayName :: "string option"
  ro_scopes :: "Scope list option"
  ro_description :: "string option"
  ro_licensed :: bool
  ro_systemRole :: bool
  ro_roleType :: RoleNamespace

definition roleObject :: "RoleNamespace \<Rightarrow> string \<Rightarrow> RoleObject result" where
  "roleObject roleType role = rbind (getRoleScopes role None) (\<lambda>ss. Inr
    \<lparr>ro_slug = role, ro_displayName = map_get ROLE_NAMES role, ro_scopes = ss,
     ro_description = map_get ROLE_DESCRIPTIONS role, ro_licensed = False,
     ro_systemRole = True, ro_roleType = roleType\<rparr>)"

definition mapToRoleObject :: "role_map \<Rightarrow> RoleNamespace \<Rightarrow> RoleObject list result" where
  "mapToRoleObject roles roleType =
    rfold (\<lambda>role acc. rbind (roleObject roleType role) (\<lambda>ro. Inr (acc @ [ro]))) (map_keys roles) []"

definition ALL_ROLES :: "(RoleNamespace \<times> RoleObject list) list result" where
  "ALL_ROLES = rfold (\<lambda>(ns, roles) acc.
      rbind (mapToRoleObject roles ns) (\<lambda>ros. Inr (acc @ [(ns, ros)])))
    [(NsGlobal, GLOBAL_SCOPE_MAP), (NsProject, PROJECT_SCOPE_MAP),
     (NsCredential, CREDENTIALS_SHARING_SCOPE_MAP), (NsWorkflow, WORKFLOW_SHARING_SCOPE_MAP),
     (NsSecretsProviderConnection, SECRETS_PROVIDER_CONNECTION_SHARING_SCOPE_MAP)] []"

definition isBuiltInRole :: "string \<Rightarrow> bool" where
  "isBuiltInRole role = (map_get ROLE_NAMES role \<noteq> None)"

section \<open>Splitting scopes\<close>

lemma js_split_no_sep: "c \<notin> set s \<Longrightarrow> js_split c s = [s]"
  by (induction s) auto

lemma js_split_sep: "c \<notin> set p \<Longrightarrow> js_split c (p @ c # q) = p # js_split c q"
  by (induction p) auto

lemma js_split_not_Nil [simp]: "js_split c s \<noteq> []"
  by (cases s) (auto split: list.splits)

text \<open>A scope with one colon is the prefix, the colon and the suffix; a scope without is its prefix.\<close>

definition scope_form :: "Scope \<Rightarrow> bool" where
  "scope_form s = (length (filter (\<lambda>c. c = CHR '':'') s) \<le> 1)"

lemma scope_parts:
  assumes "CHR '':'' \<notin> set r" "CHR '':'' \<notin> set op"
  shows "scope_prefix (r @ '':'' @ op) = r" "scope_suffix (r @ '':'' @ op) = op"
  using js_split_sep [of _ r op] js_split_no_sep [of _ op] assms
  by (simp_all add: scope_prefix_def scope_suffix_def)

lemma scope_no_colon:
  assumes "CHR '':'' \<notin> set s"
  shows "scope_prefix s = s" "scope_suffix s = ''undefined''"
  using js_split_no_sep [OF assms] by (simp_all add: scope_prefix_def scope_suffix_def)

lemma scope_form_cases:
  assumes "scope_form s"
  obtains (plain) "CHR '':'' \<notin> set s"
    | (pair) r op where "s = r @ '':'' @ op" "CHR '':'' \<notin> set r" "CHR '':'' \<notin> set op"
proof (cases "CHR '':'' \<in> set s")
  case True
  then obtain r op where s: "s = r @ CHR '':'' # op" "CHR '':'' \<notin> set r"
    by (meson split_list_first)
  with assms have "filter (\<lambda>c. c = CHR '':'') op = []"
    by (auto simp: scope_form_def)
  then have "CHR '':'' \<notin> set op"
    by (auto simp: filter_empty_conv)
  with s pair show ?thesis
    by simp
qed (use plain in blast)

section \<open>Combining scopes\<close>

text \<open>
  The specification: a level contributes its scopes; the global level always counts, the project
  and the resource level only within the sharing mask.
\<close>

definition level_scopes :: "ScopeLevels \<Rightarrow> scope_level \<Rightarrow> Scope set" where
  "level_scopes userScopes lv = (case map_get userScopes lv of
      Some (Some ss) \<Rightarrow> set ss | _ \<Rightarrow> {})"

definition grants :: "ScopeLevels \<Rightarrow> MaskLevels option \<Rightarrow> Scope \<Rightarrow> bool" where
  "grants userScopes masks s =
    (s \<in> level_scopes userScopes LvGlobal \<or>
     s \<in> level_scopes userScopes LvProject \<union> level_scopes userScopes LvResource \<and>
     (case masks of None \<Rightarrow> True | Some m \<Rightarrow> s \<in> set (sharing m)))"

lemma copyLevels_undefined:
  "None \<in> snd ` set userScopes \<Longrightarrow> rfold copyLevel userScopes acc = Inl TypeError"
  by (induction userScopes arbitrary: acc) (auto simp: copyLevel_def split: option.splits)

lemma copyLevels_defined:
  assumes "None \<notin> snd ` set userScopes" "map_wf (acc @ map (\<lambda>(k, v). (k, the v)) userScopes)"
  shows "rfold copyLevel userScopes acc = Inr (acc @ map (\<lambda>(k, v). (k, the v)) userScopes)"
  using assms
proof (induction userScopes arbitrary: acc)
  case (Cons e us)
  obtain k ss where e: "e = (k, Some ss)"
    using Cons.prems(1) by (cases e; cases "snd e") auto
  have "map_get acc k = None"
    using Cons.prems(2) e by (auto simp: map_of_eq_None_iff)
  then have "map_set k ss acc = acc @ [(k, ss)]"
    by (rule set_map_set_new)
  with Cons e show ?case
    by (simp add: copyLevel_def)
qed simp

lemma map_keys_the: "map fst (map (\<lambda>(k, v). (k, the v)) us) = map fst us"
  by (induction us) auto

lemma map_of_the: "map_of (map (\<lambda>(k, v). (k, the v)) us) k = map_option the (map_of us k)"
  by (induction us) auto

text \<open>Every entry of a well-formed map is what a lookup finds.\<close>

lemma set_concat_values:
  "map_wf m \<Longrightarrow> set (concat (map_values m)) = {s. \<exists>k ss. map_get m k = Some ss \<and> s \<in> set ss}"
  by (force simp: map_of_eq_Some_iff)

lemma map_get_maskLevel:
  "map_get (maskLevel shared lv m) k =
    (if k = lv then map_option (filter (\<lambda>v. v \<in> set shared)) (map_get m k) else map_get m k)"
  by (auto simp: maskLevel_def split: option.splits)

lemma map_wf_maskLevel [simp]: "map_wf m \<Longrightarrow> map_wf (maskLevel shared lv m)"
  by (auto simp: maskLevel_def simp del: fst_conv split: option.splits)

lemma scope_level_ex: "(\<exists>lv. P lv) \<longleftrightarrow> P LvGlobal \<or> P LvProject \<or> P LvResource"
  by (metis scope_level.exhaust)

lemma combineScopes_undefined:
  "None \<in> snd ` set userScopes \<Longrightarrow> combineScopes userScopes masks = Inl TypeError"
  by (simp add: combineScopes_def copyLevels_undefined)

lemma combineScopes_defined:
  assumes "map_wf userScopes" "None \<notin> snd ` set userScopes"
  obtains ss where "combineScopes userScopes masks = Inr ss" "distinct ss"
    "set ss = {s. grants userScopes masks s}"
proof -
  define copied where "copied = map (\<lambda>(k, v). (k, the v)) userScopes"
  have wf: "map_wf copied"
    using assms(1) unfolding copied_def map_keys_the .
  have copy: "rfold copyLevel userScopes [] = Inr copied"
    using copyLevels_defined [OF assms(2), of "[]"] wf by (simp add: copied_def)
  have lv: "level_scopes userScopes k = (case map_get copied k of Some ss \<Rightarrow> set ss | None \<Rightarrow> {})" for k
    using assms(2) unfolding level_scopes_def copied_def map_of_the
    by (auto split: option.splits dest!: map_of_SomeD simp: image_iff)
  define masked where "masked = (case masks of None \<Rightarrow> copied
    | Some m \<Rightarrow> maskLevel (sharing m) LvResource (maskLevel (sharing m) LvProject copied))"
  have wfm: "map_wf masked"
    using wf by (simp add: masked_def split: option.splits)
  have "combineScopes userScopes masks = Inr (set_of_array (concat (map_values masked)))"
    by (simp add: combineScopes_def copy masked_def)
  moreover have "set (set_of_array (concat (map_values masked))) = {s. grants userScopes masks s}"
    unfolding set_set_of_array set_concat_values [OF wfm] scope_level_ex grants_def lv
    by (auto simp: masked_def map_get_maskLevel split: option.splits)
  ultimately show thesis
    using that by simp
qed

section \<open>Testing for scopes\<close>

text \<open>The check compares scopes literally.\<close>

lemma hasScope_grants:
  assumes "map_wf userScopes"
  shows "hasScope scope userScopes masks options =
    (if None \<in> snd ` set userScopes then Inl TypeError
     else Inr (case options of
         Some AllOf \<Rightarrow> scope_array scope \<noteq> [] \<and> (\<forall>s\<in>set (scope_array scope). grants userScopes masks s)
       | _ \<Rightarrow> (\<exists>s\<in>set (scope_array scope). grants userScopes masks s)))"
proof (cases "None \<in> snd ` set userScopes")
  case True
  then show ?thesis
    by (simp add: hasScope_def combineScopes_undefined)
next
  case False
  obtain ss where "combineScopes userScopes masks = Inr ss" "set ss = {s. grants userScopes masks s}"
    using combineScopes_defined [OF assms False] by metis
  with False show ?thesis
    by (simp add: hasScope_def Let_def list_all_iff list_ex_iff split: option.splits scope_mode.splits)
qed

text \<open>What the type of the scopes documents: a scope is granted by itself and by the wildcard scopes that
  apply to it.\<close>

definition is_wildcard :: "Scope \<Rightarrow> bool" where
  "is_wildcard h \<longleftrightarrow> h = ''*'' \<or> drop (length h - 2) h = '':*''"

definition applies_to :: "Scope \<Rightarrow> Scope \<Rightarrow> bool" where
  "applies_to h s \<longleftrightarrow> h = s \<or> h = ''*'' \<or> drop (length h - 2) h = '':*'' \<and> take (length h - 1) s = butlast h"

definition documented_grants :: "ScopeLevels \<Rightarrow> MaskLevels option \<Rightarrow> Scope \<Rightarrow> bool" where
  "documented_grants userScopes masks s \<longleftrightarrow>
     (\<exists>h\<in>level_scopes userScopes LvGlobal. applies_to h s) \<or>
     (\<exists>h\<in>level_scopes userScopes LvProject \<union> level_scopes userScopes LvResource. applies_to h s) \<and>
     (case masks of None \<Rightarrow> True | Some m \<Rightarrow> \<exists>h\<in>set (sharing m). applies_to h s)"

definition no_wildcards :: "ScopeLevels \<Rightarrow> MaskLevels option \<Rightarrow> bool" where
  "no_wildcards userScopes masks \<longleftrightarrow>
     (\<forall>lv. \<forall>h\<in>level_scopes userScopes lv. \<not> is_wildcard h) \<and>
     (case masks of None \<Rightarrow> True | Some m \<Rightarrow> \<forall>h\<in>set (sharing m). \<not> is_wildcard h)"

lemma documented_grants_literal:
  assumes "no_wildcards userScopes masks"
  shows "documented_grants userScopes masks s \<longleftrightarrow> grants userScopes masks s"
proof -
  have literal: "applies_to h s \<longleftrightarrow> h = s" if "\<not> is_wildcard h" for h
    using that by (auto simp: applies_to_def is_wildcard_def)
  then have "(\<exists>h\<in>level_scopes userScopes lv. applies_to h s) \<longleftrightarrow> s \<in> level_scopes userScopes lv" for lv
    using assms by (fastforce simp: no_wildcards_def)
  moreover have "(\<exists>h\<in>set (sharing m). applies_to h s) \<longleftrightarrow> s \<in> set (sharing m)" if "masks = Some m" for m
    using literal assms that by (fastforce simp: no_wildcards_def)
  ultimately show ?thesis
    by (auto simp: documented_grants_def grants_def bex_Un split: option.splits)
qed

text \<open>\<^bold>\<open>C29.\<close> 
  When neither the levels nor the sharing mask hold a wildcard scope, \<open>hasScope\<close> answers exactly what
  the documented grant relation says: in mode \<open>oneOf\<close> (the default) whether some requested scope is
  granted, in mode \<open>allOf\<close> whether the request is not empty and every requested scope is granted.  A
  level that is present but undefined makes the copy of the levels throw, whatever is asked.
\<close>

theorem hasScope_correct:
  assumes "map_wf userScopes" "no_wildcards userScopes masks"
  shows "hasScope scope userScopes masks options =
    (if None \<in> snd ` set userScopes then Inl TypeError
     else Inr (case options of
         Some AllOf \<Rightarrow> scope_array scope \<noteq> [] \<and> (\<forall>s\<in>set (scope_array scope). documented_grants userScopes masks s)
       | _ \<Rightarrow> (\<exists>s\<in>set (scope_array scope). documented_grants userScopes masks s)))"
  unfolding documented_grants_literal [OF assms(2)] by (rule hasScope_grants [OF assms(1)])

theorem hasScope_correct_witness:
  "hasScope (ManyScopes [''user:list'', ''workflow:read''])
      [(LvGlobal, Some [''user:list'']), (LvProject, Some [''workflow:read'', ''workflow:update''])]
      (Some \<lparr>sharing = [''workflow:read'']\<rparr>) (Some AllOf) = Inr True \<and>
   hasScope (OneScope ''workflow:update'')
      [(LvGlobal, Some [''user:list'']), (LvProject, Some [''workflow:read'', ''workflow:update''])]
      (Some \<lparr>sharing = [''workflow:read'']\<rparr>) None = Inr False"
proof -
  let ?us = "[(LvGlobal, Some [''user:list'']), (LvProject, Some [''workflow:read'', ''workflow:update''])]"
  let ?m = "Some \<lparr>sharing = [''workflow:read'']\<rparr>"
  have wf: "map_wf ?us" and wild: "no_wildcards ?us ?m"
    by (simp_all add: no_wildcards_def level_scopes_def is_wildcard_def)
  show ?thesis
    using hasScope_correct [OF wf wild, of "ManyScopes [''user:list'', ''workflow:read'']" "Some AllOf"]
      hasScope_correct [OF wf wild, of "OneScope ''workflow:update''" None]
    by (simp add: documented_grants_literal [OF wild] grants_def level_scopes_def)
qed

text \<open>The test with one level only, as the global check uses it.\<close>

lemma hasScope_single:
  "hasScope scope [(LvGlobal, Some ss)] None options =
    Inr (if options = Some AllOf then scope_array scope \<noteq> [] \<and> set (scope_array scope) \<subseteq> set ss
         else set (scope_array scope) \<inter> set ss \<noteq> {})"
proof -
  have "map_wf [(LvGlobal, Some ss)]" "None \<notin> snd ` set [(LvGlobal, Some ss)]"
    by simp_all
  then obtain xs where "combineScopes [(LvGlobal, Some ss)] None = Inr xs"
      "set xs = {s. grants [(LvGlobal, Some ss)] None s}"
    using combineScopes_defined by metis
  then show ?thesis
    by (auto simp: hasScope_def Let_def list_all_iff list_ex_iff grants_def level_scopes_def)
qed

text \<open>
  No privilege is lost by being given more: with larger levels and no narrower mask every
  successful check still succeeds.
\<close>

definition levels_le :: "ScopeLevels \<Rightarrow> ScopeLevels \<Rightarrow> bool" where
  "levels_le us us' = (\<forall>lv. level_scopes us lv \<subseteq> level_scopes us' lv)"

definition mask_le :: "MaskLevels option \<Rightarrow> MaskLevels option \<Rightarrow> bool" where
  "mask_le m m' = (case m' of None \<Rightarrow> True
    | Some k' \<Rightarrow> (case m of None \<Rightarrow> False | Some k \<Rightarrow> set (sharing k) \<subseteq> set (sharing k')))"

lemma grants_mono: "levels_le us us' \<Longrightarrow> mask_le m m' \<Longrightarrow> grants us m s \<Longrightarrow> grants us' m' s"
  by (fastforce simp: grants_def levels_le_def mask_le_def split: option.splits)

lemma hasScope_mono:
  assumes "map_wf us" "map_wf us'" "None \<notin> snd ` set us'" "levels_le us us'" "mask_le m m'"
    "hasScope scope us m options = Inr True"
  shows "hasScope scope us' m' options = Inr True"
proof -
  have "None \<notin> snd ` set us"
    using assms(6) by (auto simp: hasScope_def Let_def combineScopes_undefined)
  then obtain ss where ss: "combineScopes us m = Inr ss" "set ss = {s. grants us m s}"
    using combineScopes_defined [OF assms(1)] by metis
  obtain ss' where ss': "combineScopes us' m' = Inr ss'" "set ss' = {s. grants us' m' s}"
    using combineScopes_defined [OF assms(2,3)] by metis
  have "set ss \<subseteq> set ss'"
    using ss(2) ss'(2) grants_mono [OF assms(4,5)] by blast
  then show ?thesis
    using assms(6) ss(1) ss'(1)
    by (auto simp: hasScope_def Let_def list_all_iff list_ex_iff split: if_splits)
qed

text \<open>A wildcard scope grants nothing but itself.\<close>

theorem hasScope_no_wildcards:
  "hasScope (OneScope ''workflow:read'') [(LvGlobal, Some [''*'', ''workflow:*''])] None None = Inr False"
  by (simp add: hasScope_single)

section \<open>The static roles\<close>

text \<open>Introduction rules that find a literal in a table without comparing strings.\<close>

lemma table_subsetI: "list_all (\<lambda>s. s \<in> set ys) xs \<Longrightarrow> set xs \<subseteq> set ys"
  by (auto simp: list_all_iff)

lemma list_all_ConsI: "P x \<Longrightarrow> list_all P xs \<Longrightarrow> list_all P (x # xs)"
  by simp

lemma list_all_NilI: "list_all P []"
  by simp

lemmas table_intros = list_all_NilI list_all_ConsI list.set_intros

lemma global_chatUser_below_member: "set GLOBAL_CHAT_USER_SCOPES \<subseteq> set GLOBAL_MEMBER_SCOPES"
  unfolding GLOBAL_CHAT_USER_SCOPES_def GLOBAL_MEMBER_SCOPES_def
  by (rule table_subsetI) (rule table_intros)+

lemma global_member_below_owner: "set GLOBAL_MEMBER_SCOPES \<subseteq> set GLOBAL_OWNER_SCOPES"
  unfolding GLOBAL_MEMBER_SCOPES_def GLOBAL_OWNER_SCOPES_def
  by (rule table_subsetI) (rule table_intros)+

lemma project_chatUser_below_viewer: "set PROJECT_CHAT_USER_SCOPES \<subseteq> set PROJECT_VIEWER_SCOPES"
  unfolding PROJECT_CHAT_USER_SCOPES_def PROJECT_VIEWER_SCOPES_def
  by (rule table_subsetI) (rule table_intros)+

lemma project_viewer_below_editor: "set PROJECT_VIEWER_SCOPES \<subseteq> set PROJECT_EDITOR_SCOPES"
  unfolding PROJECT_VIEWER_SCOPES_def PROJECT_EDITOR_SCOPES_def
  by (rule table_subsetI) (rule table_intros)+

lemma project_editor_below_admin: "set PROJECT_EDITOR_SCOPES \<subseteq> set REGULAR_PROJECT_ADMIN_SCOPES"
  unfolding PROJECT_EDITOR_SCOPES_def REGULAR_PROJECT_ADMIN_SCOPES_def
  by (rule table_subsetI) (rule table_intros)+

lemma project_admin_below_owner: "set REGULAR_PROJECT_ADMIN_SCOPES \<subseteq> set GLOBAL_OWNER_SCOPES"
  unfolding REGULAR_PROJECT_ADMIN_SCOPES_def GLOBAL_OWNER_SCOPES_def
  by (rule table_subsetI) (rule table_intros)+

lemma credential_user_below_owner:
  "set CREDENTIALS_SHARING_USER_SCOPES \<subseteq> set CREDENTIALS_SHARING_OWNER_SCOPES"
  unfolding CREDENTIALS_SHARING_USER_SCOPES_def CREDENTIALS_SHARING_OWNER_SCOPES_def
  by (rule table_subsetI) (rule table_intros)+

lemma workflow_viewer_below_editor:
  "set WORKFLOW_SHARING_VIEWER_SCOPES \<subseteq> set WORKFLOW_SHARING_EDITOR_SCOPES"
  unfolding WORKFLOW_SHARING_VIEWER_SCOPES_def WORKFLOW_SHARING_EDITOR_SCOPES_def
  by (rule table_subsetI) (rule table_intros)+

lemma workflow_editor_below_owner:
  "set WORKFLOW_SHARING_EDITOR_SCOPES \<subseteq> set WORKFLOW_SHARING_OWNER_SCOPES"
  unfolding WORKFLOW_SHARING_EDITOR_SCOPES_def WORKFLOW_SHARING_OWNER_SCOPES_def
  by (rule table_subsetI) (rule table_intros)+

lemma secrets_user_below_owner:
  "set SECRETS_PROVIDER_CONNECTION_SHARING_USER_SCOPES
    \<subseteq> set SECRETS_PROVIDER_CONNECTION_SHARING_OWNER_SCOPES"
  unfolding SECRETS_PROVIDER_CONNECTION_SHARING_USER_SCOPES_def
    SECRETS_PROVIDER_CONNECTION_SHARING_OWNER_SCOPES_def
  by (rule table_subsetI) (rule table_intros)+

lemmas role_tables_below =
  global_chatUser_below_member global_member_below_owner project_chatUser_below_viewer
  project_viewer_below_editor project_editor_below_admin project_admin_below_owner
  credential_user_below_owner workflow_viewer_below_editor workflow_editor_below_owner
  secrets_user_below_owner

text \<open>No two namespaces share a role slug, so the combined map has every entry of the five maps.\<close>

lemmas role_map_defs =
  ALL_ROLE_MAPS_def GLOBAL_SCOPE_MAP_def PROJECT_SCOPE_MAP_def CREDENTIALS_SHARING_SCOPE_MAP_def
  WORKFLOW_SHARING_SCOPE_MAP_def SECRETS_PROVIDER_CONNECTION_SHARING_SCOPE_MAP_def

lemma combined_keys_distinct: "map_wf (concat (map_values ALL_ROLE_MAPS))"
  by (simp add: role_map_defs)

text \<open>No static role has a wildcard scope.\<close>

lemma static_roles_no_wildcards:
  "list_all (\<lambda>(role, ss). list_all (\<lambda>s. \<not> is_wildcard s) ss) (concat (map_values ALL_ROLE_MAPS))"
  by code_simp

lemma COMBINED_ROLE_MAP_concat: "COMBINED_ROLE_MAP = concat (map_values ALL_ROLE_MAPS)"
  using fold_map_set_id [of "[]" "concat (map_values ALL_ROLE_MAPS)"] combined_keys_distinct
  by (simp add: COMBINED_ROLE_MAP_def)

lemma combined_lookup:
  assumes "map_get ALL_ROLE_MAPS ns = Some m" "map_get m role = Some ss"
  shows "map_get COMBINED_ROLE_MAP role = Some ss"
proof -
  have "(role, ss) \<in> set (concat (map_values ALL_ROLE_MAPS))"
    using map_of_SomeD [OF assms(1)] map_of_SomeD [OF assms(2)] by force
  then show ?thesis
    unfolding COMBINED_ROLE_MAP_concat using combined_keys_distinct by (simp add: map_of_eq_Some_iff)
qed

text \<open>The steps of the role hierarchy; owner and admin are above each other.\<close>

definition role_steps :: "(string \<times> string) list" where
  "role_steps =
    [(''global:chatUser'', ''global:member''), (''global:member'', ''global:admin''),
     (''global:admin'', ''global:owner''), (''global:owner'', ''global:admin''),
     (''project:chatUser'', ''project:viewer''), (''project:viewer'', ''project:editor''),
     (''project:editor'', ''project:admin''), (''project:admin'', ''global:admin''),
     (''credential:user'', ''credential:owner''),
     (''workflow:viewer'', ''workflow:editor''), (''workflow:editor'', ''workflow:owner''),
     (''secretsProviderConnection:user'', ''secretsProviderConnection:owner'')]"

lemma role_lookups:
  "map_get COMBINED_ROLE_MAP ''global:owner'' = Some GLOBAL_OWNER_SCOPES"
  "map_get COMBINED_ROLE_MAP ''global:admin'' = Some GLOBAL_ADMIN_SCOPES"
  "map_get COMBINED_ROLE_MAP ''global:member'' = Some GLOBAL_MEMBER_SCOPES"
  "map_get COMBINED_ROLE_MAP ''global:chatUser'' = Some GLOBAL_CHAT_USER_SCOPES"
  "map_get COMBINED_ROLE_MAP ''project:admin'' = Some REGULAR_PROJECT_ADMIN_SCOPES"
  "map_get COMBINED_ROLE_MAP ''project:personalOwner'' = Some PERSONAL_PROJECT_OWNER_SCOPES"
  "map_get COMBINED_ROLE_MAP ''project:editor'' = Some PROJECT_EDITOR_SCOPES"
  "map_get COMBINED_ROLE_MAP ''project:viewer'' = Some PROJECT_VIEWER_SCOPES"
  "map_get COMBINED_ROLE_MAP ''project:chatUser'' = Some PROJECT_CHAT_USER_SCOPES"
  "map_get COMBINED_ROLE_MAP ''credential:owner'' = Some CREDENTIALS_SHARING_OWNER_SCOPES"
  "map_get COMBINED_ROLE_MAP ''credential:user'' = Some CREDENTIALS_SHARING_USER_SCOPES"
  "map_get COMBINED_ROLE_MAP ''workflow:owner'' = Some WORKFLOW_SHARING_OWNER_SCOPES"
  "map_get COMBINED_ROLE_MAP ''workflow:editor'' = Some WORKFLOW_SHARING_EDITOR_SCOPES"
  "map_get COMBINED_ROLE_MAP ''workflow:viewer'' = Some WORKFLOW_SHARING_VIEWER_SCOPES"
  "map_get COMBINED_ROLE_MAP ''secretsProviderConnection:owner'' = Some SECRETS_PROVIDER_CONNECTION_SHARING_OWNER_SCOPES"
  "map_get COMBINED_ROLE_MAP ''secretsProviderConnection:user'' = Some SECRETS_PROVIDER_CONNECTION_SHARING_USER_SCOPES"
  unfolding COMBINED_ROLE_MAP_concat by (simp_all add: role_map_defs)

lemma role_step_tables:
  assumes "(lo, hi) \<in> set role_steps"
  shows "\<exists>ls hs. map_get COMBINED_ROLE_MAP lo = Some ls \<and> map_get COMBINED_ROLE_MAP hi = Some hs \<and>
    set ls \<subseteq> set hs"
proof -
  have "list_all (\<lambda>(lo, hi). \<exists>ls hs. map_get COMBINED_ROLE_MAP lo = Some ls \<and>
    map_get COMBINED_ROLE_MAP hi = Some hs \<and> set ls \<subseteq> set hs) role_steps"
    by (simp add: role_steps_def role_lookups GLOBAL_ADMIN_SCOPES_def role_tables_below)
  with assms show ?thesis
    by (auto simp: list_all_iff)
qed

text \<open>\<^bold>\<open>C32.\<close> 
  The static roles form a hierarchy that every check respects: whatever a role passes, at any
  level, under any mask and in either mode, the role above it passes as well, when both have the
  scopes the role table gives them.
\<close>

theorem role_hierarchy:
  assumes "(lo, hi) \<in> set role_steps"
  shows "\<exists>ls hs. getRoleScopes lo None = Inr (Some ls) \<and> getRoleScopes hi None = Inr (Some hs) \<and>
    (\<forall>scope lv masks options. hasScope scope [(lv, Some ls)] masks options = Inr True \<longrightarrow>
       hasScope scope [(lv, Some hs)] masks options = Inr True)"
proof -
  obtain ls hs where t: "map_get COMBINED_ROLE_MAP lo = Some ls" "map_get COMBINED_ROLE_MAP hi = Some hs"
    "set ls \<subseteq> set hs"
    using role_step_tables [OF assms] by blast
  have "hasScope scope [(lv, Some hs)] masks options = Inr True"
    if "hasScope scope [(lv, Some ls)] masks options = Inr True" for scope lv masks options
  proof (rule hasScope_mono [OF _ _ _ _ _ that])
    show "levels_le [(lv, Some ls)] [(lv, Some hs)]"
      using t(3) by (simp add: levels_le_def level_scopes_def)
  qed (simp_all add: mask_le_def split: option.split)
  with t(1,2) show ?thesis
    by (simp add: getRoleScopes_def filter_scopes_def)
qed

theorem role_hierarchy_witness:
  "\<exists>ls hs. getRoleScopes ''project:viewer'' None = Inr (Some ls) \<and>
     getRoleScopes ''project:editor'' None = Inr (Some hs) \<and>
     hasScope (OneScope ''workflow:read'') [(LvProject, Some ls)] None None = Inr True \<and>
     hasScope (OneScope ''workflow:read'') [(LvProject, Some hs)] None None = Inr True"
proof -
  have step: "(''project:viewer'', ''project:editor'') \<in> set role_steps"
    unfolding role_steps_def by simp
  obtain ls hs where r: "getRoleScopes ''project:viewer'' None = Inr (Some ls)"
    "getRoleScopes ''project:editor'' None = Inr (Some hs)"
    and up: "\<forall>scope lv masks options. hasScope scope [(lv, Some ls)] masks options = Inr True \<longrightarrow>
       hasScope scope [(lv, Some hs)] masks options = Inr True"
    using role_hierarchy [OF step] by blast
  have "ls = PROJECT_VIEWER_SCOPES"
    using r(1) by (simp add: getRoleScopes_def filter_scopes_def role_lookups)
  then have "''workflow:read'' \<in> set ls"
    by (simp add: PROJECT_VIEWER_SCOPES_def)
  then have "hasScope (OneScope ''workflow:read'') [(LvProject, Some ls)] None None = Inr True"
    by (simp add: hasScope_def combineScopes_def copyLevel_def list_ex_iff)
  with r up show ?thesis
    by blast
qed

text \<open>
  The personal project owner is not the project admin without renaming and inviting: it may not
  publish or share either, and it may unshare workflows, which the project admin may not.
\<close>

lemma personal_owner_cannot_publish: "''workflow:publish'' \<notin> set PERSONAL_PROJECT_OWNER_SCOPES"
  by (simp add: PERSONAL_PROJECT_OWNER_SCOPES_def)

lemma personal_owner_cannot_share: "''credential:share'' \<notin> set PERSONAL_PROJECT_OWNER_SCOPES"
  by (simp add: PERSONAL_PROJECT_OWNER_SCOPES_def)

lemma project_admin_cannot_unshare: "''workflow:unshare'' \<notin> set REGULAR_PROJECT_ADMIN_SCOPES"
  by (simp add: REGULAR_PROJECT_ADMIN_SCOPES_def)

theorem personal_owner_differs_from_admin:
  "{''workflow:publish'', ''credential:share''}
     \<subseteq> set REGULAR_PROJECT_ADMIN_SCOPES - set PERSONAL_PROJECT_OWNER_SCOPES \<and>
   {''workflow:unshare''} \<subseteq> set PERSONAL_PROJECT_OWNER_SCOPES - set REGULAR_PROJECT_ADMIN_SCOPES"
proof -
  have "set [''workflow:publish'', ''credential:share''] \<subseteq> set REGULAR_PROJECT_ADMIN_SCOPES"
    unfolding REGULAR_PROJECT_ADMIN_SCOPES_def by (rule table_subsetI) (rule table_intros)+
  moreover have "set [''workflow:unshare''] \<subseteq> set PERSONAL_PROJECT_OWNER_SCOPES"
    unfolding PERSONAL_PROJECT_OWNER_SCOPES_def by (rule table_subsetI) (rule table_intros)+
  ultimately show ?thesis
    using personal_owner_cannot_publish personal_owner_cannot_share project_admin_cannot_unshare
    by simp
qed

lemma ALL_ROLE_MAPS_total: "\<exists>m. map_get ALL_ROLE_MAPS ns = Some m"
  by (cases ns) (simp_all add: ALL_ROLE_MAPS_def)

text \<open>
  The fallback that lists the roles of a namespace with given scopes agrees with the check: for a
  request that is not empty it returns exactly the roles of the namespace whose own scopes pass
  \<open>hasScope\<close> in mode \<open>allOf\<close>.
\<close>

theorem staticRolesWithScope_correct:
  assumes "scope_array scopes \<noteq> []"
  shows "\<exists>m rs. map_get ALL_ROLE_MAPS ns = Some m \<and> staticRolesWithScope ns scopes = Inr rs \<and>
    set rs = {role \<in> fst ` set m. \<exists>ss. getRoleScopes role None = Inr (Some ss) \<and>
      hasScope scopes [(LvGlobal, Some ss)] None (Some AllOf) = Inr True}"
proof -
  obtain m where m: "map_get ALL_ROLE_MAPS ns = Some m"
    using ALL_ROLE_MAPS_total by blast
  let ?ok = "\<lambda>role. \<exists>ss. map_get m role = Some ss \<and> set (scope_array scopes) \<subseteq> set ss"
  have "getRoleScopes role None = Inr (Some ss) \<longleftrightarrow> map_get m role = Some ss"
    if role: "role \<in> fst ` set m" for role ss
  proof -
    obtain xs where xs: "map_get m role = Some xs"
      using role by (metis map_of_eq_None_iff not_None_eq)
    show ?thesis
      by (simp add: getRoleScopes_def filter_scopes_def xs combined_lookup [OF m xs])
  qed
  then have "{role \<in> fst ` set m. \<exists>ss. getRoleScopes role None = Inr (Some ss) \<and>
      hasScope scopes [(LvGlobal, Some ss)] None (Some AllOf) = Inr True} = {role \<in> fst ` set m. ?ok role}"
    using assms by (auto simp: hasScope_single)
  moreover have "list_all (\<lambda>s. (case map_get m k of Some ss \<Rightarrow> s \<in> set ss | None \<Rightarrow> False))
      (scope_array scopes) \<longleftrightarrow> ?ok k" for k
    using assms by (cases "map_get m k") (auto simp: list_all_iff neq_Nil_conv)
  ultimately show ?thesis
    using m by (simp add: staticRolesWithScope_def)
qed

theorem staticRolesWithScope_correct_witness:
  "\<exists>rs. staticRolesWithScope NsWorkflow (OneScope ''workflow:delete'') = Inr rs \<and>
     set rs = {''workflow:owner''}"
proof -
  obtain m rs where m: "map_get ALL_ROLE_MAPS NsWorkflow = Some m"
    and rs: "staticRolesWithScope NsWorkflow (OneScope ''workflow:delete'') = Inr rs"
    and set_rs: "set rs = {role \<in> fst ` set m. \<exists>ss. getRoleScopes role None = Inr (Some ss) \<and>
      hasScope (OneScope ''workflow:delete'') [(LvGlobal, Some ss)] None (Some AllOf) = Inr True}"
    using staticRolesWithScope_correct [of "OneScope ''workflow:delete''" NsWorkflow] by auto
  have "m = WORKFLOW_SHARING_SCOPE_MAP"
    using m by (simp add: ALL_ROLE_MAPS_def)
  then have "set rs = {''workflow:owner''}"
    unfolding set_rs
    by (auto simp: WORKFLOW_SHARING_SCOPE_MAP_def getRoleScopes_def filter_scopes_def hasScope_single
        role_lookups WORKFLOW_SHARING_OWNER_SCOPES_def
        WORKFLOW_SHARING_EDITOR_SCOPES_def WORKFLOW_SHARING_VIEWER_SCOPES_def)
  with rs show ?thesis
    by blast
qed

section \<open>The permission record\<close>

lemma fold_permissions_lookup:
  "map_get (fold (\<lambda>scope acc. if scope_prefix scope = key then map_set (scope_suffix scope) True acc
      else acc) ss acc) op =
    (if \<exists>s\<in>set ss. scope_prefix s = key \<and> scope_suffix s = op then Some True else map_get acc op)"
  by (induction ss arbitrary: acc) auto

lemma getResourcePermissions_lookup:
  "map_get (getResourcePermissions (Some ss)) r =
    (if r \<in> fst ` set RESOURCES then Some (resourcePermissions r ss) else None)"
proof -
  have "map_get (fold (\<lambda>key. map_set key (resourcePermissions key ss)) ks acc) r =
    (if r \<in> set ks then Some (resourcePermissions r ss) else map_get acc r)" for ks acc
    by (induction ks arbitrary: acc) auto
  then show ?thesis
    by (simp add: getResourcePermissions_def)
qed

text \<open>\<^bold>\<open>C33.\<close> 
  The record the clients read is the list of scopes in another form: for scopes with at most one
  colon, operation \<open>op\<close> of a resource is marked exactly if the scope \<open>resource:op\<close> is in the
  list and the resource is known.  (The key \<open>undefined\<close> is excluded: a scope without a colon is
  filed under it.)
\<close>

theorem getResourcePermissions_correct:
  assumes "list_all scope_form ss" "op \<noteq> ''undefined''"
  shows "(\<exists>m. map_get (getResourcePermissions (Some ss)) r = Some m \<and> map_get m op = Some True)
    \<longleftrightarrow> r \<in> fst ` set RESOURCES \<and> r @ '':'' @ op \<in> set ss"
proof -
  have "scope_prefix s = r \<and> scope_suffix s = op \<longleftrightarrow> s = r @ '':'' @ op" if "s \<in> set ss" for s
  proof -
    have "scope_form s"
      using assms(1) that by (simp add: list_all_iff)
    then show ?thesis
    proof (cases rule: scope_form_cases)
      case plain
      then show ?thesis
        using assms(2) scope_no_colon [OF plain] by auto
    next
      case (pair r' op')
      then have form: "CHR '':'' \<notin> set r'" "CHR '':'' \<notin> set op'" and s: "s = r' @ CHR '':'' # op'"
        by simp_all
      have "r' = r \<and> op' = op" if eq: "s = r @ CHR '':'' # op"
      proof -
        have "CHR '':'' \<notin> set r" "CHR '':'' \<notin> set op"
          using \<open>scope_form s\<close> eq by (auto simp: scope_form_def filter_empty_conv dest: split_list)
        with form s eq show ?thesis
          by (metis append_eq_append_conv_if append_Cons_eq_iff)
      qed
      then show ?thesis
        using scope_parts [OF form] s by auto
    qed
  qed
  then have "(\<exists>s\<in>set ss. scope_prefix s = r \<and> scope_suffix s = op) \<longleftrightarrow> (\<exists>s\<in>set ss. s = r @ '':'' @ op)"
    by (intro bex_cong refl)
  then show ?thesis
    by (simp add: getResourcePermissions_lookup resourcePermissions_def fold_permissions_lookup)
qed

theorem getResourcePermissions_correct_witness:
  "\<exists>m. map_get (getResourcePermissions (Some [''workflow:read'', ''*'', ''tag:*''])) ''workflow'' = Some m \<and>
     map_get m ''read'' = Some True"
  using getResourcePermissions_correct [of "[''workflow:read'', ''*'', ''tag:*'']" "''read''" "''workflow''"]
  by (simp add: scope_form_def RESOURCES_def)

section \<open>Public API keys\<close>

lemma implicit_scopes_public: "set API_KEY_SCOPES_FOR_IMPLICIT_PERSONAL_PROJECT \<subseteq> set ALL_API_KEY_SCOPES"
  unfolding ALL_API_KEY_SCOPES_def buildApiKeyScopes_def set_set_of_array API_KEY_RESOURCES_def
    API_KEY_SCOPES_FOR_IMPLICIT_PERSONAL_PROJECT_def DEFAULT_OPERATIONS_def list.map prod.case
    append_Cons append_Nil concat.simps
  by (rule table_subsetI) (rule table_intros)+

text \<open>The scopes an API key may carry: none for a chat user; for every other role, each once, the
  role's own scopes that belong to the public API together with the scopes of the implicit
  personal project, and nothing outside the public API.
\<close>

theorem getApiKeyScopesForRole_correct:
  assumes "principal_role user = Some r"
  shows "\<exists>ss. getApiKeyScopesForRole user = Inr ss \<and> distinct ss \<and> set ss \<subseteq> set ALL_API_KEY_SCOPES \<and>
    set ss = (if role_slug r = ''global:chatUser'' then {}
      else set (role_scopes r) \<inter> set ALL_API_KEY_SCOPES
           \<union> set API_KEY_SCOPES_FOR_IMPLICIT_PERSONAL_PROJECT)"
  using assms implicit_scopes_public by (auto simp: getApiKeyScopesForRole_def isApiKeyScope_def)

theorem getApiKeyScopesForRole_correct_witness:
  "\<exists>ss. getApiKeyScopesForRole \<lparr>principal_role = Some \<lparr>role_slug = ''global:member'',
       role_scopes = [''tag:list'']\<rparr>\<rparr> = Inr ss \<and> distinct ss \<and> ''workflow:read'' \<in> set ss"
proof -
  let ?r = "\<lparr>role_slug = ''global:member'', role_scopes = [''tag:list'']\<rparr>"
  have "set [''workflow:read''] \<subseteq> set API_KEY_SCOPES_FOR_IMPLICIT_PERSONAL_PROJECT"
    unfolding API_KEY_SCOPES_FOR_IMPLICIT_PERSONAL_PROJECT_def
    by (rule table_subsetI) (rule table_intros)+
  moreover have "role_slug ?r \<noteq> ''global:chatUser''"
    by simp
  ultimately show ?thesis
    using getApiKeyScopesForRole_correct [of "\<lparr>principal_role = Some ?r\<rparr>" ?r] by auto
qed

lemma set_fold_set_delete: "set (fold set_delete xs acc) = set acc - set xs"
  by (induction xs arbitrary: acc) auto

lemma getOwnerOnlyApiKeyScopes_set:
  "set getOwnerOnlyApiKeyScopes = set OWNER_API_KEY_SCOPES - set MEMBER_API_KEY_SCOPES"
  by (simp add: getOwnerOnlyApiKeyScopes_def api_key_scope_set_def MAP_ROLE_SCOPES_def
      set_fold_set_delete)

lemma user_list_not_member_key: "''user:list'' \<notin> set MEMBER_API_KEY_SCOPES"
  by (simp add: MEMBER_API_KEY_SCOPES_def)

text \<open>
  The tables of API key scopes per role do not agree with what keys are given: \<open>user:list\<close>
  counts as owner-only, yet a key of a member carries it.
\<close>

theorem member_key_has_owner_only_scope:
  "\<exists>ss. getApiKeyScopesForRole \<lparr>principal_role = Some \<lparr>role_slug = ''global:member'',
       role_scopes = GLOBAL_MEMBER_SCOPES\<rparr>\<rparr> = Inr ss \<and>
     ''user:list'' \<in> set ss \<and> ''user:list'' \<in> set getOwnerOnlyApiKeyScopes"
proof -
  have "set [''user:list''] \<subseteq> set GLOBAL_MEMBER_SCOPES"
    unfolding GLOBAL_MEMBER_SCOPES_def by (rule table_subsetI) (rule table_intros)+
  moreover have "set [''user:list''] \<subseteq> set OWNER_API_KEY_SCOPES"
    unfolding OWNER_API_KEY_SCOPES_def by (rule table_subsetI) (rule table_intros)+
  moreover have "set [''user:list''] \<subseteq> set ALL_API_KEY_SCOPES"
    unfolding ALL_API_KEY_SCOPES_def buildApiKeyScopes_def set_set_of_array API_KEY_RESOURCES_def
      DEFAULT_OPERATIONS_def list.map prod.case append_Cons append_Nil concat.simps
    by (rule table_subsetI) (rule table_intros)+
  ultimately show ?thesis
    using user_list_not_member_key
    by (simp add: getApiKeyScopesForRole_def isApiKeyScope_def getOwnerOnlyApiKeyScopes_set)
qed

section \<open>Role objects\<close>

text \<open>The two tables of names and descriptions have an entry for every static role, and no other.\<close>

lemmas slug_defs = PROJECT_OWNER_ROLE_SLUG_def PROJECT_ADMIN_ROLE_SLUG_def PROJECT_EDITOR_ROLE_SLUG_def
  PROJECT_VIEWER_ROLE_SLUG_def PROJECT_CHAT_USER_ROLE_SLUG_def

lemma combined_keys:
  "map fst COMBINED_ROLE_MAP = concat (map (map fst) (map_values ALL_ROLE_MAPS))"
  unfolding COMBINED_ROLE_MAP_concat by (simp add: map_concat)

lemma role_keys: "set (map fst ROLE_NAMES) = set (map fst COMBINED_ROLE_MAP)"
proof (rule subset_antisym)
  show "set (map fst ROLE_NAMES) \<subseteq> set (map fst COMBINED_ROLE_MAP)"
    unfolding combined_keys ROLE_NAMES_def role_map_defs slug_defs list.map fst_conv snd_conv concat.simps
      append_Cons append_Nil
    by (rule table_subsetI) (rule table_intros)+
  show "set (map fst COMBINED_ROLE_MAP) \<subseteq> set (map fst ROLE_NAMES)"
    unfolding combined_keys ROLE_NAMES_def role_map_defs slug_defs list.map fst_conv snd_conv concat.simps
      append_Cons append_Nil
    by (rule table_subsetI) (rule table_intros)+
qed

lemma description_keys: "map fst ROLE_DESCRIPTIONS = map fst ROLE_NAMES"
  by (simp add: ROLE_DESCRIPTIONS_def ROLE_NAMES_def)

lemma isBuiltInRole_iff: "isBuiltInRole role \<longleftrightarrow> map_get COMBINED_ROLE_MAP role \<noteq> None"
  using role_keys by (simp add: isBuiltInRole_def map_of_eq_None_iff)

definition role_object_of :: "RoleNamespace \<Rightarrow> role_map \<Rightarrow> string \<Rightarrow> RoleObject \<Rightarrow> bool" where
  "role_object_of ns m role ro =
    (ro_slug ro = role \<and> ro_roleType ro = ns \<and> ro_scopes ro = map_get m role \<and> ro_scopes ro \<noteq> None \<and>
     ro_displayName ro \<noteq> None \<and> ro_description ro \<noteq> None \<and> isBuiltInRole role)"

lemma roleObject_correct:
  assumes "map_get ALL_ROLE_MAPS ns = Some m" "role \<in> fst ` set m"
  shows "\<exists>ro. roleObject ns role = Inr ro \<and> role_object_of ns m role ro"
proof -
  obtain ss where ss: "map_get m role = Some ss"
    using assms(2) by (metis map_of_eq_None_iff not_None_eq)
  have l: "map_get COMBINED_ROLE_MAP role = Some ss"
    by (rule combined_lookup [OF assms(1) ss])
  then have b: "isBuiltInRole role"
    by (simp add: isBuiltInRole_iff)
  have "fst ` set ROLE_DESCRIPTIONS = fst ` set ROLE_NAMES"
    using description_keys by (metis list.set_map)
  then have "map_get ROLE_NAMES role \<noteq> None" "map_get ROLE_DESCRIPTIONS role \<noteq> None"
    using b by (simp_all add: isBuiltInRole_def map_of_eq_None_iff)
  with b l ss show ?thesis
    by (simp add: roleObject_def role_object_of_def getRoleScopes_def filter_scopes_def)
qed

lemma mapToRoleObject_correct:
  assumes "map_get ALL_ROLE_MAPS ns = Some m"
  shows "\<exists>ros. mapToRoleObject m ns = Inr ros \<and> list_all2 (role_object_of ns m) (map_keys m) ros"
proof -
  have "\<exists>ros. rfold (\<lambda>role acc. rbind (roleObject ns role) (\<lambda>ro. Inr (acc @ [ro]))) ks acc
      = Inr (acc @ ros) \<and> list_all2 (role_object_of ns m) ks ros"
    if "set ks \<subseteq> fst ` set m" for ks acc
    using that
  proof (induction ks arbitrary: acc)
    case (Cons k ks)
    obtain ro where ro: "roleObject ns k = Inr ro" "role_object_of ns m k ro"
      using roleObject_correct [OF assms] Cons.prems by auto
    obtain ros where "rfold (\<lambda>role acc. rbind (roleObject ns role) (\<lambda>ro. Inr (acc @ [ro]))) ks (acc @ [ro])
      = Inr ((acc @ [ro]) @ ros)" "list_all2 (role_object_of ns m) ks ros"
      using Cons.IH [of "acc @ [ro]"] Cons.prems by auto
    with ro show ?case
      by (intro exI [of _ "ro # ros"]) simp
  qed simp
  from this [of "map_keys m" "[]"] show ?thesis
    by (simp add: mapToRoleObject_def)
qed

text \<open>
  The table of role objects is built without an error and holds, namespace by namespace and in the
  order of the role maps, one object per static role, with the scopes of that role's table, a name,
  a description and a slug that \<open>isBuiltInRole\<close> recognises.
\<close>

lemma ALL_ROLES_correct:
  "\<exists>rs. ALL_ROLES = Inr rs \<and> list_all2 (\<lambda>(ns, m) (ns', ros). ns' = ns \<and>
     list_all2 (role_object_of ns m) (map_keys m) ros) ALL_ROLE_MAPS rs"
proof -
  have *: "\<exists>rs. rfold (\<lambda>(ns, roles) acc. rbind (mapToRoleObject roles ns) (\<lambda>ros. Inr (acc @ [(ns, ros)])))
      es acc = Inr (acc @ rs) \<and> list_all2 (\<lambda>(ns, m) (ns', ros). ns' = ns \<and>
        list_all2 (role_object_of ns m) (map_keys m) ros) es rs"
    if "set es \<subseteq> set ALL_ROLE_MAPS" for es acc
    using that
  proof (induction es arbitrary: acc)
    case (Cons e es)
    obtain ns m where e: "e = (ns, m)"
      by (cases e)
    have "map_wf ALL_ROLE_MAPS"
      by (simp add: ALL_ROLE_MAPS_def)
    then have "map_get ALL_ROLE_MAPS ns = Some m"
      using Cons.prems e by (simp add: map_of_eq_Some_iff)
    then obtain ros where ros: "mapToRoleObject m ns = Inr ros"
      "list_all2 (role_object_of ns m) (map_keys m) ros"
      using mapToRoleObject_correct by blast
    from Cons.IH [of "acc @ [(ns, ros)]"] Cons.prems ros e show ?case
      by (auto intro: exI [of _ "(ns, ros) # _"])
  qed simp
  from * [of ALL_ROLE_MAPS "[]"] show ?thesis
    by (simp add: ALL_ROLES_def ALL_ROLE_MAPS_def)
qed

section \<open>Every scope of a static role is a known scope\<close>

lemma owner_scopes_known: "set GLOBAL_OWNER_SCOPES \<subseteq> set ALL_SCOPES"
  unfolding ALL_SCOPES_def buildResourceScopes_def RESOURCES_def GLOBAL_OWNER_SCOPES_def
    DEFAULT_OPERATIONS_def list.map prod.case append_Cons append_Nil concat.simps
  by (rule table_subsetI) (rule table_intros)+

lemma personal_owner_below_owner: "set PERSONAL_PROJECT_OWNER_SCOPES \<subseteq> set GLOBAL_OWNER_SCOPES"
  unfolding PERSONAL_PROJECT_OWNER_SCOPES_def GLOBAL_OWNER_SCOPES_def
  by (rule table_subsetI) (rule table_intros)+

lemma credential_owner_below_owner: "set CREDENTIALS_SHARING_OWNER_SCOPES \<subseteq> set GLOBAL_OWNER_SCOPES"
  unfolding CREDENTIALS_SHARING_OWNER_SCOPES_def GLOBAL_OWNER_SCOPES_def
  by (rule table_subsetI) (rule table_intros)+

lemma workflow_owner_below_owner: "set WORKFLOW_SHARING_OWNER_SCOPES \<subseteq> set GLOBAL_OWNER_SCOPES"
  unfolding WORKFLOW_SHARING_OWNER_SCOPES_def GLOBAL_OWNER_SCOPES_def
  by (rule table_subsetI) (rule table_intros)+

lemma secrets_owner_below_owner:
  "set SECRETS_PROVIDER_CONNECTION_SHARING_OWNER_SCOPES \<subseteq> set GLOBAL_OWNER_SCOPES"
  unfolding SECRETS_PROVIDER_CONNECTION_SHARING_OWNER_SCOPES_def GLOBAL_OWNER_SCOPES_def
  by (rule table_subsetI) (rule table_intros)+

text \<open>All static roles are below the global owner.\<close>

lemma static_roles_below_owner:
  assumes "map_get COMBINED_ROLE_MAP role = Some ss"
  shows "set ss \<subseteq> set GLOBAL_OWNER_SCOPES"
proof -
  have "list_all (\<lambda>(role, ss). set ss \<subseteq> set GLOBAL_OWNER_SCOPES) COMBINED_ROLE_MAP"
    using role_tables_below personal_owner_below_owner credential_owner_below_owner
      workflow_owner_below_owner secrets_owner_below_owner
    unfolding COMBINED_ROLE_MAP_concat role_map_defs GLOBAL_ADMIN_SCOPES_def list.map concat.simps
      snd_conv append_Cons append_Nil list.pred_inject(2) prod.case
    by (intro conjI list_all_NilI; blast)
  with map_of_SomeD [OF assms] show ?thesis
    by (auto simp: list_all_iff)
qed

end
