(* ===== verification/Roles_Sync.thy ===== *)
theory Roles_Sync
  imports Permissions
begin

text \<open>
  The start-up synchronisation of scopes and roles with the database
  (\<open>packages/@n8n/db/src/services/auth.roles.service.ts\<close>).  The three tables it reads and
  writes are maps from primary keys to rows; \<open>save\<close> inserts or replaces the row with its key,
  \<open>remove\<close> deletes it.  The work runs in one transaction under a database lock, so it is a
  function from one database state to the next.  The results: afterwards the scope table holds
  exactly the known scopes, every built-in role has exactly the scopes that its table and the
  settings give it, every other role keeps its known scopes and nothing else of it changes, and
  a second run changes no role.
\<close>

section \<open>Definitions\<close>

record ScopeRow =
  sc_displayName :: "string option"
  sc_description :: "string option"

record RoleRow =
  rr_displayName :: "string option"
  rr_description :: "string option"
  rr_systemRole :: bool
  rr_roleType :: RoleNamespace
  rr_scopes :: "Scope list"

record RolesDb =
  db_scopes :: "(Scope, ScopeRow) js_map"
  db_roles :: "(string, RoleRow) js_map"
  db_settings :: "(string, string) js_map"

definition save_rows :: "('k \<times> 'v) list \<Rightarrow> ('k, 'v) js_map \<Rightarrow> ('k, 'v) js_map" where
  "save_rows rows table = fold (\<lambda>(k, v). map_set k v) rows table"

definition remove_rows :: "'k list \<Rightarrow> ('k, 'v) js_map \<Rightarrow> ('k, 'v) js_map" where
  "remove_rows keys table = fold map_delete keys table"

subsection \<open>Scopes\<close>

definition scope_info :: "Scope \<Rightarrow> string \<times> string option" where
  "scope_info slug = (case map_get scopeInformation slug of
      Some info \<Rightarrow> info | None \<Rightarrow> (slug, None))"

text \<open>The row to save for a known scope, if its row is missing or out of date.\<close>

definition scope_update :: "(Scope, ScopeRow) js_map \<Rightarrow> Scope \<Rightarrow> (Scope \<times> ScopeRow) option" where
  "scope_update available slug =
    (let (name, descr) = scope_info slug in
     case map_get available slug of
       None \<Rightarrow> Some (slug, \<lparr>sc_displayName = Some name, sc_description = descr\<rparr>)
     | Some existing \<Rightarrow>
         if sc_displayName existing \<noteq> Some name \<or> sc_description existing \<noteq> descr
         then Some (slug, existing\<lparr>sc_displayName := Some name, sc_description := descr\<rparr>)
         else None)"

definition without_scopes :: "Scope list \<Rightarrow> RoleRow \<Rightarrow> RoleRow" where
  "without_scopes obsolete r = r\<lparr>rr_scopes := filter (\<lambda>s. s \<notin> set obsolete) (rr_scopes r)\<rparr>"

definition affected_roles :: "Scope list \<Rightarrow> (string, RoleRow) js_map \<Rightarrow> string list" where
  "affected_roles obsolete roles =
    map_keys (filter (\<lambda>(k, r). list_ex (\<lambda>s. s \<in> set obsolete) (rr_scopes r)) roles)"

definition syncScopes :: "RolesDb \<Rightarrow> RolesDb" where
  "syncScopes db =
    (let available = db_scopes db;
         scopesToUpdate = List.map_filter (scope_update available) ALL_SCOPES;
         db1 = db\<lparr>db_scopes := save_rows scopesToUpdate available\<rparr>;
         obsolete = filter (\<lambda>s. s \<notin> set ALL_SCOPES) (map_keys available)
     in if obsolete = [] then db1
        else
          let affected = affected_roles obsolete (db_roles db1);
              rolesToUpdate = map (\<lambda>(k, r). (k, without_scopes obsolete r))
                (filter (\<lambda>(k, r). k \<in> set affected) (db_roles db1))
          in db1\<lparr>db_roles := save_rows rolesToUpdate (db_roles db1),
                 db_scopes := remove_rows obsolete (db_scopes db1)\<rparr>)"

subsection \<open>Expected scopes of a role\<close>

definition setting_on :: "(string, string) js_map \<Rightarrow> string \<Rightarrow> bool" where
  "setting_on settings key = (map_get settings key = Some ''true'' \<or> map_get settings key = None)"

definition getPersonalOwnerSettingsScopes :: "(string, string) js_map \<Rightarrow> Scope list" where
  "getPersonalOwnerSettingsScopes settings =
    (if setting_on settings (fst PERSONAL_SPACE_PUBLISHING_SETTING)
     then snd PERSONAL_SPACE_PUBLISHING_SETTING else []) @
    (if setting_on settings (fst PERSONAL_SPACE_SHARING_SETTING)
     then snd PERSONAL_SPACE_SHARING_SETTING else [])"

definition getExternalSecretsSystemRolesScopes :: "(string, string) js_map \<Rightarrow> string \<Rightarrow> Scope list" where
  "getExternalSecretsSystemRolesScopes settings roleSlug =
    (if map_get settings (fst EXTERNAL_SECRETS_SYSTEM_ROLES_ENABLED_SETTING) \<noteq> Some ''true'' then []
     else (case map_get (snd EXTERNAL_SECRETS_SYSTEM_ROLES_ENABLED_SETTING) roleSlug of
         Some ss \<Rightarrow> ss | None \<Rightarrow> []))"

definition updateScopesBasedOnSettings ::
  "(string, string) js_map \<Rightarrow> string \<Rightarrow> Scope list \<Rightarrow> Scope list" where
  "updateScopesBasedOnSettings settings roleSlug defaultScopes =
    defaultScopes
    @ (if roleSlug = PROJECT_OWNER_ROLE_SLUG then getPersonalOwnerSettingsScopes settings else [])
    @ (if roleSlug = PROJECT_ADMIN_ROLE_SLUG \<or> roleSlug = PROJECT_EDITOR_ROLE_SLUG
       then getExternalSecretsSystemRolesScopes settings roleSlug else [])"

subsection \<open>Roles\<close>

text \<open>
  The row to save for one role object, if any.  \<open>existing\<close> are the system roles and
  \<open>allScopes\<close> the scope slugs as they were when the function started.
\<close>

definition role_update ::
  "(string, RoleRow) js_map \<Rightarrow> Scope list \<Rightarrow> (string, string) js_map \<Rightarrow> RoleNamespace \<Rightarrow>
   RoleObject \<Rightarrow> (string \<times> RoleRow) option result" where
  "role_update existing allScopes settings ns role = (case ro_scopes role of
      None \<Rightarrow> Inl TypeError
    | Some defaults \<Rightarrow>
        let expected = updateScopesBasedOnSettings settings (ro_slug role) defaults;
            kept = filter (\<lambda>s. s \<in> set expected) allScopes
        in Inr (case map_get existing (ro_slug role) of
            None \<Rightarrow> Some (ro_slug role,
              \<lparr>rr_displayName = ro_displayName role, rr_description = ro_description role,
               rr_systemRole = True, rr_roleType = ns, rr_scopes = kept\<rparr>)
          | Some r \<Rightarrow>
              if rr_displayName r \<noteq> ro_displayName role \<or> rr_description r \<noteq> ro_description role \<or>
                 rr_roleType r \<noteq> ns \<or> list_ex (\<lambda>s. s \<notin> set expected) (rr_scopes r) \<or>
                 list_ex (\<lambda>s. s \<notin> set (rr_scopes r)) expected
              then Some (ro_slug role, r\<lparr>rr_displayName := ro_displayName role,
                rr_description := ro_description role, rr_roleType := ns, rr_scopes := kept\<rparr>)
              else None))"

text \<open>The updates of one namespace are computed for all its roles and then saved.\<close>

fun role_updates ::
  "(string, RoleRow) js_map \<Rightarrow> Scope list \<Rightarrow> (string, string) js_map \<Rightarrow> RoleNamespace \<Rightarrow>
   RoleObject list \<Rightarrow> (string \<times> RoleRow) list result" where
  "role_updates existing allScopes settings ns [] = Inr []"
| "role_updates existing allScopes settings ns (role # roles) =
    rbind (role_update existing allScopes settings ns role) (\<lambda>u.
      rbind (role_updates existing allScopes settings ns roles) (\<lambda>us.
        Inr (case u of None \<Rightarrow> us | Some row \<Rightarrow> row # us)))"

definition syncNamespace ::
  "(string, RoleRow) js_map \<Rightarrow> Scope list \<Rightarrow> (string, string) js_map \<Rightarrow>
   RoleNamespace \<times> RoleObject list \<Rightarrow> (string, RoleRow) js_map \<Rightarrow> (string, RoleRow) js_map result" where
  "syncNamespace existing allScopes settings e table =
    rbind (role_updates existing allScopes settings (fst e) (snd e)) (\<lambda>rows.
      Inr (save_rows rows table))"

definition syncRoles :: "RolesDb \<Rightarrow> RolesDb result" where
  "syncRoles db =
    (let existing = filter (\<lambda>(k, r). rr_systemRole r) (db_roles db);
         allScopes = map_keys (db_scopes db)
     in rbind ALL_ROLES (\<lambda>namespaces.
          rbind (rfold (syncNamespace existing allScopes (db_settings db)) namespaces (db_roles db))
            (\<lambda>roles. Inr (db\<lparr>db_roles := roles\<rparr>))))"

definition init_roles :: "RolesDb \<Rightarrow> RolesDb result" where
  "init_roles db = syncRoles (syncScopes db)"

section \<open>Saving and removing rows\<close>

lemma map_wf_save_rows: "map_wf table \<Longrightarrow> map_wf (save_rows rows table)"
  unfolding save_rows_def by (induction rows arbitrary: table) (auto simp: distinct_update)

lemma map_get_save_rows_out:
  "k \<notin> fst ` set rows \<Longrightarrow> map_get (save_rows rows table) k = map_get table k"
  unfolding save_rows_def by (induction rows arbitrary: table) auto

lemma map_get_save_rows_in:
  "(k, v) \<in> set rows \<Longrightarrow> (\<And>v'. (k, v') \<in> set rows \<Longrightarrow> v' = v) \<Longrightarrow>
    map_get (save_rows rows table) k = Some v"
proof (induction rows arbitrary: table)
  case (Cons p rows)
  obtain k' v' where p: "p = (k', v')"
    by (cases p)
  show ?case
  proof (cases "k \<in> fst ` set rows")
    case True
    then obtain w where "(k, w) \<in> set rows"
      by auto
    moreover from this have "w = v"
      by (intro Cons.prems(2)) simp
    ultimately have "(k, v) \<in> set rows"
      by simp
    then have "map_get (save_rows rows (map_set k' v' table)) k = Some v"
      by (rule Cons.IH) (rule Cons.prems(2), simp)
    then show ?thesis
      by (simp add: save_rows_def p)
  next
    case False
    then have "p = (k, v)"
      using Cons.prems(1) by force
    then have "map_get (save_rows (p # rows) table) k = map_get (save_rows rows (map_set k v table)) k"
      by (simp add: save_rows_def)
    also have "\<dots> = Some v"
      by (simp add: map_get_save_rows_out [OF False])
    finally show ?thesis .
  qed
qed simp

lemma map_get_remove_rows:
  "map_get (remove_rows keys table) k = (if k \<in> set keys then None else map_get table k)"
  unfolding remove_rows_def by (induction keys arbitrary: table) auto

lemma map_wf_remove_rows: "map_wf table \<Longrightarrow> map_wf (remove_rows keys table)"
  unfolding remove_rows_def by (induction keys arbitrary: table) auto

section \<open>Synchronising the scopes\<close>

definition obsolete_scopes :: "RolesDb \<Rightarrow> Scope list" where
  "obsolete_scopes db = filter (\<lambda>s. s \<notin> set ALL_SCOPES) (map_keys (db_scopes db))"

lemma without_scopes_id: "\<not> list_ex (\<lambda>s. s \<in> set obsolete) (rr_scopes r) \<Longrightarrow> without_scopes obsolete r = r"
  by (simp add: without_scopes_def list_ex_iff)

lemma syncScopes_roles:
  assumes "map_wf (db_roles db)"
  shows "map_get (db_roles (syncScopes db)) k =
    map_option (without_scopes (obsolete_scopes db)) (map_get (db_roles db) k)"
proof (cases "obsolete_scopes db = []")
  case True
  then show ?thesis
    by (cases "map_get (db_roles db) k")
      (simp_all add: syncScopes_def obsolete_scopes_def Let_def without_scopes_def)
next
  case False
  define ob where "ob = obsolete_scopes db"
  define rows where "rows = map (\<lambda>(k, r). (k, without_scopes ob r))
    (filter (\<lambda>(k, r). k \<in> set (affected_roles ob (db_roles db))) (db_roles db))"
  have sync: "db_roles (syncScopes db) = save_rows rows (db_roles db)"
    using False by (simp add: syncScopes_def Let_def rows_def ob_def obsolete_scopes_def)
  have mem: "(k, r) \<in> set (db_roles db) \<longleftrightarrow> map_get (db_roles db) k = Some r" for k r
    using assms by (simp add: map_of_eq_Some_iff)
  have aff: "k \<in> set (affected_roles ob (db_roles db)) \<longleftrightarrow>
    (\<exists>r. map_get (db_roles db) k = Some r \<and> list_ex (\<lambda>s. s \<in> set ob) (rr_scopes r))" for k
    using mem by (force simp: affected_roles_def)
  have rows: "(k, v) \<in> set rows \<longleftrightarrow> (\<exists>r. map_get (db_roles db) k = Some r \<and>
      v = without_scopes ob r \<and> list_ex (\<lambda>s. s \<in> set ob) (rr_scopes r))" for k v
    unfolding rows_def using mem aff by force
  show ?thesis
  proof (cases "k \<in> fst ` set rows")
    case True
    then obtain v where v: "(k, v) \<in> set rows"
      by force
    then have "map_get (save_rows rows (db_roles db)) k = Some v"
      using rows by (intro map_get_save_rows_in) auto
    with v rows show ?thesis
      by (auto simp: sync ob_def)
  next
    case False
    then have "without_scopes ob r = r" if "map_get (db_roles db) k = Some r" for r
      using that rows without_scopes_id by force
    then show ?thesis
      using map_get_save_rows_out [OF False, of "db_roles db"]
      by (cases "map_get (db_roles db) k") (simp_all add: sync ob_def)
  qed
qed

definition scope_row :: "Scope \<Rightarrow> ScopeRow" where
  "scope_row s = \<lparr>sc_displayName = Some (fst (scope_info s)), sc_description = snd (scope_info s)\<rparr>"

lemma scope_update_eq:
  "scope_update table s = (if map_get table s = Some (scope_row s) then None else Some (s, scope_row s))"
  by (auto simp: scope_update_def scope_row_def split: option.splits prod.splits)

lemma syncScopes_scopes:
  "map_get (db_scopes (syncScopes db)) s = (if s \<in> set ALL_SCOPES then Some (scope_row s) else None)"
proof -
  define ups where "ups = List.map_filter (scope_update (db_scopes db)) ALL_SCOPES"
  have ups: "(k, v) \<in> set ups \<longleftrightarrow>
      k \<in> set ALL_SCOPES \<and> v = scope_row k \<and> map_get (db_scopes db) k \<noteq> Some (scope_row k)" for k v
    unfolding ups_def by (auto simp: map_filter_def scope_update_eq)
  have saved: "map_get (save_rows ups (db_scopes db)) s =
    (if s \<in> set ALL_SCOPES then Some (scope_row s) else map_get (db_scopes db) s)"
  proof (cases "s \<in> fst ` set ups")
    case True
    then have s: "(s, scope_row s) \<in> set ups"
      using ups by auto
    then have "map_get (save_rows ups (db_scopes db)) s = Some (scope_row s)"
      using ups by (intro map_get_save_rows_in) auto
    with s ups show ?thesis
      by simp
  next
    case False
    then have "(s, scope_row s) \<notin> set ups"
      by (metis fst_conv image_eqI)
    then show ?thesis
      using map_get_save_rows_out [OF False, of "db_scopes db"] ups by auto
  qed
  have "db_scopes (syncScopes db) = remove_rows (obsolete_scopes db) (save_rows ups (db_scopes db))"
    by (simp add: syncScopes_def Let_def ups_def obsolete_scopes_def remove_rows_def)
  moreover have "map_get (db_scopes db) s = None" if "s \<notin> set ALL_SCOPES" "s \<notin> set (obsolete_scopes db)"
    using that by (auto simp: obsolete_scopes_def map_of_eq_None_iff)
  ultimately show ?thesis
    by (auto simp: map_get_remove_rows saved obsolete_scopes_def)
qed

lemma syncScopes_wf:
  assumes "map_wf (db_scopes db)" "map_wf (db_roles db)"
  shows "map_wf (db_scopes (syncScopes db))" "map_wf (db_roles (syncScopes db))"
    "db_settings (syncScopes db) = db_settings db"
  using assms by (auto simp: syncScopes_def Let_def map_wf_save_rows map_wf_remove_rows)

text \<open>With the scopes in place there is nothing to do.\<close>

lemma syncScopes_done:
  assumes "\<And>s. map_get (db_scopes db) s = (if s \<in> set ALL_SCOPES then Some (scope_row s) else None)"
  shows "syncScopes db = db"
proof -
  have "List.map_filter (scope_update (db_scopes db)) ALL_SCOPES = []"
    by (auto simp: map_filter_def filter_empty_conv scope_update_eq assms)
  moreover have "set (map_keys (db_scopes db)) \<subseteq> set ALL_SCOPES"
    using assms by (metis (no_types) list.set_map map_of_eq_None_iff option.distinct(1) subsetI)
  then have "filter (\<lambda>s. s \<notin> set ALL_SCOPES) (map_keys (db_scopes db)) = []"
    by (auto simp: filter_empty_conv)
  ultimately show ?thesis
    by (simp add: syncScopes_def save_rows_def)
qed

section \<open>Synchronising the roles\<close>

text \<open>What a row must look like for a role object.\<close>

definition expected_scopes :: "(string, string) js_map \<Rightarrow> RoleObject \<Rightarrow> Scope list" where
  "expected_scopes settings ro =
    updateScopesBasedOnSettings settings (ro_slug ro) (the (ro_scopes ro))"

definition role_synced ::
  "(string, string) js_map \<Rightarrow> RoleNamespace \<Rightarrow> RoleObject \<Rightarrow> RoleRow \<Rightarrow> bool" where
  "role_synced settings ns ro row =
    (rr_displayName row = ro_displayName ro \<and> rr_description row = ro_description ro \<and>
     rr_systemRole row \<and> rr_roleType row = ns \<and> set (rr_scopes row) = set (expected_scopes settings ro))"

lemma role_update_correct:
  assumes "ro_scopes ro \<noteq> None" "set (expected_scopes settings ro) \<subseteq> set allScopes"
    "\<And>row. map_get existing (ro_slug ro) = Some row \<Longrightarrow> rr_systemRole row"
  obtains (keep) row where "role_update existing allScopes settings ns ro = Inr None"
      "map_get existing (ro_slug ro) = Some row" "role_synced settings ns ro row"
    | (change) row where "role_update existing allScopes settings ns ro = Inr (Some (ro_slug ro, row))"
      "role_synced settings ns ro row"
proof -
  obtain ss where ss: "ro_scopes ro = Some ss"
    using assms(1) by blast
  let ?e = "updateScopesBasedOnSettings settings (ro_slug ro) ss"
  have kept: "set (filter (\<lambda>s. s \<in> set ?e) allScopes) = set ?e"
    using assms(2) ss by (auto simp: expected_scopes_def)
  show thesis
  proof (cases "map_get existing (ro_slug ro)")
    case None
    then have "role_update existing allScopes settings ns ro = Inr (Some (ro_slug ro,
        \<lparr>rr_displayName = ro_displayName ro, rr_description = ro_description ro,
         rr_systemRole = True, rr_roleType = ns,
         rr_scopes = filter (\<lambda>s. s \<in> set ?e) allScopes\<rparr>))"
      using ss by (simp add: role_update_def)
    then show thesis
      by (rule change) (use ss kept in \<open>simp add: role_synced_def expected_scopes_def\<close>)
  next
    case (Some row)
    then have sys: "rr_systemRole row"
      by (rule assms(3))
    show thesis
    proof (cases "role_update existing allScopes settings ns ro = Inr None")
      case True
      with Some sys ss show thesis
        by (intro keep) (auto simp: role_update_def role_synced_def expected_scopes_def Let_def
            list_ex_iff split: if_splits)
    next
      case False
      with Some ss have "role_update existing allScopes settings ns ro = Inr (Some (ro_slug ro,
          row\<lparr>rr_displayName := ro_displayName ro, rr_description := ro_description ro,
            rr_roleType := ns, rr_scopes := filter (\<lambda>s. s \<in> set ?e) allScopes\<rparr>))"
        by (auto simp: role_update_def Let_def split: if_splits)
      then show thesis
        by (rule change) (use sys ss kept in \<open>simp add: role_synced_def expected_scopes_def\<close>)
    qed
  qed
qed

text \<open>A role whose row is as it must be is not touched.\<close>

lemma role_update_synced:
  assumes "ro_scopes ro \<noteq> None" "map_get existing (ro_slug ro) = Some row" "role_synced settings ns ro row"
  shows "role_update existing allScopes settings ns ro = Inr None"
  using assms by (auto simp: role_update_def role_synced_def expected_scopes_def Let_def list_ex_iff)

lemma role_updates_none:
  "(\<And>ro. ro \<in> set ros \<Longrightarrow> role_update existing allScopes settings ns ro = Inr None) \<Longrightarrow>
    role_updates existing allScopes settings ns ros = Inr []"
  by (induction ros) auto

lemma role_updates_rows:
  assumes "\<And>ro. ro \<in> set ros \<Longrightarrow> \<exists>u. role_update existing allScopes settings ns ro = Inr u"
  shows "\<exists>rows. role_updates existing allScopes settings ns ros = Inr rows \<and>
    (\<forall>p. p \<in> set rows \<longleftrightarrow> (\<exists>ro\<in>set ros. role_update existing allScopes settings ns ro = Inr (Some p)))"
  using assms
proof (induction ros)
  case (Cons ro ros)
  obtain u where u: "role_update existing allScopes settings ns ro = Inr u"
    using Cons.prems by auto
  obtain rows where rows: "role_updates existing allScopes settings ns ros = Inr rows"
    "\<forall>p. p \<in> set rows \<longleftrightarrow> (\<exists>ro\<in>set ros. role_update existing allScopes settings ns ro = Inr (Some p))"
    using Cons by auto
  then show ?case
    using u by (cases u) auto
qed simp

text \<open>
  The premises of the namespace loop: the role objects have scopes, all of them known, and the
  system roles that were loaded are rows of the table.
\<close>

definition sync_ready ::
  "(string, RoleRow) js_map \<Rightarrow> Scope list \<Rightarrow> (string, string) js_map \<Rightarrow> RoleObject list \<Rightarrow>
   (string, RoleRow) js_map \<Rightarrow> bool" where
  "sync_ready existing allScopes settings ros table =
    (distinct (map ro_slug ros) \<and>
     (\<forall>ro\<in>set ros. ro_scopes ro \<noteq> None \<and> set (expected_scopes settings ro) \<subseteq> set allScopes) \<and>
     (\<forall>ro\<in>set ros. \<forall>row. map_get existing (ro_slug ro) = Some row \<longrightarrow>
        rr_systemRole row \<and> map_get table (ro_slug ro) = Some row))"

lemma syncNamespace_correct:
  assumes "sync_ready existing allScopes settings ros table" "map_wf table"
  shows "\<exists>table'. syncNamespace existing allScopes settings (ns, ros) table = Inr table' \<and> map_wf table' \<and>
    (\<forall>k. k \<notin> ro_slug ` set ros \<longrightarrow> map_get table' k = map_get table k) \<and>
    (\<forall>ro\<in>set ros. \<exists>row. map_get table' (ro_slug ro) = Some row \<and> role_synced settings ns ro row)"
proof -
  have dist: "inj_on ro_slug (set ros)"
    using assms(1) by (simp add: sync_ready_def distinct_map)
  let ?upd = "role_update existing allScopes settings ns"
  have ready: "ro_scopes ro \<noteq> None" "set (expected_scopes settings ro) \<subseteq> set allScopes"
    "\<And>row. map_get existing (ro_slug ro) = Some row \<Longrightarrow> rr_systemRole row"
    "\<And>row. map_get existing (ro_slug ro) = Some row \<Longrightarrow> map_get table (ro_slug ro) = Some row"
    if "ro \<in> set ros" for ro
    using assms(1) that by (auto simp: sync_ready_def)
  have upd: "\<exists>u. ?upd ro = Inr u" if "ro \<in> set ros" for ro
    using role_update_correct [OF ready(1-3) [OF that]] by metis
  obtain rows where rows: "role_updates existing allScopes settings ns ros = Inr rows"
    "\<And>p. p \<in> set rows \<longleftrightarrow> (\<exists>ro\<in>set ros. ?upd ro = Inr (Some p))"
    using role_updates_rows [of ros existing allScopes settings ns] upd by blast
  have key: "k = ro_slug ro \<and> role_synced settings ns ro v" if "ro \<in> set ros" "?upd ro = Inr (Some (k, v))" for ro k v
    by (rule role_update_correct [OF ready(1-3) [OF that(1)], where ns = ns]) (use that(2) in auto)
  have keys: "fst ` set rows \<subseteq> ro_slug ` set ros"
    using rows(2) key by force
  have "\<exists>row. map_get (save_rows rows table) (ro_slug ro) = Some row \<and> role_synced settings ns ro row"
    if ro: "ro \<in> set ros" for ro
  proof (rule role_update_correct [OF ready(1-3) [OF ro], where ns = ns])
    fix row
    assume none: "?upd ro = Inr None" and ex: "map_get existing (ro_slug ro) = Some row"
      and syn: "role_synced settings ns ro row"
    have "ro_slug ro \<notin> fst ` set rows"
    proof
      assume "ro_slug ro \<in> fst ` set rows"
      then obtain v where "(ro_slug ro, v) \<in> set rows"
        by force
      then obtain ro' where ro': "ro' \<in> set ros" "?upd ro' = Inr (Some (ro_slug ro, v))"
        using rows(2) by blast
      have "ro' = ro"
        by (rule inj_onD [OF dist conjunct1 [OF key [OF ro'], symmetric] ro'(1) ro])
      with ro'(2) none show False
        by simp
    qed
    then have "map_get (save_rows rows table) (ro_slug ro) = Some row"
      using ready(4) [OF ro ex] by (simp add: map_get_save_rows_out)
    with syn show ?thesis
      by blast
  next
    fix row
    assume ch: "?upd ro = Inr (Some (ro_slug ro, row))" and syn: "role_synced settings ns ro row"
    have "(ro_slug ro, row) \<in> set rows"
      using rows(2) ch ro by blast
    moreover have "v = row" if v: "(ro_slug ro, v) \<in> set rows" for v
    proof -
      obtain ro' where ro': "ro' \<in> set ros" "?upd ro' = Inr (Some (ro_slug ro, v))"
        using rows(2) v by blast
      have "ro' = ro"
        by (rule inj_onD [OF dist conjunct1 [OF key [OF ro'], symmetric] ro'(1) ro])
      with ro'(2) ch show ?thesis
        by simp
    qed
    ultimately have "map_get (save_rows rows table) (ro_slug ro) = Some row"
      by (rule map_get_save_rows_in)
    with syn show ?thesis
      by blast
  qed
  moreover have "map_get (save_rows rows table) k = map_get table k" if "k \<notin> ro_slug ` set ros" for k
    by (rule map_get_save_rows_out) (use keys that in blast)
  ultimately show ?thesis
    using rows(1) map_wf_save_rows [OF assms(2)] by (simp add: syncNamespace_def)
qed

text \<open>The loop over the namespaces.\<close>

abbreviation (input) slugs_of :: "(RoleNamespace \<times> RoleObject list) list \<Rightarrow> string list" where
  "slugs_of es \<equiv> map ro_slug (concat (map snd es))"

lemma sync_ready_Cons:
  assumes "sync_ready existing allScopes settings (concat (map snd (e # es))) table"
  shows "sync_ready existing allScopes settings (snd e) table"
    "\<And>table'. \<forall>k. k \<notin> ro_slug ` set (snd e) \<longrightarrow> map_get table' k = map_get table k \<Longrightarrow>
      sync_ready existing allScopes settings (concat (map snd es)) table'"
proof -
  show "sync_ready existing allScopes settings (snd e) table"
    using assms by (auto simp: sync_ready_def)
  fix table'
  assume same: "\<forall>k. k \<notin> ro_slug ` set (snd e) \<longrightarrow> map_get table' k = map_get table k"
  have "ro_slug ro \<notin> ro_slug ` set (snd e)" if "ro \<in> set (concat (map snd es))" for ro
    using assms that by (force simp: sync_ready_def)
  then show "sync_ready existing allScopes settings (concat (map snd es)) table'"
    using assms same by (auto simp: sync_ready_def)
qed

lemma sync_loop_correct:
  assumes "sync_ready existing allScopes settings (concat (map snd es)) table" "map_wf table"
  shows "\<exists>table'. rfold (syncNamespace existing allScopes settings) es table = Inr table' \<and> map_wf table' \<and>
    (\<forall>k. k \<notin> set (slugs_of es) \<longrightarrow> map_get table' k = map_get table k) \<and>
    (\<forall>e\<in>set es. \<forall>ro\<in>set (snd e).
       \<exists>row. map_get table' (ro_slug ro) = Some row \<and> role_synced settings (fst e) ro row)"
  using assms
proof (induction es arbitrary: table)
  case (Cons e es)
  obtain ns ros where e: "e = (ns, ros)"
    by (cases e)
  have ready1: "sync_ready existing allScopes settings ros table"
    using sync_ready_Cons(1) [OF Cons.prems(1)] e by simp
  obtain table1 where t1: "syncNamespace existing allScopes settings e table = Inr table1" "map_wf table1"
    "\<forall>k. k \<notin> ro_slug ` set ros \<longrightarrow> map_get table1 k = map_get table k"
    "\<forall>ro\<in>set ros. \<exists>row. map_get table1 (ro_slug ro) = Some row \<and> role_synced settings ns ro row"
    using syncNamespace_correct [OF ready1 Cons.prems(2), of ns] unfolding e by blast
  have ready: "sync_ready existing allScopes settings (concat (map snd es)) table1"
    using sync_ready_Cons(2) [OF Cons.prems(1)] t1(3) e by simp
  obtain table2 where t2: "rfold (syncNamespace existing allScopes settings) es table1 = Inr table2"
    "map_wf table2" "\<forall>k. k \<notin> set (slugs_of es) \<longrightarrow> map_get table2 k = map_get table1 k"
    "\<forall>e\<in>set es. \<forall>ro\<in>set (snd e).
       \<exists>row. map_get table2 (ro_slug ro) = Some row \<and> role_synced settings (fst e) ro row"
    using Cons.IH [OF ready t1(2)] by blast
  have "ro_slug ro \<notin> set (slugs_of es)" if "ro \<in> set ros" for ro
    using Cons.prems(1) e that by (force simp: sync_ready_def)
  then have "\<forall>ro\<in>set ros. \<exists>row. map_get table2 (ro_slug ro) = Some row \<and> role_synced settings ns ro row"
    using t1(4) t2(3) by metis
  moreover have "\<forall>k. k \<notin> set (slugs_of (e # es)) \<longrightarrow> map_get table2 k = map_get table k"
    using t1(3) t2(3) e by simp
  ultimately show ?case
    using t1(1) t2(1,2,4) e by simp
qed simp

lemma sync_loop_done:
  assumes "\<forall>e\<in>set es. \<forall>ro\<in>set (snd e).
    ro_scopes ro \<noteq> None \<and> (\<exists>row. map_get existing (ro_slug ro) = Some row \<and> role_synced settings (fst e) ro row)"
  shows "rfold (syncNamespace existing allScopes settings) es table = Inr table"
  using assms
proof (induction es)
  case (Cons e es)
  have "role_update existing allScopes settings (fst e) ro = Inr None" if ro: "ro \<in> set (snd e)" for ro
  proof -
    obtain row where "map_get existing (ro_slug ro) = Some row" "role_synced settings (fst e) ro row"
      and "ro_scopes ro \<noteq> None"
      using Cons.prems ro by auto
    then show ?thesis
      by (intro role_update_synced)
  qed
  then have "role_updates existing allScopes settings (fst e) (snd e) = Inr []"
    by (rule role_updates_none)
  with Cons show ?case
    by (simp add: syncNamespace_def save_rows_def)
qed simp

section \<open>The whole synchronisation\<close>

text \<open>Every scope the settings can add is a scope of the global owner.\<close>

lemma settings_scopes_below_owner:
  "set (snd PERSONAL_SPACE_PUBLISHING_SETTING) \<subseteq> set GLOBAL_OWNER_SCOPES"
  "set (snd PERSONAL_SPACE_SHARING_SETTING) \<subseteq> set GLOBAL_OWNER_SCOPES"
  unfolding PERSONAL_SPACE_PUBLISHING_SETTING_def PERSONAL_SPACE_SHARING_SETTING_def snd_conv
    GLOBAL_OWNER_SCOPES_def
  by (rule table_subsetI, (rule table_intros)+)+

lemma secrets_setting_below_owner:
  assumes "map_get (snd EXTERNAL_SECRETS_SYSTEM_ROLES_ENABLED_SETTING) slug = Some ss"
  shows "set ss \<subseteq> set GLOBAL_OWNER_SCOPES"
proof -
  have "set (concat (map snd (snd EXTERNAL_SECRETS_SYSTEM_ROLES_ENABLED_SETTING))) \<subseteq> set GLOBAL_OWNER_SCOPES"
    unfolding EXTERNAL_SECRETS_SYSTEM_ROLES_ENABLED_SETTING_def snd_conv list.map concat.simps
      append_Cons append_Nil GLOBAL_OWNER_SCOPES_def
    by (rule table_subsetI) (rule table_intros)+
  with map_of_SomeD [OF assms] show ?thesis
    by force
qed

lemma expected_scopes_known:
  assumes "set ss \<subseteq> set GLOBAL_OWNER_SCOPES"
  shows "set (updateScopesBasedOnSettings settings slug ss) \<subseteq> set ALL_SCOPES"
proof -
  have "set (getExternalSecretsSystemRolesScopes settings slug) \<subseteq> set GLOBAL_OWNER_SCOPES"
    using secrets_setting_below_owner
    by (cases "map_get (snd EXTERNAL_SECRETS_SYSTEM_ROLES_ENABLED_SETTING) slug")
      (simp_all add: getExternalSecretsSystemRolesScopes_def)
  then have "set (updateScopesBasedOnSettings settings slug ss) \<subseteq> set GLOBAL_OWNER_SCOPES"
    using assms settings_scopes_below_owner
    by (auto simp: updateScopesBasedOnSettings_def getPersonalOwnerSettingsScopes_def)
  with owner_scopes_known show ?thesis
    by blast
qed

lemma list_all2_in1: "list_all2 P xs ys \<Longrightarrow> x \<in> set xs \<Longrightarrow> \<exists>y\<in>set ys. P x y"
  by (induction rule: list_all2_induct) auto

lemma list_all2_in2: "list_all2 P xs ys \<Longrightarrow> y \<in> set ys \<Longrightarrow> \<exists>x\<in>set xs. P x y"
  by (induction rule: list_all2_induct) auto

text \<open>The role objects as the loop sees them.\<close>

lemma ALL_ROLES_objects:
  obtains es where "ALL_ROLES = Inr es" "slugs_of es = map fst COMBINED_ROLE_MAP"
    "\<And>e ro. e \<in> set es \<Longrightarrow> ro \<in> set (snd e) \<Longrightarrow>
      \<exists>m. map_get ALL_ROLE_MAPS (fst e) = Some m \<and> role_object_of (fst e) m (ro_slug ro) ro"
    "\<And>ns m role. map_get ALL_ROLE_MAPS ns = Some m \<Longrightarrow> role \<in> fst ` set m \<Longrightarrow>
      \<exists>ros ro. (ns, ros) \<in> set es \<and> ro \<in> set ros \<and> role_object_of ns m role ro"
proof -
  obtain es where es: "ALL_ROLES = Inr es" and l2: "list_all2 (\<lambda>(ns, m) (ns', ros). ns' = ns \<and>
     list_all2 (role_object_of ns m) (map_keys m) ros) ALL_ROLE_MAPS es"
    using ALL_ROLES_correct by blast
  have wf: "map_wf ALL_ROLE_MAPS"
    by (simp add: ALL_ROLE_MAPS_def)
  have slugs: "map ro_slug ros = ks" if "list_all2 (role_object_of ns m) ks ros" for ns m ks ros
    using that by (induction rule: list_all2_induct) (auto simp: role_object_of_def)
  have "slugs_of es = concat (map (map fst) (map_values ALL_ROLE_MAPS))"
    using l2 by (induction rule: list_all2_induct) (auto dest: slugs)
  then have 1: "slugs_of es = map fst COMBINED_ROLE_MAP"
    by (simp add: combined_keys)
  have 2: "\<exists>m. map_get ALL_ROLE_MAPS (fst e) = Some m \<and> role_object_of (fst e) m (ro_slug ro) ro"
    if e: "e \<in> set es" and ro: "ro \<in> set (snd e)" for e ro
  proof -
    obtain ns m where "(ns, m) \<in> set ALL_ROLE_MAPS" "fst e = ns"
      "list_all2 (role_object_of ns m) (map_keys m) (snd e)"
      using list_all2_in2 [OF l2 e] by (auto simp: split_beta)
    moreover from list_all2_in2 [OF this(3) ro] obtain role where "role_object_of ns m role ro"
      by blast
    moreover from this have "role = ro_slug ro"
      by (simp add: role_object_of_def)
    ultimately show ?thesis
      using wf by (auto simp: map_of_eq_Some_iff)
  qed
  have 3: "\<exists>ros ro. (ns, ros) \<in> set es \<and> ro \<in> set ros \<and> role_object_of ns m role ro"
    if m: "map_get ALL_ROLE_MAPS ns = Some m" and role: "role \<in> fst ` set m" for ns m role
  proof -
    obtain ros where ros: "(ns, ros) \<in> set es" "list_all2 (role_object_of ns m) (map_keys m) ros"
      using list_all2_in1 [OF l2 map_of_SomeD [OF m]] by auto
    have "role \<in> set (map_keys m)"
      using role by simp
    from list_all2_in1 [OF ros(2) this] ros(1) show ?thesis
      by blast
  qed
  show thesis
    using that [OF es 1 2 3] .
qed

definition db_wf :: "RolesDb \<Rightarrow> bool" where
  "db_wf db = (map_wf (db_scopes db) \<and> map_wf (db_roles db))"

lemma map_get_filter:
  "map_wf table \<Longrightarrow> map_get (filter (\<lambda>(k, r). P r) table) k =
    (case map_get table k of Some r \<Rightarrow> if P r then Some r else None | None \<Rightarrow> None)"
  by (induction table) (auto simp: map_of_eq_None_iff split: option.splits dest: map_of_SomeD)

lemma syncScopes_all: "set (map_keys (db_scopes (syncScopes db))) = set ALL_SCOPES"
proof -
  have "s \<in> set (map_keys (db_scopes (syncScopes db))) \<longleftrightarrow> s \<in> set ALL_SCOPES" for s
  proof -
    have "s \<in> set (map_keys (db_scopes (syncScopes db))) \<longleftrightarrow> map_get (db_scopes (syncScopes db)) s \<noteq> None"
      by (simp add: map_of_eq_None_iff)
    then show ?thesis
      by (simp add: syncScopes_scopes)
  qed
  then show ?thesis
    by blast
qed

text \<open>One run: the loop is ready, so it ends with every role object synchronised.\<close>

lemma init_roles_result:
  assumes "db_wf db" "ALL_ROLES = Inr es"
  obtains db' where "init_roles db = Inr db'" "db_wf db'" "db_settings db' = db_settings db"
    "db_scopes db' = db_scopes (syncScopes db)"
    "\<And>role. role \<notin> fst ` set COMBINED_ROLE_MAP \<Longrightarrow>
      map_get (db_roles db') role = map_get (db_roles (syncScopes db)) role"
    "\<And>e ro. e \<in> set es \<Longrightarrow> ro \<in> set (snd e) \<Longrightarrow> ro_scopes ro \<noteq> None \<and>
      (\<exists>row. map_get (db_roles db') (ro_slug ro) = Some row \<and> role_synced (db_settings db) (fst e) ro row)"
proof -
  define db1 where "db1 = syncScopes db"
  define ex where "ex = filter (\<lambda>(k, r). rr_systemRole r) (db_roles db1)"
  have wf1: "map_wf (db_scopes db1)" "map_wf (db_roles db1)" "db_settings db1 = db_settings db"
    using syncScopes_wf assms(1) by (simp_all add: db1_def db_wf_def)
  obtain es' where es': "ALL_ROLES = Inr es'" "slugs_of es' = map fst COMBINED_ROLE_MAP"
    "\<And>e ro. e \<in> set es' \<Longrightarrow> ro \<in> set (snd e) \<Longrightarrow>
      \<exists>m. map_get ALL_ROLE_MAPS (fst e) = Some m \<and> role_object_of (fst e) m (ro_slug ro) ro"
    using ALL_ROLES_objects by metis
  have es: "es' = es"
    using es'(1) assms(2) by (metis Inr_inject)
  have ro: "ro_scopes ro \<noteq> None" "set (expected_scopes (db_settings db) ro) \<subseteq> set (map_keys (db_scopes db1))"
    if e: "e \<in> set es" and r: "ro \<in> set (snd e)" for e ro
  proof -
    obtain m where m: "map_get ALL_ROLE_MAPS (fst e) = Some m" "role_object_of (fst e) m (ro_slug ro) ro"
      using es'(3) es e r by metis
    then obtain ss where ss: "ro_scopes ro = Some ss" "map_get m (ro_slug ro) = Some ss"
      unfolding role_object_of_def by fastforce
    show "ro_scopes ro \<noteq> None"
      using ss by simp
    have "set ss \<subseteq> set GLOBAL_OWNER_SCOPES"
      by (rule static_roles_below_owner [OF combined_lookup [OF m(1) ss(2)]])
    from expected_scopes_known [OF this]
    show "set (expected_scopes (db_settings db) ro) \<subseteq> set (map_keys (db_scopes db1))"
      using ss by (simp add: expected_scopes_def db1_def syncScopes_all [simplified])
  qed
  have "distinct (slugs_of es)"
    using es'(2) es combined_keys_distinct by (simp add: COMBINED_ROLE_MAP_concat)
  then have ready: "sync_ready ex (map_keys (db_scopes db1)) (db_settings db) (concat (map snd es)) (db_roles db1)"
    using ro wf1(2) by (fastforce simp: sync_ready_def ex_def map_get_filter split: option.splits if_splits)
  obtain table where t: "rfold (syncNamespace ex (map_keys (db_scopes db1)) (db_settings db)) es (db_roles db1) = Inr table"
    "map_wf table" "\<forall>k. k \<notin> set (slugs_of es) \<longrightarrow> map_get table k = map_get (db_roles db1) k"
    "\<forall>e\<in>set es. \<forall>ro\<in>set (snd e).
       \<exists>row. map_get table (ro_slug ro) = Some row \<and> role_synced (db_settings db) (fst e) ro row"
    using sync_loop_correct [OF ready wf1(2)] by blast
  have run: "init_roles db = Inr (db1\<lparr>db_roles := table\<rparr>)"
    using t(1) wf1(3) unfolding init_roles_def syncRoles_def Let_def assms(2)
    by (simp add: db1_def ex_def)
  have keys: "set (slugs_of es) = fst ` set COMBINED_ROLE_MAP"
    using es'(2) es by (metis list.set_map)
  have others: "map_get table role = map_get (db_roles (syncScopes db)) role"
    if "role \<notin> fst ` set COMBINED_ROLE_MAP" for role
    using t(3) that unfolding keys db1_def by blast
  show thesis
    by (rule that [OF run]) (use t(2,4) wf1 ro others in \<open>auto simp: db_wf_def db1_def\<close>)
qed

text \<open>\<^bold>\<open>C30.\<close> 
  After the synchronisation the scope table holds exactly the known scopes with their names, and
  every built-in role is a system role of its namespace whose scopes are exactly the ones its
  table and the settings give it.
\<close>

theorem init_roles_builtin:
  assumes "db_wf db"
  shows "\<exists>db'. init_roles db = Inr db' \<and> db_wf db' \<and>
    map_get (db_scopes db') = (\<lambda>s. if s \<in> set ALL_SCOPES then Some (scope_row s) else None) \<and>
    (\<forall>ns m role ss. map_get ALL_ROLE_MAPS ns = Some m \<and> map_get m role = Some ss \<longrightarrow>
       (\<exists>row. map_get (db_roles db') role = Some row \<and> rr_systemRole row \<and> rr_roleType row = ns \<and>
         set (rr_scopes row) = set (updateScopesBasedOnSettings (db_settings db) role ss)))"
proof -
  obtain es where es: "ALL_ROLES = Inr es" "\<And>ns m role. map_get ALL_ROLE_MAPS ns = Some m \<Longrightarrow>
      role \<in> fst ` set m \<Longrightarrow> \<exists>ros ro. (ns, ros) \<in> set es \<and> ro \<in> set ros \<and> role_object_of ns m role ro"
    using ALL_ROLES_objects by metis
  obtain db' where db': "init_roles db = Inr db'" "db_wf db'" "db_scopes db' = db_scopes (syncScopes db)"
    "\<And>e ro. e \<in> set es \<Longrightarrow> ro \<in> set (snd e) \<Longrightarrow> ro_scopes ro \<noteq> None \<and>
      (\<exists>row. map_get (db_roles db') (ro_slug ro) = Some row \<and> role_synced (db_settings db) (fst e) ro row)"
    using init_roles_result [OF assms es(1)] by metis
  have "\<exists>row. map_get (db_roles db') role = Some row \<and> rr_systemRole row \<and> rr_roleType row = ns \<and>
      set (rr_scopes row) = set (updateScopesBasedOnSettings (db_settings db) role ss)"
    if m: "map_get ALL_ROLE_MAPS ns = Some m" and ss: "map_get m role = Some ss" for ns m role ss
  proof -
    have "role \<in> fst ` set m"
      using map_of_SomeD [OF ss] by force
    then obtain ros ro where ro: "(ns, ros) \<in> set es" "ro \<in> set ros" "role_object_of ns m role ro"
      using es(2) [OF m] by blast
    then have "ro_slug ro = role" "ro_scopes ro = Some ss"
      using ss by (simp_all add: role_object_of_def)
    then show ?thesis
      using db'(4) [OF ro(1), of ro] ro(2) by (auto simp: role_synced_def expected_scopes_def)
  qed
  moreover have "map_get (db_scopes db') = (\<lambda>s. if s \<in> set ALL_SCOPES then Some (scope_row s) else None)"
    by (rule ext) (simp add: db'(3) syncScopes_scopes)
  ultimately show ?thesis
    using db'(1,2) by blast
qed

definition empty_db :: RolesDb where
  "empty_db = \<lparr>db_scopes = [], db_roles = [], db_settings = []\<rparr>"

theorem init_roles_builtin_witness:
  "\<exists>db' row. init_roles empty_db = Inr db' \<and> map_get (db_roles db') ''workflow:viewer'' = Some row \<and>
     rr_systemRole row \<and>
     set (rr_scopes row) = {''workflow:read'', ''workflow:export'', ''workflow:execute-chat''}"
proof -
  have "db_wf empty_db"
    by (simp add: db_wf_def empty_db_def)
  note * = init_roles_builtin [OF this]
  have m: "map_get ALL_ROLE_MAPS NsWorkflow = Some WORKFLOW_SHARING_SCOPE_MAP"
    by (simp add: ALL_ROLE_MAPS_def)
  have ss: "map_get WORKFLOW_SHARING_SCOPE_MAP ''workflow:viewer'' = Some WORKFLOW_SHARING_VIEWER_SCOPES"
    by (simp add: WORKFLOW_SHARING_SCOPE_MAP_def)
  obtain db' row where r: "init_roles empty_db = Inr db'" "map_get (db_roles db') ''workflow:viewer'' = Some row"
    "rr_systemRole row" "set (rr_scopes row) = set (updateScopesBasedOnSettings (db_settings empty_db)
       ''workflow:viewer'' WORKFLOW_SHARING_VIEWER_SCOPES)"
    using * m ss by blast
  have "updateScopesBasedOnSettings st ''workflow:viewer'' xs = xs" for st xs
    by (simp add: updateScopesBasedOnSettings_def slug_defs)
  with r show ?thesis
    by (auto simp: WORKFLOW_SHARING_VIEWER_SCOPES_def)
qed

text \<open>
  Roles that are not built in are left alone, but for the scopes that no longer exist: these are
  taken from them.
\<close>

theorem init_roles_custom:
  assumes "db_wf db" "\<not> isBuiltInRole role"
  shows "\<exists>db'. init_roles db = Inr db' \<and> map_get (db_roles db') role =
    map_option (without_scopes (filter (\<lambda>s. s \<notin> set ALL_SCOPES) (map_keys (db_scopes db))))
      (map_get (db_roles db) role)"
proof -
  obtain es where es: "ALL_ROLES = Inr es"
    using ALL_ROLES_objects by metis
  have "role \<notin> fst ` set COMBINED_ROLE_MAP"
    using assms(2) by (simp add: isBuiltInRole_iff map_of_eq_None_iff)
  then show ?thesis
    using init_roles_result [OF assms(1) es] syncScopes_roles assms(1)
    unfolding db_wf_def obsolete_scopes_def by metis
qed

lemma obsolete_example: "''old:scope'' \<notin> set ALL_SCOPES"
  by (simp add: ALL_SCOPES_def buildResourceScopes_def RESOURCES_def DEFAULT_OPERATIONS_def)

theorem init_roles_custom_witness:
  "\<exists>db' row. init_roles \<lparr>db_scopes = [(''old:scope'', \<lparr>sc_displayName = Some ''Old'', sc_description = None\<rparr>)],
       db_roles = [(''project:custom'', \<lparr>rr_displayName = Some ''Custom'', rr_description = None,
         rr_systemRole = False, rr_roleType = NsProject, rr_scopes = [''old:scope'', ''workflow:read'']\<rparr>)],
       db_settings = []\<rparr> = Inr db' \<and>
     map_get (db_roles db') ''project:custom'' = Some row \<and> rr_scopes row = [''workflow:read'']"
proof -
  let ?db = "\<lparr>db_scopes = [(''old:scope'', \<lparr>sc_displayName = Some ''Old'', sc_description = None\<rparr>)],
       db_roles = [(''project:custom'', \<lparr>rr_displayName = Some ''Custom'', rr_description = None,
         rr_systemRole = False, rr_roleType = NsProject, rr_scopes = [''old:scope'', ''workflow:read'']\<rparr>)],
       db_settings = []\<rparr>"
  have wf: "db_wf ?db"
    by (simp add: db_wf_def)
  have custom: "\<not> isBuiltInRole ''project:custom''"
    by (simp add: isBuiltInRole_def ROLE_NAMES_def slug_defs)
  show ?thesis
    using init_roles_custom [OF wf custom] by (auto simp: obsolete_example without_scopes_def)
qed

text \<open>\<^bold>\<open>C31.\<close> A second run of the synchronisation changes nothing.\<close>

theorem init_roles_idempotent:
  assumes "db_wf db" "init_roles db = Inr db'"
  shows "init_roles db' = Inr db'"
proof -
  obtain es where es: "ALL_ROLES = Inr es"
    using ALL_ROLES_objects by metis
  have facts: "db_wf db'" "db_settings db' = db_settings db" "db_scopes db' = db_scopes (syncScopes db)"
    "\<And>e ro. e \<in> set es \<Longrightarrow> ro \<in> set (snd e) \<Longrightarrow> ro_scopes ro \<noteq> None \<and>
      (\<exists>row. map_get (db_roles db') (ro_slug ro) = Some row \<and> role_synced (db_settings db) (fst e) ro row)"
    using init_roles_result [OF assms(1) es] assms(2) by (metis Inr_inject)+
  have scopes: "syncScopes db' = db'"
    by (rule syncScopes_done) (simp add: facts(3) syncScopes_scopes)
  define ex where "ex = filter (\<lambda>(k, r). rr_systemRole r) (db_roles db')"
  have "map_get ex k = (case map_get (db_roles db') k of
      Some r \<Rightarrow> if rr_systemRole r then Some r else None | None \<Rightarrow> None)" for k
    unfolding ex_def by (rule map_get_filter) (use facts(1) in \<open>simp add: db_wf_def\<close>)
  then have "\<forall>e\<in>set es. \<forall>ro\<in>set (snd e). ro_scopes ro \<noteq> None \<and>
      (\<exists>row. map_get ex (ro_slug ro) = Some row \<and> role_synced (db_settings db) (fst e) ro row)"
    using facts(4) by (fastforce simp: role_synced_def)
  from sync_loop_done [OF this] show ?thesis
    unfolding init_roles_def scopes syncRoles_def Let_def es
    by (simp add: facts(2) flip: ex_def)
qed

theorem init_roles_idempotent_witness:
  "\<exists>db'. init_roles empty_db = Inr db' \<and> init_roles db' = Inr db'"
proof -
  obtain es where es: "ALL_ROLES = Inr es"
    using ALL_ROLES_objects by metis
  have wf: "db_wf empty_db"
    by (simp add: db_wf_def empty_db_def)
  obtain db' where "init_roles empty_db = Inr db'"
    using init_roles_result [OF wf es] by metis
  with init_roles_idempotent [OF wf this] show ?thesis
    by blast
qed

end
