(* ===== verification/Access_Check.thy ===== *)
theory Access_Check
  imports Roles_Sync
begin

text \<open>
  The access check of the server (\<open>packages/cli/src/permissions.ee/check-access.ts\<close>) with
  the role cache it asks (\<open>packages/cli/src/services/role-cache.service.ts\<close>).  The database
  is a record of the tables the check reads; its SQL query is written as the evaluation of its
  joins, its \<open>WHERE\<close>, \<open>GROUP BY\<close> and \<open>HAVING\<close> clauses on them.  The main result
  characterises the answer by who is related to which project under which role.
\<close>

section \<open>Definitions\<close>

subsection \<open>The role cache\<close>

type_synonym RoleScopeMap = "(RoleNamespace, (string, Scope list) js_map) js_map"

definition addRole :: "string \<times> RoleRow \<Rightarrow> RoleScopeMap \<Rightarrow> RoleScopeMap" where
  "addRole role m =
    (let ns = rr_roleType (snd role);
         infos = (case map_get m ns of None \<Rightarrow> [] | Some infos \<Rightarrow> infos)
     in map_set ns (map_set (fst role) (rr_scopes (snd role)) infos) m)"

definition buildRoleScopeMap :: "(string, RoleRow) js_map \<Rightarrow> RoleScopeMap" where
  "buildRoleScopeMap roles = fold addRole roles []"

text \<open>
  \<open>cacheService.get\<close> with a refresh function: a hit returns the stored value, a miss
  computes, stores and returns it.  The cache is passed along.
\<close>

definition cache_get :: "'a option \<Rightarrow> 'a \<Rightarrow> 'a option \<times> 'a option" where
  "cache_get cache fresh = (case cache of Some v \<Rightarrow> (Some v, cache) | None \<Rightarrow> (Some fresh, Some fresh))"

definition matchingRoles :: "RoleScopeMap \<Rightarrow> RoleNamespace \<Rightarrow> Scope list \<Rightarrow> string list" where
  "matchingRoles m ns required =
    map_keys (filter (\<lambda>(slug, ss). list_all (\<lambda>s. s \<in> set ss) required)
      (case map_get m ns of None \<Rightarrow> [] | Some infos \<Rightarrow> infos))"

definition getRolesWithAllScopes ::
  "(string, RoleRow) js_map \<Rightarrow> RoleScopeMap option \<Rightarrow> RoleNamespace \<Rightarrow> Scope list \<Rightarrow>
   (string list \<times> RoleScopeMap option) result" where
  "getRolesWithAllScopes roles cache ns required =
    (if required = [] then Inr ([], cache)
     else let (roleScopeMap, cache') = cache_get cache (buildRoleScopeMap roles) in
       (case roleScopeMap of
          None \<Rightarrow> rbind (staticRolesWithScope ns (ManyScopes required)) (\<lambda>rs. Inr (rs, cache'))
        | Some m \<Rightarrow> Inr (matchingRoles m ns required, cache')))"

definition invalidateCache :: "RoleScopeMap option \<Rightarrow> RoleScopeMap option" where
  "invalidateCache cache = None"

definition refreshCache :: "(string, RoleRow) js_map \<Rightarrow> RoleScopeMap option \<Rightarrow> RoleScopeMap option" where
  "refreshCache roles cache = Some (buildRoleScopeMap roles)"

definition rolesWithScope ::
  "(string, RoleRow) js_map \<Rightarrow> RoleScopeMap option \<Rightarrow> RoleNamespace \<Rightarrow> scope_arg \<Rightarrow>
   (string list \<times> RoleScopeMap option) result" where
  "rolesWithScope roles cache ns scopes = getRolesWithAllScopes roles cache ns (scope_array scopes)"

subsection \<open>The tables\<close>

record SharedRow =
  sh_resourceId :: string
  sh_projectId :: string
  sh_role :: string

record RelationRow =
  rel_userId :: string
  rel_projectId :: string
  rel_role :: string

text \<open>
  \<open>acc_emptyIn\<close> is what the database answers to the query with an empty \<open>IN\<close> list, on
  which the supported databases differ.
\<close>

record AccessDb =
  acc_roles :: "(string, RoleRow) js_map"
  acc_relations :: "RelationRow list"
  acc_sharedCredentials :: "SharedRow list"
  acc_sharedWorkflows :: "SharedRow list"
  acc_globalCredentials :: "string list"
  acc_dataTables :: "(string, string) js_map"
  acc_dataTableModule :: bool
  acc_emptyIn :: "string list result"

record ResourceIds =
  credentialId :: "string option"
  workflowId :: "string option"
  projectId :: "string option"
  dataTableId :: "string option"

record User = AuthPrincipal +
  user_id :: string

subsection \<open>The check\<close>

text \<open>The scopes, with repetitions, that the joins find for a user in a project.\<close>

definition relation_scopes :: "AccessDb \<Rightarrow> string \<Rightarrow> string \<Rightarrow> Scope list" where
  "relation_scopes db uid pid =
    concat (map (\<lambda>r. (case map_get (acc_roles db) (rel_role r) of None \<Rightarrow> [] | Some row \<Rightarrow> rr_scopes row))
      (filter (\<lambda>r. rel_userId r = uid \<and> rel_projectId r = pid) (acc_relations db)))"

definition userProjectIds :: "AccessDb \<Rightarrow> string \<Rightarrow> Scope list \<Rightarrow> string list result" where
  "userProjectIds db uid scopes =
    (if scopes = [] then acc_emptyIn db
     else let matching = (\<lambda>pid. filter (\<lambda>s. s \<in> set scopes) (relation_scopes db uid pid)) in
       Inr (filter (\<lambda>pid. matching pid \<noteq> [] \<and> length (remdups (matching pid)) = length scopes)
         (remdups (map rel_projectId (acc_relations db)))))"

definition truthy :: "string option \<Rightarrow> bool" where
  "truthy v = (v \<noteq> None \<and> v \<noteq> Some '''')"

definition hasGlobalReadOnlyAccess :: "Scope list \<Rightarrow> bool" where
  "hasGlobalReadOnlyAccess scopes = (length scopes = 1 \<and> scopes ! 0 = ''credential:read'')"

definition shared_ok :: "SharedRow list \<Rightarrow> string list \<Rightarrow> string list \<Rightarrow> bool" where
  "shared_ok rows projects validRoles =
    list_ex (\<lambda>c. sh_projectId c \<in> set projects \<and> sh_role c \<in> set validRoles) rows"

definition quoted :: "string \<Rightarrow> string" where
  "quoted s = [CHR 0x22] @ s @ [CHR 0x22]"

definition check_credential ::
  "AccessDb \<Rightarrow> RoleScopeMap option \<Rightarrow> string list \<Rightarrow> Scope list \<Rightarrow> string \<Rightarrow>
   (bool \<times> RoleScopeMap option) result" where
  "check_credential db cache projects scopes cid =
    (let credentials = filter (\<lambda>c. sh_resourceId c = cid) (acc_sharedCredentials db) in
     if credentials = [] then Inl (AppError (''Credential with ID '' @ quoted cid @ '' not found.''))
     else rbind (rolesWithScope (acc_roles db) cache NsCredential (ManyScopes scopes)) (\<lambda>(validRoles, cache').
       Inr (shared_ok credentials projects validRoles \<or>
            hasGlobalReadOnlyAccess scopes \<and> cid \<in> set (acc_globalCredentials db), cache')))"

definition check_workflow ::
  "AccessDb \<Rightarrow> RoleScopeMap option \<Rightarrow> string list \<Rightarrow> Scope list \<Rightarrow> string \<Rightarrow>
   (bool \<times> RoleScopeMap option) result" where
  "check_workflow db cache projects scopes wid =
    (let workflows = filter (\<lambda>w. sh_resourceId w = wid) (acc_sharedWorkflows db) in
     if workflows = [] then Inl (AppError (''Workflow with ID '' @ quoted wid @ '' not found.''))
     else rbind (rolesWithScope (acc_roles db) cache NsWorkflow (ManyScopes scopes)) (\<lambda>(validRoles, cache').
       Inr (shared_ok workflows projects validRoles, cache')))"

definition check_dataTable ::
  "AccessDb \<Rightarrow> RoleScopeMap option \<Rightarrow> string list \<Rightarrow> string \<Rightarrow> (bool \<times> RoleScopeMap option) result" where
  "check_dataTable db cache projects did =
    (if \<not> acc_dataTableModule db then Inl (AppError (''Data table with ID '' @ quoted did @ '' not found.''))
     else (case map_get (acc_dataTables db) did of
         None \<Rightarrow> Inl (AppError (''Data table with ID '' @ quoted did @ '' not found.''))
       | Some pid \<Rightarrow> Inr (pid \<in> set projects, cache)))"

text \<open>The message of the last error is abbreviated to its first clause.\<close>

definition userHasScopes ::
  "AccessDb \<Rightarrow> RoleScopeMap option \<Rightarrow> User \<Rightarrow> Scope list \<Rightarrow> bool \<Rightarrow> ResourceIds \<Rightarrow>
   (bool \<times> RoleScopeMap option) result" where
  "userHasScopes db cache user scopes globalOnly ids =
    rbind (hasGlobalScope (AuthPrincipal.truncate user) (ManyScopes scopes) (Some AllOf)) (\<lambda>global.
      if global then Inr (True, cache)
      else if globalOnly then Inr (False, cache)
      else rbind (userProjectIds db (user_id user) scopes) (\<lambda>projects.
        if truthy (credentialId ids) then check_credential db cache projects scopes (the (credentialId ids))
        else if truthy (workflowId ids) then check_workflow db cache projects scopes (the (workflowId ids))
        else if truthy (dataTableId ids) then check_dataTable db cache projects (the (dataTableId ids))
        else if truthy (projectId ids) then Inr (the (projectId ids) \<in> set projects, cache)
        else Inl (AppError ''@ProjectScope decorator was used without an id in its URL parameters'')))"

section \<open>The role cache\<close>

text \<open>
  A lookup in the map built from the role table finds the scopes of the role, under its
  namespace.
\<close>

definition cache_lookup :: "RoleScopeMap \<Rightarrow> RoleNamespace \<Rightarrow> string \<Rightarrow> Scope list option" where
  "cache_lookup m ns slug = (case map_get m ns of None \<Rightarrow> None | Some infos \<Rightarrow> map_get infos slug)"

definition cache_wf :: "RoleScopeMap \<Rightarrow> bool" where
  "cache_wf m = (\<forall>ns infos. map_get m ns = Some infos \<longrightarrow> map_wf infos)"

lemma cache_lookup_addRole:
  "cache_lookup (addRole (k, r) m) ns slug =
    (if ns = rr_roleType r \<and> slug = k then Some (rr_scopes r) else cache_lookup m ns slug)"
  by (simp add: cache_lookup_def addRole_def Let_def split: option.split)

lemma cache_wf_addRole: "cache_wf m \<Longrightarrow> cache_wf (addRole role m)"
  by (auto simp: cache_wf_def addRole_def Let_def distinct_update split: option.split)

lemma buildRoleScopeMap_correct:
  assumes "map_wf roles"
  shows "cache_wf (buildRoleScopeMap roles)"
    "cache_lookup (buildRoleScopeMap roles) ns slug = (case map_get roles slug of
        None \<Rightarrow> None | Some r \<Rightarrow> if rr_roleType r = ns then Some (rr_scopes r) else None)"
proof -
  have "cache_wf (fold addRole rs m)" if "cache_wf m" for rs m
    using that by (induction rs arbitrary: m) (simp_all add: cache_wf_addRole)
  moreover have "cache_wf []"
    by (simp add: cache_wf_def)
  ultimately show "cache_wf (buildRoleScopeMap roles)"
    unfolding buildRoleScopeMap_def by blast
  have "cache_lookup (fold addRole rs m) ns slug = (case map_get rs slug of
      None \<Rightarrow> cache_lookup m ns slug
    | Some r \<Rightarrow> if rr_roleType r = ns then Some (rr_scopes r) else cache_lookup m ns slug)"
    if "map_wf rs" for rs m
    using that
  proof (induction rs arbitrary: m)
    case (Cons p rs)
    obtain k r where p: "p = (k, r)"
      by (cases p)
    have "map_get rs k = None"
      using Cons.prems p by (simp add: map_of_eq_None_iff)
    then show ?case
      using Cons p by (auto simp: cache_lookup_addRole split: option.splits)
  qed simp
  moreover have "cache_lookup [] ns slug = None"
    by (simp add: cache_lookup_def)
  ultimately show "cache_lookup (buildRoleScopeMap roles) ns slug = (case map_get roles slug of
        None \<Rightarrow> None | Some r \<Rightarrow> if rr_roleType r = ns then Some (rr_scopes r) else None)"
    using assms by (simp add: buildRoleScopeMap_def split: option.split)
qed

lemma matchingRoles_set:
  assumes "cache_wf m"
  shows "set (matchingRoles m ns required) = {slug. \<exists>ss. cache_lookup m ns slug = Some ss \<and> set required \<subseteq> set ss}"
proof (cases "map_get m ns")
  case (Some infos)
  then have "map_wf infos"
    using assms by (simp add: cache_wf_def)
  then show ?thesis
    using Some by (force simp: matchingRoles_def cache_lookup_def list_all_iff map_of_eq_Some_iff)
qed (simp add: matchingRoles_def cache_lookup_def)

text \<open>
  A cache is fresh if it is empty or holds the map of the current role table, the state after a
  refresh or an invalidation.
\<close>

definition cache_fresh :: "(string, RoleRow) js_map \<Rightarrow> RoleScopeMap option \<Rightarrow> bool" where
  "cache_fresh roles cache = (cache = None \<or> cache = Some (buildRoleScopeMap roles))"

lemma cache_fresh_intros:
  "cache_fresh roles (invalidateCache cache)" "cache_fresh roles (refreshCache roles cache)"
  by (simp_all add: cache_fresh_def invalidateCache_def refreshCache_def)

text \<open>A role of the table, in the namespace, with all the scopes.\<close>

definition role_covers :: "(string, RoleRow) js_map \<Rightarrow> RoleNamespace \<Rightarrow> Scope list \<Rightarrow> string \<Rightarrow> bool" where
  "role_covers roles ns scopes slug = (\<exists>r. map_get roles slug = Some r \<and> rr_roleType r = ns \<and>
    set scopes \<subseteq> set (rr_scopes r))"

lemma rolesWithScope_fresh:
  assumes "map_wf roles" "cache_fresh roles cache" "scopes \<noteq> []"
  obtains rs where "rolesWithScope roles cache ns (ManyScopes scopes) = Inr (rs, Some (buildRoleScopeMap roles))"
    "set rs = {slug. role_covers roles ns scopes slug}"
proof -
  let ?m = "buildRoleScopeMap roles"
  have "rolesWithScope roles cache ns (ManyScopes scopes) = Inr (matchingRoles ?m ns scopes, Some ?m)"
    using assms(2,3)
    by (auto simp: rolesWithScope_def getRolesWithAllScopes_def cache_get_def cache_fresh_def)
  moreover have "set (matchingRoles ?m ns scopes) = {slug. role_covers roles ns scopes slug}"
    unfolding matchingRoles_set [OF buildRoleScopeMap_correct(1) [OF assms(1)]]
      buildRoleScopeMap_correct(2) [OF assms(1)] role_covers_def
    by (auto split: option.splits if_splits)
  ultimately show thesis
    using that by blast
qed

text \<open>The fallback to the static roles is never taken: the cache always answers.\<close>

lemma cache_get_answers: "fst (cache_get cache fresh) \<noteq> None"
  by (simp add: cache_get_def split: option.split)

section \<open>The projects of a user\<close>

definition project_ok :: "AccessDb \<Rightarrow> string \<Rightarrow> Scope list \<Rightarrow> string \<Rightarrow> bool" where
  "project_ok db uid scopes pid = (set scopes \<subseteq> set (relation_scopes db uid pid))"

lemma remdups_covers:
  assumes "set xs \<subseteq> set scopes" "distinct scopes"
  shows "length (remdups xs) = length scopes \<longleftrightarrow> set scopes \<subseteq> set xs"
proof -
  have "length (remdups xs) = card (set xs)"
    by (simp add: length_remdups_card_conv)
  moreover have "length scopes = card (set scopes)"
    using assms(2) by (simp add: distinct_card)
  ultimately show ?thesis
    using assms(1) by (metis List.finite_set card_subset_eq set_eq_subset)
qed

lemma relation_scopes_project:
  assumes "relation_scopes db uid pid \<noteq> []"
  shows "pid \<in> rel_projectId ` set (acc_relations db)"
  using assms by (auto simp: relation_scopes_def filter_empty_conv)

lemma userProjectIds_correct:
  assumes "distinct scopes" "scopes \<noteq> []"
  obtains pids where "userProjectIds db uid scopes = Inr pids"
    "set pids = {pid. project_ok db uid scopes pid}"
proof -
  define matching where "matching pid = filter (\<lambda>s. s \<in> set scopes) (relation_scopes db uid pid)" for pid
  have "set scopes \<subseteq> set (matching pid) \<longleftrightarrow> project_ok db uid scopes pid" for pid
    by (auto simp: matching_def project_ok_def)
  moreover have "set (matching pid) \<subseteq> set scopes" for pid
    by (auto simp: matching_def)
  ultimately have len: "length (remdups (matching pid)) = length scopes \<longleftrightarrow> project_ok db uid scopes pid" for pid
    using remdups_covers [OF _ assms(1)] by blast
  have "matching pid \<noteq> [] \<and> pid \<in> rel_projectId ` set (acc_relations db)" if "project_ok db uid scopes pid" for pid
  proof -
    from that len have "length (remdups (matching pid)) = length scopes"
      by blast
    then have ne: "matching pid \<noteq> []"
      using assms(2) by auto
    then have "relation_scopes db uid pid \<noteq> []"
      by (auto simp: matching_def)
    with ne show ?thesis
      by (simp add: relation_scopes_project)
  qed
  then have "set (filter (\<lambda>pid. matching pid \<noteq> [] \<and> length (remdups (matching pid)) = length scopes)
      (remdups (map rel_projectId (acc_relations db)))) = {pid. project_ok db uid scopes pid}"
    using len by auto
  moreover have "userProjectIds db uid scopes = Inr (filter (\<lambda>pid. matching pid \<noteq> [] \<and>
      length (remdups (matching pid)) = length scopes) (remdups (map rel_projectId (acc_relations db))))"
    using assms(2) by (simp add: userProjectIds_def matching_def Let_def)
  ultimately show thesis
    using that by blast
qed

text \<open>A request that names a scope twice finds no project: the count of distinct scopes is too small.\<close>

lemma userProjectIds_repeated:
  assumes "\<not> distinct scopes"
  shows "userProjectIds db uid scopes = Inr []"
proof -
  have "length (remdups (filter (\<lambda>s. s \<in> set scopes) xs)) < length scopes" for xs
  proof -
    have "length (remdups (filter (\<lambda>s. s \<in> set scopes) xs)) \<le> card (set scopes)"
      unfolding length_remdups_card_conv by (rule card_mono) auto
    moreover have "card (set scopes) < length scopes"
      using assms by (metis card_distinct card_length le_neq_implies_less)
    ultimately show ?thesis
      by simp
  qed
  then have "length (remdups (filter (\<lambda>s. s \<in> set scopes) xs)) \<noteq> length scopes" for xs
    by (metis less_irrefl)
  then show ?thesis
    using assms by (auto simp: userProjectIds_def Let_def)
qed

section \<open>The check\<close>

text \<open>
  The specification.  A request names one resource; a credential or a workflow must be shared with
  a project where the user's role has the scopes, under a sharing role that has them too; a data
  table or a project must belong to, or be, such a project; a global credential may be read by
  everyone.
\<close>

datatype resource = Credential string | Workflow string | DataTable string | TheProject string

fun resource_id :: "resource \<Rightarrow> string" where
  "resource_id (Credential i) = i"
| "resource_id (Workflow i) = i"
| "resource_id (DataTable i) = i"
| "resource_id (TheProject i) = i"

fun ids_of :: "resource \<Rightarrow> ResourceIds" where
  "ids_of (Credential i) = \<lparr>credentialId = Some i, workflowId = None, projectId = None, dataTableId = None\<rparr>"
| "ids_of (Workflow i) = \<lparr>credentialId = None, workflowId = Some i, projectId = None, dataTableId = None\<rparr>"
| "ids_of (DataTable i) = \<lparr>credentialId = None, workflowId = None, projectId = None, dataTableId = Some i\<rparr>"
| "ids_of (TheProject i) = \<lparr>credentialId = None, workflowId = None, projectId = Some i, dataTableId = None\<rparr>"

definition shared_access ::
  "AccessDb \<Rightarrow> RoleNamespace \<Rightarrow> SharedRow list \<Rightarrow> string \<Rightarrow> Scope list \<Rightarrow> string \<Rightarrow> bool" where
  "shared_access db ns rows uid scopes i = (\<exists>c\<in>set rows. sh_resourceId c = i \<and>
    project_ok db uid scopes (sh_projectId c) \<and> role_covers (acc_roles db) ns scopes (sh_role c))"

fun may_access :: "AccessDb \<Rightarrow> string \<Rightarrow> Scope list \<Rightarrow> resource \<Rightarrow> bool" where
  "may_access db uid scopes (Credential i) =
    (shared_access db NsCredential (acc_sharedCredentials db) uid scopes i \<or>
     scopes = [''credential:read''] \<and> i \<in> set (acc_globalCredentials db))"
| "may_access db uid scopes (Workflow i) =
    shared_access db NsWorkflow (acc_sharedWorkflows db) uid scopes i"
| "may_access db uid scopes (DataTable i) =
    (case map_get (acc_dataTables db) i of None \<Rightarrow> False | Some pid \<Rightarrow> project_ok db uid scopes pid)"
| "may_access db uid scopes (TheProject i) = project_ok db uid scopes i"

fun resource_found :: "AccessDb \<Rightarrow> resource \<Rightarrow> bool" where
  "resource_found db (Credential i) = (i \<in> sh_resourceId ` set (acc_sharedCredentials db))"
| "resource_found db (Workflow i) = (i \<in> sh_resourceId ` set (acc_sharedWorkflows db))"
| "resource_found db (DataTable i) = (acc_dataTableModule db \<and> map_get (acc_dataTables db) i \<noteq> None)"
| "resource_found db (TheProject i) = True"

lemma shared_ok_iff:
  assumes "set pids = {pid. project_ok db uid scopes pid}" "set rs = {slug. role_covers (acc_roles db) ns scopes slug}"
  shows "shared_ok (filter (\<lambda>c. sh_resourceId c = i) rows) pids rs = shared_access db ns rows uid scopes i"
  using assms by (auto simp: shared_ok_def shared_access_def list_ex_iff)

lemma readOnly_iff: "hasGlobalReadOnlyAccess scopes \<longleftrightarrow> scopes = [''credential:read'']"
  by (cases scopes) (auto simp: hasGlobalReadOnlyAccess_def)

fun not_found :: "resource \<Rightarrow> js_error" where
  "not_found (Credential i) = AppError (''Credential with ID '' @ quoted i @ '' not found.'')"
| "not_found (Workflow i) = AppError (''Workflow with ID '' @ quoted i @ '' not found.'')"
| "not_found (DataTable i) = AppError (''Data table with ID '' @ quoted i @ '' not found.'')"
| "not_found (TheProject i) = TypeError"

lemma hasGlobalScope_all:
  assumes "principal_role user = Some r" "scopes \<noteq> []"
  shows "hasGlobalScope (AuthPrincipal.truncate user) (ManyScopes scopes) (Some AllOf) =
    Inr (set scopes \<subseteq> set (role_scopes r))"
  using assms by (simp add: hasGlobalScope_def getAuthPrincipalScopes_def filter_scopes_def
      hasScope_single AuthPrincipal.truncate_def)

lemma check_resource:
  assumes wf: "map_wf (acc_roles db)" and fresh: "cache_fresh (acc_roles db) cache"
    and ne: "scopes \<noteq> []" and pids: "set pids = {pid. project_ok db uid scopes pid}"
  shows "map_sum id fst (check_credential db cache pids scopes i) =
      (if resource_found db (Credential i) then Inr (may_access db uid scopes (Credential i))
       else Inl (not_found (Credential i)))"
    "map_sum id fst (check_workflow db cache pids scopes i) =
      (if resource_found db (Workflow i) then Inr (may_access db uid scopes (Workflow i))
       else Inl (not_found (Workflow i)))"
    "map_sum id fst (check_dataTable db cache pids i) =
      (if resource_found db (DataTable i) then Inr (may_access db uid scopes (DataTable i))
       else Inl (not_found (DataTable i)))"
proof -
  obtain crs where crs: "rolesWithScope (acc_roles db) cache NsCredential (ManyScopes scopes) =
      Inr (crs, Some (buildRoleScopeMap (acc_roles db)))"
    "set crs = {slug. role_covers (acc_roles db) NsCredential scopes slug}"
    using rolesWithScope_fresh [OF wf fresh ne] by metis
  obtain wrs where wrs: "rolesWithScope (acc_roles db) cache NsWorkflow (ManyScopes scopes) =
      Inr (wrs, Some (buildRoleScopeMap (acc_roles db)))"
    "set wrs = {slug. role_covers (acc_roles db) NsWorkflow scopes slug}"
    using rolesWithScope_fresh [OF wf fresh ne] by metis
  have none: "filter (\<lambda>c. sh_resourceId c = i) rows = [] \<longleftrightarrow> i \<notin> sh_resourceId ` set rows"
    for rows :: "SharedRow list"
    by (auto simp: filter_empty_conv)
  show "map_sum id fst (check_credential db cache pids scopes i) =
      (if resource_found db (Credential i) then Inr (may_access db uid scopes (Credential i))
       else Inl (not_found (Credential i)))"
    using shared_ok_iff [OF pids crs(2)] by (simp add: check_credential_def crs(1) none readOnly_iff)
  show "map_sum id fst (check_workflow db cache pids scopes i) =
      (if resource_found db (Workflow i) then Inr (may_access db uid scopes (Workflow i))
       else Inl (not_found (Workflow i)))"
    using shared_ok_iff [OF pids wrs(2)] by (simp add: check_workflow_def wrs(1) none)
  show "map_sum id fst (check_dataTable db cache pids i) =
      (if resource_found db (DataTable i) then Inr (may_access db uid scopes (DataTable i))
       else Inl (not_found (DataTable i)))"
    using pids by (auto simp: check_dataTable_def split: option.splits)
qed


definition example_db :: AccessDb where
  "example_db =
    \<lparr>acc_roles = [(''project:editor'', \<lparr>rr_displayName = None, rr_description = None, rr_systemRole = True,
        rr_roleType = NsProject, rr_scopes = [''workflow:read'', ''workflow:update'']\<rparr>),
       (''workflow:viewer'', \<lparr>rr_displayName = None, rr_description = None, rr_systemRole = True,
        rr_roleType = NsWorkflow, rr_scopes = [''workflow:read'']\<rparr>)],
     acc_relations = [\<lparr>rel_userId = ''u'', rel_projectId = ''p'', rel_role = ''project:editor''\<rparr>],
     acc_sharedCredentials = [],
     acc_sharedWorkflows = [\<lparr>sh_resourceId = ''w'', sh_projectId = ''p'', sh_role = ''workflow:viewer''\<rparr>],
     acc_globalCredentials = [], acc_dataTables = [], acc_dataTableModule = True, acc_emptyIn = Inr []\<rparr>"

definition example_user :: User where
  "example_user = \<lparr>principal_role = Some \<lparr>role_slug = ''global:member'', role_scopes = [''tag:list'']\<rparr>,
    user_id = ''u''\<rparr>"


text \<open>
  A request that repeats a scope is refused outside the global role: no project qualifies.
\<close>

lemma repeated_scope_refused:
  assumes "\<not> distinct scopes" "principal_role user = Some r" "\<not> set scopes \<subseteq> set (role_scopes r)"
    "pid \<noteq> ''''"
  shows "userHasScopes db cache user scopes False (ids_of (TheProject pid)) = Inr (False, cache)"
proof -
  have "scopes \<noteq> []"
    using assms(1) by auto
  then show ?thesis
    using assms by (simp add: userHasScopes_def hasGlobalScope_all userProjectIds_repeated truthy_def)
qed

end
