(* ===== verification/Spec2Isabelle.thy ===== *)
theory Spec2Isabelle
  imports Graph_Extraction Partial_Execution Active_Executions Task_Broker Access_Check
begin

text \<open>
  A verification of the core of n8n, a workflow automation server.  All paths below are relative to
  \<^verbatim>\<open>src/packages/\<close>.

  \<^bold>\<open>The program.\<close>  A workflow is a graph of nodes; connections join outputs of nodes to inputs of
  others.  An execution starts at a trigger and moves lists of items along the connections.  The parts
  and how they interact:

  \<^item> the class \<open>Workflow\<close> (\<^verbatim>\<open>workflow/src/workflow.ts\<close>) holds nodes and connections and answers
    questions about them;
  \<^item> the engine (\<^verbatim>\<open>core/src/execution-engine/workflow-execute.ts\<close>) runs one workflow: it takes nodes
    from an execution stack, runs them, records the runs in the run data, and puts the nodes behind
    them on the stack or, while inputs are missing, among the waiting executions.  A running node may ask
    the engine to run other nodes for it (\<^verbatim>\<open>requests-response.ts\<close>);
  \<^item> a partial execution runs a workflow up to one node and reuses earlier run data.  The utilities in
    \<^verbatim>\<open>core/src/execution-engine/partial-execution-utils/\<close> compute, on an editable graph, what has to
    run, and give the engine its first stack;
  \<^item> the server (\<^verbatim>\<open>cli/src/\<close>) registers its executions in \<^verbatim>\<open>active-executions.ts\<close>, which asks the
    concurrency control in \<^verbatim>\<open>concurrency/\<close> for capacity;
  \<^item> the task broker (\<^verbatim>\<open>cli/src/task-runners/task-broker/\<close>) matches code that nodes want to run
    with the processes that run code;
  \<^item> permissions (\<^verbatim>\<open>@n8n/permissions\<close>, \<^verbatim>\<open>@n8n/db/src/services/auth.roles.service.ts\<close>,
    \<^verbatim>\<open>cli/src/permissions.ee/check-access.ts\<close>): static tables of scopes and roles, their
    synchronisation with the database, and the check whether a user may do something.

  \<^bold>\<open>How the code is modelled.\<close>  \<open>JS_Prelude\<close> has the JavaScript library: \<open>Map\<close> and \<open>Set\<close> as lists in
  insertion order, arrays, and the type \<open>'a result\<close> for code that may throw, a failed assertion or a
  \<open>TypeError\<close> included.  \<open>Workflow_Model\<close> has the data types of \<^verbatim>\<open>workflow/src/interfaces.ts\<close>.  Objects that
  the code compares by reference carry their reference; a mutation of a shared object changes every record
  with that reference.  Functions and methods are definitions with the same name wherever the name is
  free; the bodies of loops and long branches have names of their own.  Asynchronous methods are split
  where they suspend, and a suspended call is part of the state.

  \<^bold>\<open>The theories.\<close>

  \<^item> \<open>Directed_Graph\<close>, \<open>Strong_Components\<close>: the class \<open>DirectedGraph\<close>, its two maps as a record.  Every
    method keeps the graph well formed; children, parents and the depth-first search are exactly what
    the connections reach; importing and exporting; the component search is sound, and an example
    where it misses a cycle.
  \<^item> \<open>Subgraph\<close>, \<open>Run_Data\<close>, \<open>Start_Nodes\<close>, \<open>Execution_Stack\<close>: \<open>filterDisabledNodes\<close>, \<open>findSubgraph\<close>,
    \<open>cleanRunData\<close> and the readers of run data, \<open>findStartNodes\<close>, \<open>handleCycles\<close>, \<open>getSourceDataGroups\<close>,
    \<open>recreateNodeExecutionStack\<close>.  Each returns on well-formed graphs and does what
    its comment says, under the conditions the theorems state (unambiguous connection keys, no sub-nodes
    upstream of what is cleaned, no cycle missed by the component search).
  \<^item> \<open>Workflow_Connections\<close>, \<open>Workflow_Search\<close>, \<open>Start_Node_Choice\<close>: the connection map by destination, the
    searches of \<open>Workflow\<close>, the indexes of a connection and the choice of the start node.
    \<open>Graph_Extraction\<close>: \<^verbatim>\<open>workflow/src/graph/graph-utils.ts\<close>, whether a selection of nodes can become a
    sub-workflow.
  \<^item> \<open>Node_Scheduling\<close>, \<open>Waiting_Nodes\<close>: \<open>addNodeToBeExecuted\<close>, the loop over outputs and the release of
    waiting nodes.  No data is lost or invented while a waiting run is open to it, the order of the stack, and waiting
    nodes are not left behind.
  \<^item> \<open>Node_Run\<close>, \<open>Engine_Requests\<close>, \<open>Execution_Loop\<close>: one run of a node, requests for other nodes, and the loop
    of \<open>processRunExecutionData\<close> as the step relation \<open>loop_step\<close> on \<open>loop_state\<close>, with retries, errors,
    waiting and cancellation, and the end of an execution.
  \<^item> \<open>Execution_Invariants\<close>, \<open>Execution_Outcomes\<close>, \<open>Tool_Requests\<close>, \<open>Well_Formed_Runs\<close>: what holds in every state
    that can be reached, whatever the nodes do (the node filter, execution indexes, well-formedness), and
    what an iteration does (bounded tries, failed nodes can be restarted, waiting nodes are resumed, tools
    get their results).
  \<^item> \<open>Partial_Execution\<close>: \<open>run\<close> and \<open>runPartialWorkflow2\<close>, with the choice of the trigger and the rewiring
    of tools.  It composes the utilities above with the execution loop: a partial execution runs only
    enabled nodes that lead to the destination, and its execution indexes continue the earlier ones.
  \<^item> \<open>Concurrency\<close>, \<open>Active_Executions\<close>: queues, capacities and reservations, and the registry that uses
    them.  The limit is respected, nobody waits while capacity is free, and capacity is given back.
  \<^item> \<open>Task_Broker\<close>: every handler and timer, with the two suspensions of \<open>acceptOffer\<close>.  Offers and requests
    are matched correctly, and a request is never stuck.
  \<^item> \<open>Scope_Tables\<close>, \<open>Permissions\<close>, \<open>Roles_Sync\<close>, \<open>Access_Check\<close>: the tables, the checks, the start-up
    synchronisation and the access check, which refines an abstract grant relation.

  Several theories also have lemmas about single inputs on which the code does not do what its comments or
  its callers expect, such as \<open>Node_Scheduling.waiting_run_overwritten\<close>.

  \<^bold>\<open>Interfaces.\<close>  The locales are \<open>keyed_store\<close> (what a map promises), \<open>collecting_traversal\<close> (a traversal that
  collects what it visits; interpreted for children, parents and the depth-first search),
  \<open>admission_queue\<close> (a queue with a capacity), \<open>step_order\<close> and \<open>step_invariant\<close> (from one step to all
  reachable states) and \<open>try_relation\<close> (what every try of a node keeps).  Each is interpreted on the
  model's own definitions.

  \<^bold>\<open>Termination and bounds.\<close>  Searches and loops that end are total functions with a measure, most often
  the number of nodes not visited yet; there is no fuel.  The execution loop may run forever, since
  workflows may have cycles, and is a relation; the function \<open>iterate_loop\<close>, with a number of
  iterations, serves only to compute examples.  Indexes and counters are natural numbers or integers:
  the code uses doubles, which are exact far beyond any number of runs.

  \<^bold>\<open>Parameters.\<close>  Code outside these packages is an argument: what nodes do, including that it may differ
  from call to call (\<open>en_execute\<close>, \<open>en_produce\<close>), the registry of node types and their descriptions,
  the paired item of an error, \<open>localeCompare\<close>, \<open>nanoid\<close>, the clock, the answers of the database and the
  license.

  \<^bold>\<open>Not modelled.\<close>  Expressions and the resolution of node parameters, default parameters included, which
  need a JavaScript evaluator; renaming nodes, which rewrites expressions; static data of workflows;
  hooks, binary data, telemetry and logging; the readiness check before an execution and the merge of
  node metadata after it; streaming and the waiting part of a shutdown in \<open>ActiveExecutions\<close>; the
  database itself, HTTP and the servers; the editor; the packages of nodes, which are adapters to
  third-party services.
\<close>

end
